(* ===== verification/Prelude.thy ===== *)
theory Prelude
  imports Main "HOL-Library.Word"
begin

text \<open>
  The shared vocabulary of the development.  A \<open>Slice\<close> (\<^verbatim>\<open>include/pebblesdb/slice.h\<close>)
  and a \<open>std::string\<close> are both lists of bytes: the code never relies on where the bytes of
  a slice live.  Machine integers keep their width.  The \<open>Status\<close> of
  \<^verbatim>\<open>include/pebblesdb/status.h\<close> is a datatype with the codes the library uses and the
  message as a byte string.  The rest of the theory holds the generic facts on lists and
  words that the component theories share.
\<close>

unbundle bit_operations_syntax

section \<open>Types\<close>

type_synonym byte = "8 word"
type_synonym bytes = "8 word list"
type_synonym u32 = "32 word"
type_synonym u64 = "64 word"

text \<open>Literal strings of the source as bytes.\<close>

definition str :: "string \<Rightarrow> bytes" where
  "str s = map (\<lambda>c. of_nat (of_char c)) s"

text \<open>Decimal digits, as \<open>%u\<close> and \<open>%llu\<close> print them.\<close>

fun decimal :: "nat \<Rightarrow> bytes" where
  "decimal n = (if n < 10 then [of_nat (48 + n)] else decimal (n div 10) @ [of_nat (48 + n mod 10)])"

declare decimal.simps [simp del]

text \<open>Lemma collections: rewrites for word reads (\<open>word_reads\<close>), decoders applied to
  encodings (\<open>codec\<close>) and the values of the code's named constants (\<open>constants\<close>).\<close>

named_theorems word_reads \<open>numeric readings of word operations\<close>
named_theorems codec \<open>a decoder applied to what the encoder wrote\<close>
named_theorems constants \<open>values of the source's named constants\<close>

section \<open>Words\<close>

lemma unat_drop_bit [word_reads]: "unat (drop_bit n w) = unat w div 2 ^ n"
  for w :: "'a::len word"
  by (metis unat_drop_bit_eq drop_bit_eq_div)

lemma unat_and_mask [word_reads]: "unat (w AND mask n) = unat w mod 2 ^ n"
  for w :: "'a::len word"
  by (metis take_bit_eq_mask take_bit_eq_mod unsigned_take_bit_eq)

lemma bit_literals [bit_simps]:
  "bit (255 :: int) n \<longleftrightarrow> n < 8"
  "bit (127 :: int) n \<longleftrightarrow> n < 7"
  "bit (128 :: int) n \<longleftrightarrow> n = 7"
proof -
  have lits: "(255 :: int) = mask 8" "(127 :: int) = mask 7" "(128 :: int) = 2 ^ 7"
    by (simp_all add: mask_eq_exp_minus_1)
  show "bit (255 :: int) n \<longleftrightarrow> n < 8" "bit (127 :: int) n \<longleftrightarrow> n < 7"
    "bit (128 :: int) n \<longleftrightarrow> n = 7"
    by (simp_all only: lits bit_mask_iff bit_exp_iff possible_bit_int simp_thms eq_commute)
qed

lemma drop_bit_zero_iff: "drop_bit k (v :: 'a::len word) = 0 \<longleftrightarrow> (\<forall>n\<ge>k. \<not> bit v n)"
proof
  assume zero: "drop_bit k v = 0"
  have "\<not> bit v n" if "k \<le> n" for n
  proof -
    have "bit (drop_bit k v) (n - k) = bit v n" using that by (simp add: bit_drop_bit_eq)
    then show ?thesis by (simp add: zero)
  qed
  then show "\<forall>n\<ge>k. \<not> bit v n" by simp
qed (auto intro!: bit_word_eqI simp: bit_simps)

lemma less_exp_drop_bit: "v < 2 ^ k \<longleftrightarrow> drop_bit k v = 0" if "k < LENGTH('a)" for v :: "'a::len word"
proof -
  have "unat (2 ^ k :: 'a word) = 2 ^ k"
    using that unsigned_of_nat [of "2 ^ k", where 'a = nat and 'b = 'a]
    by (simp add: take_bit_of_exp)
  then have "v < 2 ^ k \<longleftrightarrow> unat v < 2 ^ k" by (simp add: word_less_nat_alt)
  also have "\<dots> \<longleftrightarrow> unat v div 2 ^ k = 0" by (simp add: div_eq_0_iff)
  also have "\<dots> \<longleftrightarrow> drop_bit k v = 0" by (metis unat_drop_bit unat_eq_zero)
  finally show ?thesis .
qed

lemma unat_of_nat_small [simp]: "n < 2 ^ LENGTH('a) \<Longrightarrow> unat (of_nat n :: 'a::len word) = n"
  by (simp add: unsigned_of_nat take_bit_nat_eq_self)

lemma unat_byte_less: "unat (b :: byte) < 256"
  using unsigned_less [of b, where 'a = nat] by simp

lemma byte_le_255 [simp]: "(b :: byte) \<le> 255"
  using unat_byte_less [of b] by (simp add: word_le_nat_alt)

lemma unat_push_or:
  fixes x h :: "'a::len word"
  assumes "unat x * 2 ^ k < 2 ^ LENGTH('a)" and "unat h < 2 ^ k"
  shows "unat (push_bit k x OR h) = unat x * 2 ^ k + unat h"
proof -
  have "unat (push_bit k x) = push_bit k (unat x)"
  proof -
    have "push_bit k (unat x) < 2 ^ LENGTH('a)" using assms(1) by (simp add: push_bit_eq_mult)
    then show ?thesis by (simp add: unsigned_push_bit_eq take_bit_nat_eq_self del: push_bit_eq_mult)
  qed
  moreover have "push_bit k (unat x) AND unat h = 0"
  proof (rule bit_eqI)
    fix n
    have "\<not> bit (unat h) n" if "k \<le> n"
      using assms(2) that by (simp add: bit_iff_odd div_eq_0_iff less_le_trans)
    then show "bit (push_bit k (unat x) AND unat h) n = bit (0 :: nat) n"
      by (auto simp: bit_simps)
  qed
  ultimately show ?thesis
    by (simp add: unsigned_or_eq disjunctive_add_eq_or [symmetric] push_bit_eq_mult)
qed

section \<open>Arithmetic\<close>

lemma round_up_mod: "0 < m \<Longrightarrow> (p + (m - p mod m)) mod m = (0 :: nat)"
proof -
  assume "0 < m"
  then have "p mod m < m" by simp
  moreover have "p div m * m + p mod m = p" by simp
  ultimately have "p + (m - p mod m) = p div m * m + m" by linarith
  then show ?thesis by simp
qed

section \<open>Lists\<close>

text \<open>An array of four-byte cells.\<close>

lemma drop_fixed_concat:
  assumes "\<And>x. length (f x) = 4" and "r < length xs"
  shows "drop (r * 4) (concat (map f xs) @ t) = f (xs ! r) @ concat (map f (drop (Suc r) xs)) @ t"
  using assms(2)
proof (induction xs arbitrary: r)
  case (Cons x xs)
  show ?case
  proof (cases r)
    case (Suc q)
    then have "drop (r * 4) (concat (map f (x # xs)) @ t) = drop (q * 4) (concat (map f xs) @ t)"
      using assms(1) [of x] by simp
    then show ?thesis using Cons Suc by simp
  qed simp
qed simp

end
