(* ===== verification/Coding.thy ===== *)
theory Coding
  imports Prelude
begin

text \<open>
  The integer and string encodings of \<^verbatim>\<open>util/coding.cc\<close> and \<^verbatim>\<open>util/coding.h\<close>.
  An encoder that appends to \<open>dst\<close> is a function from the value to the bytes it appends;
  the \<open>StringBuilder\<close> overloads append the same bytes.  A decoder takes the
  bytes from \<open>p\<close> to \<open>limit\<close> and gives the value with the bytes that are left, or
  \<open>None\<close> where the code returns \<open>NULL\<close> or \<open>false\<close>.  On a little-endian host
  the fixed-width routines copy the object representation, which is the byte order the
  explicit branch writes; the model is the explicit branch.
\<close>

unbundle bit_operations_syntax

section \<open>Fixed-width integers\<close>

definition EncodeFixed32 :: "u32 \<Rightarrow> bytes" where
  "EncodeFixed32 value =
    [ucast (value AND 0xff),
     ucast (drop_bit 8 value AND 0xff),
     ucast (drop_bit 16 value AND 0xff),
     ucast (drop_bit 24 value AND 0xff)]"

definition EncodeFixed64 :: "u64 \<Rightarrow> bytes" where
  "EncodeFixed64 value =
    [ucast (value AND 0xff),
     ucast (drop_bit 8 value AND 0xff),
     ucast (drop_bit 16 value AND 0xff),
     ucast (drop_bit 24 value AND 0xff),
     ucast (drop_bit 32 value AND 0xff),
     ucast (drop_bit 40 value AND 0xff),
     ucast (drop_bit 48 value AND 0xff),
     ucast (drop_bit 56 value AND 0xff)]"

definition PutFixed32 :: "bytes \<Rightarrow> u32 \<Rightarrow> bytes" where
  "PutFixed32 dst value = dst @ EncodeFixed32 value"

definition PutFixed64 :: "bytes \<Rightarrow> u64 \<Rightarrow> bytes" where
  "PutFixed64 dst value = dst @ EncodeFixed64 value"

text \<open>The unchecked reads: the callers have at least 4 (8) bytes at \<open>ptr\<close>.\<close>

definition DecodeFixed32 :: "bytes \<Rightarrow> u32" where
  "DecodeFixed32 ptr =
    (ucast (ptr ! 0)
     OR push_bit 8 (ucast (ptr ! 1))
     OR push_bit 16 (ucast (ptr ! 2))
     OR push_bit 24 (ucast (ptr ! 3)))"

definition DecodeFixed64 :: "bytes \<Rightarrow> u64" where
  "DecodeFixed64 ptr =
    (let lo = ucast (DecodeFixed32 ptr); hi = ucast (DecodeFixed32 (drop 4 ptr))
     in push_bit 32 hi OR lo)"

section \<open>Variable-length integers\<close>

definition EncodeVarint32 :: "u32 \<Rightarrow> bytes" where
  "EncodeVarint32 v =
    (if v < 2 ^ 7 then [ucast v]
     else if v < 2 ^ 14 then [ucast (v OR 128), ucast (drop_bit 7 v)]
     else if v < 2 ^ 21 then
       [ucast (v OR 128), ucast (drop_bit 7 v OR 128), ucast (drop_bit 14 v)]
     else if v < 2 ^ 28 then
       [ucast (v OR 128), ucast (drop_bit 7 v OR 128), ucast (drop_bit 14 v OR 128),
        ucast (drop_bit 21 v)]
     else
       [ucast (v OR 128), ucast (drop_bit 7 v OR 128), ucast (drop_bit 14 v OR 128),
        ucast (drop_bit 21 v OR 128), ucast (drop_bit 28 v)])"

definition PutVarint32 :: "bytes \<Rightarrow> u32 \<Rightarrow> bytes" where
  "PutVarint32 dst v = dst @ EncodeVarint32 v"

lemma drop_bit_7_less: "128 \<le> v \<Longrightarrow> unat (drop_bit 7 v) < unat v" for v :: u64
  by (simp add: word_reads word_le_nat_alt)

function EncodeVarint64 :: "u64 \<Rightarrow> bytes" where
  "EncodeVarint64 v =
    (if v \<ge> 128 then ucast ((v AND (128 - 1)) OR 128) # EncodeVarint64 (drop_bit 7 v)
     else [ucast v])"
  by pat_completeness auto
termination
  by (relation "measure unat") (simp_all add: drop_bit_7_less)

definition PutVarint64 :: "bytes \<Rightarrow> u64 \<Rightarrow> bytes" where
  "PutVarint64 dst v = dst @ EncodeVarint64 v"

text \<open>The loop of \<open>VarintLength\<close>, with the running length.\<close>

function VarintLength_loop :: "u64 \<Rightarrow> nat \<Rightarrow> nat" where
  "VarintLength_loop v len =
    (if v \<ge> 128 then VarintLength_loop (drop_bit 7 v) (len + 1) else len)"
  by pat_completeness auto
termination
  by (relation "measure (\<lambda>(v, len). unat v)") (simp_all add: drop_bit_7_less)

definition VarintLength :: "u64 \<Rightarrow> nat" where
  "VarintLength v = VarintLength_loop v 1"

declare EncodeVarint64.simps [simp del] VarintLength_loop.simps [simp del]

text \<open>The \<open>for\<close> loop shared by the two decoders: \<open>shift\<close> grows by 7 up to
  \<open>maxshift\<close>, and running out of bytes or of shifts is the \<open>NULL\<close> return.\<close>

fun GetVarintPtr_loop :: "nat \<Rightarrow> nat \<Rightarrow> 'a::len word \<Rightarrow> bytes \<Rightarrow> ('a word \<times> bytes) option" where
  "GetVarintPtr_loop maxshift shift result [] = None"
| "GetVarintPtr_loop maxshift shift result (b # p) =
    (if shift > maxshift then None
     else if ucast b AND (128 :: 'a word) \<noteq> 0
       then GetVarintPtr_loop maxshift (shift + 7)
              (result OR push_bit shift (ucast b AND 127)) p
       else Some (result OR push_bit shift (ucast b), p))"

definition GetVarint32PtrFallback :: "bytes \<Rightarrow> (u32 \<times> bytes) option" where
  "GetVarint32PtrFallback p = GetVarintPtr_loop 28 0 0 p"

definition GetVarint32Ptr :: "bytes \<Rightarrow> (u32 \<times> bytes) option" where
  "GetVarint32Ptr p =
    (case p of
       b # q \<Rightarrow> (let result = ucast b :: u32
                 in if result AND 128 = 0 then Some (result, q)
                    else GetVarint32PtrFallback p)
     | [] \<Rightarrow> GetVarint32PtrFallback p)"

definition GetVarint32 :: "bytes \<Rightarrow> (u32 \<times> bytes) option" where
  "GetVarint32 input = GetVarint32Ptr input"

definition GetVarint64Ptr :: "bytes \<Rightarrow> (u64 \<times> bytes) option" where
  "GetVarint64Ptr p = GetVarintPtr_loop 63 0 0 p"

definition GetVarint64 :: "bytes \<Rightarrow> (u64 \<times> bytes) option" where
  "GetVarint64 input = GetVarint64Ptr input"

section \<open>Length-prefixed strings\<close>

text \<open>\<open>value.size()\<close> is a \<open>size_t\<close> passed as a \<open>uint32_t\<close>.\<close>

definition PutLengthPrefixedSlice :: "bytes \<Rightarrow> bytes \<Rightarrow> bytes" where
  "PutLengthPrefixedSlice dst value = PutVarint32 dst (of_nat (length value)) @ value"

definition GetLengthPrefixedSlice :: "bytes \<Rightarrow> (bytes \<times> bytes) option" where
  "GetLengthPrefixedSlice input =
    (case GetVarint32 input of
       None \<Rightarrow> None
     | Some (len, input') \<Rightarrow>
         if length input' \<ge> unat len
         then Some (take (unat len) input', drop (unat len) input')
         else None)"

section \<open>Round trips\<close>

lemma length_EncodeFixed32 [simp]: "length (EncodeFixed32 v) = 4"
  by (simp add: EncodeFixed32_def)

lemma length_EncodeFixed64 [simp]: "length (EncodeFixed64 v) = 8"
  by (simp add: EncodeFixed64_def)

lemma Decode_EncodeFixed32 [simp, codec]: "DecodeFixed32 (EncodeFixed32 v @ rest) = v"
proof (rule bit_word_eqI)
  fix n assume "n < LENGTH(32)"
  then consider "n < 8" | "8 \<le> n" "n < 16" | "16 \<le> n" "n < 24" | "24 \<le> n" "n < 32"
    by force
  then show "bit (DecodeFixed32 (EncodeFixed32 v @ rest)) n = bit v n"
    unfolding DecodeFixed32_def EncodeFixed32_def
    by cases (auto simp: bit_simps)
qed

lemma EncodeFixed64_halves:
  "EncodeFixed64 v = EncodeFixed32 (ucast v) @ EncodeFixed32 (ucast (drop_bit 32 v))"
  unfolding EncodeFixed64_def EncodeFixed32_def
  by (auto intro!: bit_word_eqI simp: bit_simps)

lemma Decode_EncodeFixed64 [simp, codec]: "DecodeFixed64 (EncodeFixed64 v @ rest) = v"
proof -
  have "DecodeFixed32 (EncodeFixed64 v @ rest) = ucast v"
    by (simp add: EncodeFixed64_halves)
  moreover have "DecodeFixed32 (drop 4 (EncodeFixed64 v @ rest)) = ucast (drop_bit 32 v)"
    by (simp add: EncodeFixed64_halves)
  ultimately show ?thesis
    unfolding DecodeFixed64_def Let_def
    by (auto intro!: bit_word_eqI simp: bit_simps)
qed
lemma DecodeFixed32_self [simp]: "DecodeFixed32 (EncodeFixed32 v) = v"
  using Decode_EncodeFixed32 [of v "[]"] by simp

lemma DecodeFixed64_self [simp]: "DecodeFixed64 (EncodeFixed64 v) = v"
  using Decode_EncodeFixed64 [of v "[]"] by simp

text \<open>One turn of the decoding loop on a byte with, and without, the continuation bit.\<close>

lemma loop_more:
  assumes "shift \<le> maxshift" and "8 \<le> LENGTH('a)" and "b = ucast (v OR 128)"
  shows "GetVarintPtr_loop maxshift shift (r :: 'a::len word) (b # p) =
         GetVarintPtr_loop maxshift (shift + 7) (r OR push_bit shift (v AND 127)) p"
proof -
  have "ucast b AND (128 :: 'a word) = 128"
    using assms(2,3) by (auto intro!: bit_word_eqI simp: bit_simps)
  moreover have "bit (128 :: 'a word) 7" using assms(2) by (simp add: bit_simps)
  then have "(128 :: 'a word) \<noteq> 0" by (metis bit_0_eq bot_apply bot_bool_def)
  moreover have "ucast b AND 127 = v AND (127 :: 'a word)"
    using assms(2,3) by (auto intro!: bit_word_eqI simp: bit_simps)
  ultimately show ?thesis using assms(1) by simp
qed

lemma loop_last:
  assumes "shift \<le> maxshift" and "drop_bit 7 v = 0"
  shows "GetVarintPtr_loop maxshift shift (r :: 'a::len word) (ucast v # p) =
         Some (r OR push_bit shift v, p)"
proof -
  have bits: "\<not> bit v n" if "7 \<le> n" for n
    using assms(2) that by (simp add: drop_bit_zero_iff)
  have "ucast (ucast v :: 8 word) AND (128 :: 'a word) = 0"
    using bits by (auto intro!: bit_word_eqI simp: bit_simps)
  moreover have "ucast (ucast v :: 8 word) = v"
  proof (rule bit_word_eqI)
    fix n show "bit (ucast (ucast v :: 8 word) :: 'a word) n = bit v n" if "n < LENGTH('a)"
      using bits [of n] that by (cases "n < 7") (auto simp: bit_simps)
  qed
  ultimately show ?thesis using assms(1) by simp
qed

lemma GetVarint32Ptr_eq_loop: "GetVarint32Ptr p = GetVarintPtr_loop 28 0 0 p"
  by (simp add: GetVarint32Ptr_def GetVarint32PtrFallback_def Let_def split: list.split)

lemma drop_bit_7_decreases: "drop_bit 7 v \<noteq> 0 \<Longrightarrow> unat (drop_bit 7 v) < unat v" for v :: "'a::len word"
proof -
  assume "drop_bit 7 v \<noteq> 0"
  then have "unat v div 2 ^ 7 \<noteq> 0" by (metis unat_drop_bit unat_eq_zero)
  then show ?thesis by (simp add: unat_drop_bit)
qed

text \<open>The reference encoding: seven bits per byte, least significant first, the high bit
  set on every byte but the last.  Both encoders of the code compute it.\<close>

function varint :: "'a::len word \<Rightarrow> bytes" where
  "varint v = (if drop_bit 7 v \<noteq> 0 then ucast (v OR 128) # varint (drop_bit 7 v) else [ucast v])"
  by pat_completeness auto
termination
  by (relation "measure unat") (simp_all add: drop_bit_7_decreases)
declare varint.simps [simp del]

lemma varint_decode:
  assumes "8 \<le> LENGTH('a)" and "LENGTH('a) \<le> m + 7" and "7 dvd m"
    and "drop_bit (LENGTH('a) - s) v = 0" and "s \<le> m" and "7 dvd s"
  shows "GetVarintPtr_loop m s (r::'a::len word) (varint v @ rest) = Some (r OR push_bit s v, rest)"
  using assms(4-)
proof (induction v arbitrary: s r rule: varint.induct)
  case (1 v)
  show ?case
  proof (cases "drop_bit 7 v = 0")
    case True
    then show ?thesis using "1.prems" by (simp add: varint.simps [of v] loop_last del: GetVarintPtr_loop.simps)
  next
    case False
    then obtain n where n: "n \<ge> 7" "bit v n" by (auto simp: drop_bit_zero_iff)
    moreover have "n < LENGTH('a) - s" using "1.prems"(1) n(2) by (meson drop_bit_zero_iff not_le)
    ultimately have "s + 7 < m + 7" using assms(2) by simp
    then have s: "s + 7 \<le> m" using assms(3) "1.prems"(3) by (auto elim!: dvdE)
    have d: "drop_bit (LENGTH('a) - (s + 7)) (drop_bit 7 v) = 0"
      using "1.prems"(1) by (auto simp: drop_bit_zero_iff bit_simps)
    have "(r OR push_bit s (v AND 127)) OR push_bit (s + 7) (drop_bit 7 v) = r OR push_bit s v"
    proof (rule bit_word_eqI)
      fix n assume "n < LENGTH('a)"
      moreover have "7 + (n - (s + 7)) = n - s" if "7 \<le> n - s" using that by simp
      ultimately show "bit ((r OR push_bit s (v AND 127)) OR push_bit (s + 7) (drop_bit 7 v)) n =
          bit (r OR push_bit s v) n"
        by (cases "n - s < 7") (auto simp: bit_simps)
    qed
    then show ?thesis
      using "1.IH" [OF False d s, of "r OR push_bit s (v AND 127)"] False "1.prems" assms(1)
      by (simp add: varint.simps [of v] loop_more [where v = v] del: GetVarintPtr_loop.simps)
  qed
qed

lemma EncodeVarint32_varint: "EncodeVarint32 v = varint v"
proof -
  have less: "v < 128 \<longleftrightarrow> drop_bit 7 v = 0" "v < 16384 \<longleftrightarrow> drop_bit 14 v = 0"
    "v < 2097152 \<longleftrightarrow> drop_bit 21 v = 0" "v < 268435456 \<longleftrightarrow> drop_bit 28 v = 0"
    using less_exp_drop_bit [of 7 v] less_exp_drop_bit [of 14 v]
      less_exp_drop_bit [of 21 v] less_exp_drop_bit [of 28 v] by simp_all
  have zero: "drop_bit 7 v = 0 \<Longrightarrow> drop_bit 14 v = 0" "drop_bit 14 v = 0 \<Longrightarrow> drop_bit 21 v = 0"
    "drop_bit 21 v = 0 \<Longrightarrow> drop_bit 28 v = 0"
    by (simp_all add: drop_bit_zero_iff)
  have last: "drop_bit 35 v = 0" by (simp add: drop_bit_word_beyond)
  show ?thesis
    by (cases "drop_bit 7 v = 0"; cases "drop_bit 14 v = 0"; cases "drop_bit 21 v = 0";
        cases "drop_bit 28 v = 0")
      (simp_all add: EncodeVarint32_def less zero last varint.simps)
qed

lemma EncodeVarint64_varint: "EncodeVarint64 v = varint v"
proof (induction v rule: EncodeVarint64.induct)
  case (1 v)
  have "128 \<le> v \<longleftrightarrow> drop_bit 7 v \<noteq> 0" using less_exp_drop_bit [of 7 v] by (simp add: not_less [symmetric])
  moreover have "ucast ((v AND (128 - 1)) OR 128) = (ucast (v OR 128) :: byte)"
    by (rule bit_word_eqI) (auto simp: bit_simps)
  ultimately show ?case using 1 by (simp add: EncodeVarint64.simps [of v] varint.simps [of v])
qed

lemma GetVarint32_Encode [simp, codec]: "GetVarint32 (EncodeVarint32 v @ rest) = Some (v, rest)"
proof -
  have "GetVarintPtr_loop 28 0 0 (varint v @ rest) = Some (v, rest)"
    using varint_decode [of 28 0 v 0 rest] by (simp add: drop_bit_word_beyond)
  then show ?thesis by (simp add: GetVarint32_def GetVarint32Ptr_eq_loop EncodeVarint32_varint)
qed

lemma GetVarint64_Encode [simp, codec]: "GetVarint64 (EncodeVarint64 v @ rest) = Some (v, rest)"
proof -
  have "GetVarintPtr_loop 63 0 0 (varint v @ rest) = Some (v, rest)"
    using varint_decode [of 63 0 v 0 rest] by (simp add: drop_bit_word_beyond)
  then show ?thesis by (simp add: GetVarint64_def GetVarint64Ptr_def EncodeVarint64_varint)
qed

lemma length_varint_le: "drop_bit (7 * k) v = 0 \<Longrightarrow> 0 < k \<Longrightarrow> length (varint v) \<le> k"
proof (induction v arbitrary: k rule: varint.induct)
  case (1 v)
  show ?case
  proof (cases "drop_bit 7 v = 0")
    case False
    with "1.prems" have "k \<noteq> 1" by auto
    with "1.prems" obtain j where "k = Suc j" "0 < j" by (cases k) auto
    then show ?thesis using "1.IH" [of j] "1.prems" False
      by (simp add: varint.simps [of v] add.commute)
  qed (use "1.prems" in \<open>simp add: varint.simps [of v]\<close>)
qed

lemma length_EncodeVarint32: "length (EncodeVarint32 v) \<le> 5"
  using length_varint_le [of 5 v] by (simp add: EncodeVarint32_varint drop_bit_word_beyond)

lemma length_EncodeVarint64: "length (EncodeVarint64 v) \<le> 10"
  using length_varint_le [of 10 v] by (simp add: EncodeVarint64_varint drop_bit_word_beyond)

lemma VarintLength_loop_eq: "VarintLength_loop v len + 1 = len + length (EncodeVarint64 v)"
  by (induction v len rule: VarintLength_loop.induct)
    (simp add: VarintLength_loop.simps EncodeVarint64.simps)

lemma VarintLength_eq: "VarintLength v = length (EncodeVarint64 v)"
  using VarintLength_loop_eq [of v 1] by (simp add: VarintLength_def)

lemma GetLengthPrefixedSlice_Put [simp, codec]:
  assumes "length value < 2 ^ 32"
  shows "GetLengthPrefixedSlice (PutLengthPrefixedSlice [] value @ rest) = Some (value, rest)"
proof -
  have "unat (of_nat (length value) :: u32) = length value"
    using assms by (simp add: unsigned_of_nat take_bit_nat_eq_self)
  then show ?thesis
    by (simp add: PutLengthPrefixedSlice_def GetLengthPrefixedSlice_def PutVarint32_def)
qed

text \<open>Every \<open>Put\<close> appends.\<close>

lemma Put_append:
  "PutLengthPrefixedSlice dst v = dst @ PutLengthPrefixedSlice [] v"
  "PutVarint32 dst n = dst @ PutVarint32 [] n" "PutVarint64 dst m = dst @ PutVarint64 [] m"
  by (simp_all add: PutLengthPrefixedSlice_def PutVarint32_def PutVarint64_def)

text \<open>A decoder consumes at least one byte and leaves a suffix of its input.\<close>

lemma GetVarintPtr_loop_shorter:
  "GetVarintPtr_loop m s r p = Some (v, q) \<Longrightarrow> length q < length p"
  by (induction m s r p rule: GetVarintPtr_loop.induct)
    (auto split: if_splits simp del: push_bit_and)

lemma GetVarint32_shorter: "GetVarint32 p = Some (v, q) \<Longrightarrow> length q < length p"
  by (simp add: GetVarint32_def GetVarint32Ptr_eq_loop GetVarintPtr_loop_shorter)

lemma GetVarint64_shorter: "GetVarint64 p = Some (v, q) \<Longrightarrow> length q < length p"
  by (simp add: GetVarint64_def GetVarint64Ptr_def GetVarintPtr_loop_shorter)

lemma GetLengthPrefixedSlice_shorter:
  "GetLengthPrefixedSlice p = Some (r, q) \<Longrightarrow> length q < length p"
  by (auto simp: GetLengthPrefixedSlice_def dest!: GetVarint32_shorter
      split: option.splits prod.splits if_splits)

section \<open>Properties\<close>

text \<open>C20: decoding a varint gives back the value that was encoded and the bytes after it,
  for every 32-bit and 64-bit value; the encodings fit the 5- and 10-byte buffers they are
  written to, and \<open>VarintLength\<close> is the number of bytes written.\<close>

theorem varint_roundtrip:
  "GetVarint32 (PutVarint32 [] v @ rest) = Some (v, rest) \<and>
   GetVarint64 (PutVarint64 [] w @ rest) = Some (w, rest) \<and>
   length (EncodeVarint32 v) \<le> 5 \<and> length (EncodeVarint64 w) \<le> 10 \<and>
   VarintLength w = length (EncodeVarint64 w)"
  by (simp add: PutVarint32_def PutVarint64_def length_EncodeVarint32 length_EncodeVarint64
      VarintLength_eq)

text \<open>C21: fixed-width integers and length-prefixed strings (below 4 GiB) are read back as
  they were written, with the bytes after them left over.\<close>

theorem fixed_and_slice_roundtrip:
  "length value < 2 ^ 32 \<Longrightarrow>
   DecodeFixed32 (PutFixed32 [] v @ rest) = v \<and>
   DecodeFixed64 (PutFixed64 [] w @ rest) = w \<and>
   GetLengthPrefixedSlice (PutLengthPrefixedSlice [] value @ rest) = Some (value, rest)"
  by (simp add: PutFixed32_def PutFixed64_def)

theorem fixed_and_slice_roundtrip_witness:
  "GetLengthPrefixedSlice (PutLengthPrefixedSlice [] [1, 2, 3] @ [9]) = Some ([1, 2, 3], [9])"
  using fixed_and_slice_roundtrip [of "[1, 2, 3]" 0 "[9]" 0] by simp

end
