(* ===== verification/Comparator.thy ===== *)
theory Comparator
  imports Prelude "HOL-Library.List_Lexorder"
begin

text \<open>
  Slice comparison (\<^verbatim>\<open>include/pebblesdb/slice.h\<close>) and the bytewise comparator of
  \<^verbatim>\<open>util/comparator.cc\<close>.  The contract that \<^verbatim>\<open>include/pebblesdb/comparator.h\<close>
  states for every \<open>Comparator\<close> is the pair of locales \<open>key_comparator\<close> and
  \<open>key_shortener\<close>; the bytewise comparator is shown to meet it, and the order it
  defines is the lexicographic order of the library on byte lists.
\<close>

unbundle bit_operations_syntax

section \<open>The contract of a comparator\<close>

text \<open>Only the sign of a result is meaningful, as in C.\<close>

locale key_comparator =
  fixes Compare :: "bytes \<Rightarrow> bytes \<Rightarrow> int"
  assumes Compare_flip: "sgn (Compare a b) = - sgn (Compare b a)"
    and Compare_trans: "Compare a b \<le> 0 \<Longrightarrow> Compare b c \<le> 0 \<Longrightarrow> Compare a c \<le> 0"
begin

lemma Compare_refl: "Compare a a = 0"
  using Compare_flip [of a a] by (simp add: sgn_if split: if_splits)

lemma Compare_total: "Compare a b \<le> 0 \<or> Compare b a \<le> 0"
  using Compare_flip [of a b] by (auto simp: sgn_if split: if_splits)

lemma Compare_less_iff: "Compare a b < 0 \<longleftrightarrow> \<not> Compare b a \<le> 0"
  using Compare_flip [of a b] by (auto simp: sgn_if split: if_splits)

lemma Compare_zero_sym: "Compare a b = 0 \<longleftrightarrow> Compare b a = 0"
  using Compare_flip [of a b] by (auto simp: sgn_if split: if_splits)

lemma Compare_le_less_trans: "Compare a b \<le> 0 \<Longrightarrow> Compare b c < 0 \<Longrightarrow> Compare a c < 0"
  using Compare_less_iff Compare_trans by blast

lemma Compare_less_le_trans: "Compare a b < 0 \<Longrightarrow> Compare b c \<le> 0 \<Longrightarrow> Compare a c < 0"
  using Compare_less_iff Compare_trans by blast

lemma Compare_less_trans: "Compare a b < 0 \<Longrightarrow> Compare b c < 0 \<Longrightarrow> Compare a c < 0"
  using Compare_le_less_trans by force

lemma Compare_zero_trans: "Compare a b = 0 \<Longrightarrow> Compare b c = 0 \<Longrightarrow> Compare a c = 0"
  by (metis Compare_trans Compare_zero_sym antisym_conv2 Compare_less_iff order.refl)

end

text \<open>The separator a comparator proposes lies in \<open>[start, limit)\<close>; the successor is not
  below the key.\<close>

locale key_shortener = key_comparator +
  fixes FindShortestSeparator :: "bytes \<Rightarrow> bytes \<Rightarrow> bytes"
    and FindShortSuccessor :: "bytes \<Rightarrow> bytes"
  assumes separator_lower: "Compare s l < 0 \<Longrightarrow> Compare s (FindShortestSeparator s l) \<le> 0"
    and separator_upper: "Compare s l < 0 \<Longrightarrow> Compare (FindShortestSeparator s l) l < 0"
    and successor_lower: "Compare k (FindShortSuccessor k) \<le> 0"

section \<open>Slices\<close>

text \<open>\<open>memcmp\<close> over \<open>n\<close> bytes: the sign of the first difference, as unsigned bytes.\<close>

fun memcmp :: "bytes \<Rightarrow> bytes \<Rightarrow> nat \<Rightarrow> int" where
  "memcmp (a # as) (b # bs) (Suc n) =
    (if a < b then -1 else if b < a then 1 else memcmp as bs n)"
| "memcmp _ _ _ = 0"

definition Slice_compare :: "bytes \<Rightarrow> bytes \<Rightarrow> int" where
  "Slice_compare a b =
    (let min_len = (if length a < length b then length a else length b);
         r = memcmp a b min_len
     in if r = 0 then (if length a < length b then -1 else if length a > length b then 1 else r)
        else r)"

definition Slice_eq :: "bytes \<Rightarrow> bytes \<Rightarrow> bool" where
  "Slice_eq x y = (length x = length y \<and> memcmp x y (length x) = 0)"

definition starts_with :: "bytes \<Rightarrow> bytes \<Rightarrow> bool" where
  "starts_with s x = (length s \<ge> length x \<and> memcmp s x (length x) = 0)"

section \<open>The bytewise comparator\<close>

text \<open>The \<open>while\<close> loop that finds the length of the common prefix.\<close>

fun diff_index :: "bytes \<Rightarrow> bytes \<Rightarrow> nat" where
  "diff_index (a # as) (b # bs) = (if a = b then Suc (diff_index as bs) else 0)"
| "diff_index _ _ = 0"

definition bytewise_FindShortestSeparator :: "bytes \<Rightarrow> bytes \<Rightarrow> bytes" where
  "bytewise_FindShortestSeparator start limit =
    (let min_length = min (length start) (length limit);
         i = diff_index start limit
     in if i \<ge> min_length then start
        else let diff_byte = start ! i
             in if diff_byte < 0xff \<and> unat diff_byte + 1 < unat (limit ! i)
                then take (i + 1) (start[i := diff_byte + 1])
                else start)"

text \<open>The \<open>for\<close> loop of \<open>FindShortSuccessor\<close>: bytes 0xff are kept and passed over.\<close>

fun bytewise_FindShortSuccessor :: "bytes \<Rightarrow> bytes" where
  "bytewise_FindShortSuccessor [] = []"
| "bytewise_FindShortSuccessor (b # bs) =
    (if b \<noteq> 0xff then [b + 1] else b # bytewise_FindShortSuccessor bs)"

definition KeyNum :: "bytes \<Rightarrow> u64" where
  "KeyNum key =
    (let n = min (length key) 8; buf = take n key @ replicate (8 - n) 0
     in push_bit 56 (ucast (buf ! 0))
        OR push_bit 48 (ucast (buf ! 1))
        OR push_bit 40 (ucast (buf ! 2))
        OR push_bit 32 (ucast (buf ! 3))
        OR push_bit 24 (ucast (buf ! 4))
        OR push_bit 16 (ucast (buf ! 5))
        OR push_bit 8 (ucast (buf ! 6))
        OR ucast (buf ! 7))"

section \<open>The order on slices\<close>

lemma Slice_compare_Nil [simp]:
  "Slice_compare [] b = (if b = [] then 0 else -1)" "Slice_compare a [] = (if a = [] then 0 else 1)"
  by (cases b; simp add: Slice_compare_def) (cases a; simp add: Slice_compare_def)

lemma Slice_compare_Cons [simp]:
  "Slice_compare (a # as) (b # bs) = (if a < b then -1 else if b < a then 1 else Slice_compare as bs)"
  by (simp add: Slice_compare_def Let_def)

lemma Slice_compare_lex: "Slice_compare a b = (if a < b then -1 else if b < a then 1 else 0)"
  by (induction a b rule: diff_index.induct)
    (auto simp: neq_Nil_conv split: if_splits)

lemma Slice_eq_iff: "Slice_eq x y \<longleftrightarrow> x = y"
proof (induction x arbitrary: y)
  case Nil
  show ?case by (auto simp: Slice_eq_def)
next
  case (Cons a x)
  then show ?case by (cases y) (auto simp: Slice_eq_def)
qed

lemma starts_with_iff: "starts_with s x \<longleftrightarrow> (\<exists>t. s = x @ t)"
proof (induction x arbitrary: s)
  case Nil
  show ?case by (auto simp: starts_with_def)
next
  case (Cons a x)
  then show ?case by (cases s) (auto simp: starts_with_def)
qed

lemma append_less_cancel [simp]: "p @ a < p @ b \<longleftrightarrow> a < b" for p :: "'a::linorder list"
  by (induction p) auto

lemma append_le_cancel [simp]: "p @ a \<le> p @ b \<longleftrightarrow> a \<le> b" for p :: "'a::linorder list"
  by (induction p) auto

lemma diff_index_split:
  assumes "diff_index s l < min (length s) (length l)"
  obtains p x y s' l' where "s = p @ x # s'" "l = p @ y # l'" "x \<noteq> y" "length p = diff_index s l"
proof -
  have "\<exists>p x y s' l'. s = p @ x # s' \<and> l = p @ y # l' \<and> x \<noteq> y \<and> length p = diff_index s l"
    using assms
  proof (induction s l rule: diff_index.induct)
    case (1 a as b bs)
    show ?case
    proof (cases "a = b")
      case True
      with 1 obtain p x y s' l' where "as = p @ x # s'" "bs = p @ y # l'" "x \<noteq> y"
        "length p = diff_index as bs" by auto
      then show ?thesis
        using True by (intro exI [of _ "a # p"] exI [of _ x] exI [of _ y] exI [of _ s'] exI [of _ l']) auto
    qed (intro exI [of _ "[]"], auto)
  qed auto
  then show ?thesis using that by blast
qed

lemma byte_less_Suc: "b < 255 \<Longrightarrow> b < b + (1 :: byte)" "b < 255 \<Longrightarrow> unat (b + 1) = unat b + 1"
proof -
  assume "b < 255"
  then have b: "unat b < 255" by (simp add: word_less_nat_alt)
  then show "unat (b + 1) = unat b + 1" by (simp add: unat_word_ariths)
  with b show "b < b + 1" by (simp add: word_less_nat_alt)
qed

lemma bytewise_separator_bounds:
  assumes "start < limit"
  shows "start \<le> bytewise_FindShortestSeparator start limit"
    and "bytewise_FindShortestSeparator start limit < limit"
proof -
  let ?i = "diff_index start limit"
  have "start \<le> bytewise_FindShortestSeparator start limit \<and>
      bytewise_FindShortestSeparator start limit < limit"
  proof (cases "?i < min (length start) (length limit)")
    case True
    then obtain p x y s' l' where split: "start = p @ x # s'" "limit = p @ y # l'" "x \<noteq> y"
      "length p = ?i" by (rule diff_index_split)
    have nth: "start ! ?i = x" "limit ! ?i = y"
      using split(1,2) split(4) [symmetric] by (simp_all only: nth_append_length)
    have upd: "take (?i + 1) (start[?i := x + 1]) = p @ [x + 1]"
      using split(1) split(4) [symmetric] by simp
    show ?thesis
    proof (cases "x < 255 \<and> unat x + 1 < unat y")
      case True
      then have "x < x + 1" "x + 1 < y" by (simp_all add: byte_less_Suc word_less_nat_alt)
      moreover have "bytewise_FindShortestSeparator start limit = p @ [x + 1]"
        using \<open>?i < _\<close> True upd by (simp add: bytewise_FindShortestSeparator_def Let_def nth min_le_iff_disj)
      ultimately show ?thesis using split(1,2) by (simp add: less_imp_le)
    next
      case False
      then show ?thesis using assms \<open>?i < _\<close>
        by (auto simp: bytewise_FindShortestSeparator_def Let_def nth)
    qed
  qed (use assms in \<open>simp add: bytewise_FindShortestSeparator_def Let_def min_le_iff_disj not_less\<close>)
  then show "start \<le> bytewise_FindShortestSeparator start limit"
    "bytewise_FindShortestSeparator start limit < limit" by simp_all
qed

lemma bytewise_successor_ge: "key \<le> bytewise_FindShortSuccessor key"
proof (induction key)
  case (Cons b bs)
  have "b \<noteq> 255 \<Longrightarrow> b < 255" by (simp add: order_less_le)
  then show ?case using Cons byte_less_Suc(1) [of b] by auto
qed simp

interpretation bytewise: key_shortener Slice_compare
  bytewise_FindShortestSeparator bytewise_FindShortSuccessor
proof (unfold_locales, goal_cases)
  case (3 s l)
  then show ?case using bytewise_separator_bounds(1) [of s l]
    by (auto simp: Slice_compare_lex split: if_splits)
next
  case (4 s l)
  then show ?case using bytewise_separator_bounds(2) [of s l]
    by (auto simp: Slice_compare_lex split: if_splits)
next
  case (5 k)
  then show ?case using bytewise_successor_ge [of k] by (auto simp: Slice_compare_lex)
qed (auto simp: Slice_compare_lex split: if_splits)

section \<open>Numeric key prefixes\<close>

text \<open>\<open>KeyNum\<close> reads the first eight bytes, zero-padded, most significant first; the
  big-endian value of equally long byte lists is monotone in the lexicographic order.\<close>

fun be_value :: "bytes \<Rightarrow> nat" where
  "be_value [] = 0"
| "be_value (b # bs) = unat b * 256 ^ length bs + be_value bs"

lemma be_value_bound: "be_value bs < 256 ^ length bs"
proof (induction bs)
  case (Cons b bs)
  have "unat b < 256" by (rule unat_byte_less)
  then have "unat b * 256 ^ length bs + 256 ^ length bs \<le> 256 * 256 ^ length bs"
    by (metis Suc_leI add.commute mult_Suc mult_le_mono1)
  moreover have "be_value (b # bs) < unat b * 256 ^ length bs + 256 ^ length bs"
    using Cons by simp
  ultimately show ?case by (simp only: length_Cons power_Suc)
qed simp

lemma be_value_mono:
  "length a = length b \<Longrightarrow> a \<le> b \<Longrightarrow> be_value a \<le> be_value b"
proof (induction a b rule: list_induct2)
  case (Cons x xs y ys)
  show ?case
  proof (cases "x < y")
    case True
    then have "unat x + 1 \<le> unat y" by (simp add: word_less_nat_alt)
    then have "(unat x + 1) * 256 ^ length xs \<le> unat y * 256 ^ length ys"
      using Cons.hyps by (metis mult_le_mono1)
    then show ?thesis using be_value_bound [of xs] by (simp add: algebra_simps)
  qed (use Cons in auto)
qed simp

lemma take_pad_mono:
  "a \<le> b \<Longrightarrow> take n (a @ replicate n 0) \<le> take n (b @ replicate n (0 :: byte))"
proof (induction n arbitrary: a b)
  case (Suc n)
  note IH = Suc.IH
  have pad: "take n (as @ replicate (Suc n) 0) = take n (as @ replicate n (0 :: byte))" for as
    by (simp add: take_append min_def take_Cons' flip: replicate_append_same)
  show ?case
  proof (cases a)
    case Nil
    show ?thesis
    proof (cases b)
      case (Cons y ys)
      have "take n ([] @ replicate n 0) \<le> take n (ys @ replicate n 0)" by (rule IH) simp
      then show ?thesis using Nil Cons pad [of ys] by (auto simp: word_coorder.not_eq_extremum)
    qed (simp add: Nil)
  next
    case (Cons x xs)
    then show ?thesis using Suc.prems IH [of xs "tl b"] pad [of xs] pad [of "tl b"]
      by (cases b) auto
  qed
qed simp

fun be_word :: "bytes \<Rightarrow> u64" where
  "be_word [] = 0"
| "be_word (b # bs) = push_bit (8 * length bs) (ucast b) OR be_word bs"

lemma unat_be_word: "length bs \<le> 8 \<Longrightarrow> unat (be_word bs) = be_value bs"
proof (induction bs)
  case (Cons b bs)
  have eq: "(256 :: nat) ^ n = 2 ^ (8 * n)" for n by (simp add: power_mult)
  have "unat b * 2 ^ (8 * length bs) < 2 ^ 8 * 2 ^ (8 * length bs)"
    using unat_byte_less [of b] by simp
  also have "\<dots> = 2 ^ (8 * length (b # bs))" by (simp add: power_add)
  also have "\<dots> \<le> 2 ^ 64" using Cons.prems by (intro power_increasing) simp_all
  finally have "unat b * 2 ^ (8 * length bs) < 2 ^ 64" .
  moreover have "unat (ucast b :: u64) = unat b" 
    using unat_byte_less [of b] by (simp add: unsigned_ucast_eq take_bit_nat_eq_self)
  ultimately show ?case
    using Cons unat_push_or [of "ucast b" "8 * length bs" "be_word bs"] be_value_bound [of bs]
    by (simp add: eq)
qed simp

lemma KeyNum_be_word: "KeyNum key = be_word (take 8 (key @ replicate 8 0))"
proof -
  define buf where "buf = take 8 (key @ replicate 8 (0 :: byte))"
  have "take (min (length key) 8) key @ replicate (8 - min (length key) 8) 0 = buf"
    by (auto simp: buf_def min_def)
  moreover have "length buf = 8" by (simp add: buf_def)
  then obtain b0 b1 b2 b3 b4 b5 b6 b7 where "buf = [b0, b1, b2, b3, b4, b5, b6, b7]"
    by (auto simp: numeral_eq_Suc length_Suc_conv)
  ultimately show ?thesis
    unfolding KeyNum_def Let_def buf_def [symmetric] by simp
qed

lemma KeyNum_mono: "a \<le> b \<Longrightarrow> KeyNum a \<le> KeyNum b"
  using be_value_mono [of "take 8 (a @ replicate 8 0)" "take 8 (b @ replicate 8 0)"]
    take_pad_mono [of a b 8]
  by (simp add: KeyNum_be_word word_le_nat_alt unat_be_word del: append_take_drop_id take_append)

section \<open>Properties\<close>

text \<open>C22: the number that \<open>KeyNum\<close> extracts from a key never contradicts the bytewise
  order: a key that is not above another has a number that is not above the other's, so
  comparing numbers first and keys on a tie orders keys as \<open>Compare\<close> does.\<close>

theorem KeyNum_agrees_with_Compare:
  "Slice_compare a b \<le> 0 \<Longrightarrow>
   KeyNum a \<le> KeyNum b \<and> (KeyNum a < KeyNum b \<longrightarrow> Slice_compare a b < 0)"
  by (auto simp: Slice_compare_lex split: if_splits intro: KeyNum_mono)

theorem KeyNum_agrees_with_Compare_witness:
  "KeyNum [1, 2] \<le> KeyNum [1, 3] \<and> Slice_compare [1, 2] [1, 3] \<le> 0"
  using KeyNum_agrees_with_Compare [of "[1, 2]" "[1, 3]"] by simp

text \<open>C23: for \<open>start < limit\<close> the bytewise separator lies in \<open>[start, limit)\<close> (so the
  assertion in the code cannot fail) and is no longer than \<open>start\<close>; the short successor of
  any key is not below it and no longer than it.\<close>

theorem bytewise_shortening_correct:
  "(Slice_compare start limit < 0 \<longrightarrow>
     Slice_compare start (bytewise_FindShortestSeparator start limit) \<le> 0 \<and>
     Slice_compare (bytewise_FindShortestSeparator start limit) limit < 0) \<and>
   length (bytewise_FindShortestSeparator start limit) \<le> length start \<and>
   Slice_compare key (bytewise_FindShortSuccessor key) \<le> 0 \<and>
   length (bytewise_FindShortSuccessor key) \<le> length key"
proof -
  have "length (bytewise_FindShortSuccessor key) \<le> length key" by (induction key) auto
  moreover have "length (bytewise_FindShortestSeparator start limit) \<le> length start"
    by (auto simp: bytewise_FindShortestSeparator_def Let_def min_def split: if_splits)
  ultimately show ?thesis
    using bytewise.separator_lower bytewise.separator_upper bytewise.successor_lower by blast
qed

theorem bytewise_shortening_correct_witness:
  "Slice_compare [1, 2, 7] (bytewise_FindShortestSeparator [1, 2, 7] [1, 9]) \<le> 0 \<and>
   Slice_compare (bytewise_FindShortestSeparator [1, 2, 7] [1, 9]) [1, 9] < 0 \<and>
   bytewise_FindShortestSeparator [1, 2, 7] [1, 9] = [1, 3]"
  using bytewise_shortening_correct [of "[1, 2, 7]" "[1, 9]" "[]"]
  by (simp add: bytewise_FindShortestSeparator_def)

end
