(* ===== verification/DbFormat.thy ===== *)
theory DbFormat
  imports Coding Comparator
begin

text \<open>
  Internal keys, \<^verbatim>\<open>db/dbformat.h\<close> and \<^verbatim>\<open>db/dbformat.cc\<close>.  An internal key is the user
  key followed by eight bytes that pack the sequence number and the value type.  The
  comparator takes the user comparator as an argument; the locale \<open>user_order\<close> lifts the
  contract of the user comparator to internal keys.
\<close>

unbundle bit_operations_syntax

section \<open>Constants\<close>

text \<open>\<open>static_cast<ValueType>\<close> of a byte read from a key may give any byte, so value types
  are bytes.\<close>

type_synonym ValueType = byte
type_synonym SequenceNumber = u64

definition kNumLevels :: nat where [constants]: "kNumLevels = 7"
definition kL0_CompactionTrigger :: nat where [constants]: "kL0_CompactionTrigger = 4"
definition kL0_SentinelCompactionTrigger :: nat where [constants]: "kL0_SentinelCompactionTrigger = 2"
definition kL0_GuardCompactionTrigger :: nat where [constants]: "kL0_GuardCompactionTrigger = 2"
definition kMaxFilesPerGuardSentinel :: nat where [constants]: "kMaxFilesPerGuardSentinel = 2"

definition kTypeDeletion :: ValueType where [constants]: "kTypeDeletion = 0"
definition kTypeValue :: ValueType where [constants]: "kTypeValue = 1"
definition kTypeGuard :: ValueType where [constants]: "kTypeGuard = 2"
definition kValueTypeForSeek :: ValueType where [constants]: "kValueTypeForSeek = kTypeValue"
definition kMaxSequenceNumber :: SequenceNumber where
  [constants]: "kMaxSequenceNumber = push_bit 56 1 - 1"

section \<open>Building and parsing internal keys\<close>

record ParsedInternalKey =
  user_key :: bytes
  sequence :: SequenceNumber
  vtype :: ValueType

definition InternalKeyEncodingLength :: "ParsedInternalKey \<Rightarrow> nat" where
  "InternalKeyEncodingLength key = length (user_key key) + 8"

text \<open>The two assertions of \<open>PackSequenceAndType\<close> are its precondition.\<close>

definition PackSequenceAndType_pre :: "SequenceNumber \<Rightarrow> ValueType \<Rightarrow> bool" where
  "PackSequenceAndType_pre seq t = (seq \<le> kMaxSequenceNumber \<and> t \<le> kValueTypeForSeek)"

definition PackSequenceAndType :: "SequenceNumber \<Rightarrow> ValueType \<Rightarrow> u64" where
  "PackSequenceAndType seq t = push_bit 8 seq OR ucast t"

definition AppendInternalKey :: "bytes \<Rightarrow> ParsedInternalKey \<Rightarrow> bytes" where
  "AppendInternalKey result key =
    PutFixed64 (result @ user_key key) (PackSequenceAndType (sequence key) (vtype key))"

definition InternalKey :: "bytes \<Rightarrow> SequenceNumber \<Rightarrow> ValueType \<Rightarrow> bytes" where
  "InternalKey ukey s t = AppendInternalKey [] \<lparr>user_key = ukey, sequence = s, vtype = t\<rparr>"

definition ExtractUserKey :: "bytes \<Rightarrow> bytes" where
  "ExtractUserKey internal_key = take (length internal_key - 8) internal_key"

text \<open>The packed number at the end of an internal key, \<open>DecodeFixed64(data + n - 8)\<close>.\<close>

definition key_num :: "bytes \<Rightarrow> u64" where
  "key_num internal_key = DecodeFixed64 (drop (length internal_key - 8) internal_key)"

definition ExtractValueType :: "bytes \<Rightarrow> ValueType" where
  "ExtractValueType internal_key = ucast (key_num internal_key AND 0xff)"

definition ParseInternalKey :: "bytes \<Rightarrow> ParsedInternalKey option" where
  "ParseInternalKey internal_key =
    (let n = length internal_key
     in if n < 8 then None
        else let num = key_num internal_key;
                 c = ucast (num AND 0xff);
                 result = \<lparr>user_key = take (n - 8) internal_key,
                           sequence = drop_bit 8 num, vtype = c\<rparr>
             in if c \<le> kTypeValue then Some result else None)"

section \<open>The internal key comparator\<close>

definition InternalKey_Compare :: "(bytes \<Rightarrow> bytes \<Rightarrow> int) \<Rightarrow> bytes \<Rightarrow> bytes \<Rightarrow> int" where
  "InternalKey_Compare ucmp akey bkey =
    (let r = ucmp (ExtractUserKey akey) (ExtractUserKey bkey)
     in if r = 0
        then let anum = key_num akey; bnum = key_num bkey
             in if anum > bnum then -1 else if anum < bnum then 1 else r
        else r)"

definition InternalKey_FindShortestSeparator ::
    "(bytes \<Rightarrow> bytes \<Rightarrow> int) \<Rightarrow> (bytes \<Rightarrow> bytes \<Rightarrow> bytes) \<Rightarrow> bytes \<Rightarrow> bytes \<Rightarrow> bytes" where
  "InternalKey_FindShortestSeparator ucmp usep start limit =
    (let user_start = ExtractUserKey start;
         user_limit = ExtractUserKey limit;
         tmp = usep user_start user_limit
     in if length tmp < length user_start \<and> ucmp user_start tmp < 0
        then PutFixed64 tmp (PackSequenceAndType kMaxSequenceNumber kValueTypeForSeek)
        else start)"

definition InternalKey_FindShortSuccessor ::
    "(bytes \<Rightarrow> bytes \<Rightarrow> int) \<Rightarrow> (bytes \<Rightarrow> bytes) \<Rightarrow> bytes \<Rightarrow> bytes" where
  "InternalKey_FindShortSuccessor ucmp usucc key =
    (let ukey = ExtractUserKey key;
         tmp = usucc ukey
     in if length tmp < length ukey \<and> ucmp ukey tmp < 0
        then PutFixed64 tmp (PackSequenceAndType kMaxSequenceNumber kValueTypeForSeek)
        else key)"

section \<open>The filter policy wrapper\<close>

definition InternalFilter_CreateFilter :: "(bytes list \<Rightarrow> bytes \<Rightarrow> bytes) \<Rightarrow> bytes list \<Rightarrow> bytes \<Rightarrow> bytes" where
  "InternalFilter_CreateFilter create keys dst = create (map ExtractUserKey keys) dst"

definition InternalFilter_KeyMayMatch :: "(bytes \<Rightarrow> bytes \<Rightarrow> bool) \<Rightarrow> bytes \<Rightarrow> bytes \<Rightarrow> bool" where
  "InternalFilter_KeyMayMatch may_match key f = may_match (ExtractUserKey key) f"

section \<open>Lookup keys\<close>

text \<open>The buffer of a \<open>LookupKey\<close> (\<open>start_\<close> to \<open>end_\<close>) and its three views; the offset of
  \<open>kstart_\<close> is the length of the varint.  Where the bytes live (\<open>space_\<close> or the heap) has no
  effect on them.\<close>

record LookupKey =
  lk_buf :: bytes
  lk_kstart :: nat

definition mk_LookupKey :: "bytes \<Rightarrow> SequenceNumber \<Rightarrow> LookupKey" where
  "mk_LookupKey ukey s =
    (let usize = length ukey; klen = EncodeVarint32 (of_nat (usize + 8))
     in \<lparr>lk_buf = klen @ ukey @ EncodeFixed64 (PackSequenceAndType s kValueTypeForSeek),
         lk_kstart = length klen\<rparr>)"

definition memtable_key :: "LookupKey \<Rightarrow> bytes" where
  "memtable_key k = lk_buf k"

definition internal_key :: "LookupKey \<Rightarrow> bytes" where
  "internal_key k = drop (lk_kstart k) (lk_buf k)"

definition lookup_user_key :: "LookupKey \<Rightarrow> bytes" where
  "lookup_user_key k =
    take (length (lk_buf k) - lk_kstart k - 8) (drop (lk_kstart k) (lk_buf k))"

section \<open>Reading back what was packed\<close>

lemma drop_bit_Pack: "seq \<le> kMaxSequenceNumber \<Longrightarrow> drop_bit 8 (PackSequenceAndType seq t) = seq"
proof -
  assume "seq \<le> kMaxSequenceNumber"
  then have "seq < 2 ^ 56" by (simp add: kMaxSequenceNumber_def word_le_nat_alt word_less_nat_alt)
  then have high: "\<not> bit seq n" if "56 \<le> n" for n
    using less_exp_drop_bit [of 56 seq] that by (simp add: drop_bit_zero_iff)
  show ?thesis
  proof (rule bit_word_eqI)
    fix n assume "n < LENGTH(64)"
    then show "bit (drop_bit 8 (PackSequenceAndType seq t)) n = bit seq n"
      using high [of n] by (cases "n < 56") (auto simp: PackSequenceAndType_def bit_simps dest: bit_imp_le_length)
  qed
qed

lemma low_byte_Pack: "ucast (PackSequenceAndType seq t AND 255) = t"
  by (rule bit_word_eqI) (auto simp: PackSequenceAndType_def bit_simps)

lemma PutFixed64_views [simp]:
  "ExtractUserKey (PutFixed64 u n) = u" "key_num (PutFixed64 u n) = n"
  by (simp_all add: ExtractUserKey_def key_num_def PutFixed64_def)

lemma InternalKey_PutFixed64: "InternalKey u s t = PutFixed64 u (PackSequenceAndType s t)"
  by (simp add: InternalKey_def AppendInternalKey_def)

lemma InternalKey_views [simp]:
  "ExtractUserKey (InternalKey u s t) = u" "key_num (InternalKey u s t) = PackSequenceAndType s t"
  "ExtractValueType (InternalKey u s t) = t" "length (InternalKey u s t) = length u + 8"
  by (simp_all add: InternalKey_PutFixed64 ExtractValueType_def low_byte_Pack)
    (simp add: PutFixed64_def)

lemma Parse_InternalKey [codec]:
  assumes "PackSequenceAndType_pre s t"
  shows "ParseInternalKey (InternalKey u s t) = Some \<lparr>user_key = u, sequence = s, vtype = t\<rparr>"
proof -
  have "take (length u) (InternalKey u s t) = u"
    using InternalKey_views(1) [of u s t] by (simp add: ExtractUserKey_def)
  then show ?thesis
    using assms by (simp add: ParseInternalKey_def Let_def drop_bit_Pack low_byte_Pack
        PackSequenceAndType_pre_def kValueTypeForSeek_def)
qed

text \<open>The packed numbers order by sequence number, then by type.\<close>

lemma unat_Pack:
  assumes "seq \<le> kMaxSequenceNumber"
  shows "unat (PackSequenceAndType seq t) = unat seq * 256 + unat t"
proof -
  have "unat seq * 2 ^ 8 < 2 ^ 64"
    using assms by (simp add: kMaxSequenceNumber_def word_le_nat_alt)
  moreover have "unat (ucast t :: u64) = unat t"
    using unat_byte_less [of t] by (simp add: unsigned_ucast_eq take_bit_nat_eq_self)
  ultimately show ?thesis
    using unat_push_or [of seq 8 "ucast t"] unat_byte_less [of t] by (simp add: PackSequenceAndType_def)
qed

lemma Pack_less_iff:
  assumes "s \<le> kMaxSequenceNumber" and "s' \<le> kMaxSequenceNumber"
  shows "PackSequenceAndType s t < PackSequenceAndType s' t' \<longleftrightarrow> s < s' \<or> (s = s' \<and> t < t')"
proof -
  have "unat s * 256 + unat t < unat s' * 256 + unat t' \<longleftrightarrow>
      unat s < unat s' \<or> (unat s = unat s' \<and> unat t < unat t')"
    using unat_byte_less [of t] unat_byte_less [of t'] by linarith
  then show ?thesis using assms by (simp add: word_less_nat_alt unat_Pack word_unat_eq_iff)
qed

lemma Pack_max: "s \<le> kMaxSequenceNumber \<Longrightarrow> t \<le> kValueTypeForSeek \<Longrightarrow>
    PackSequenceAndType s t \<le> PackSequenceAndType kMaxSequenceNumber kValueTypeForSeek"
  by (auto simp: not_less [symmetric] Pack_less_iff)

section \<open>The order of internal keys\<close>

text \<open>A user comparator that in addition does not move equal keys apart.\<close>

locale user_order = key_shortener +
  assumes separator_equal: "Compare s l = 0 \<Longrightarrow> Compare (FindShortestSeparator s l) l \<le> 0"
begin

lemma internal_flip:
  "sgn (InternalKey_Compare Compare a b) = - sgn (InternalKey_Compare Compare b a)"
  using Compare_flip [of "ExtractUserKey a" "ExtractUserKey b"]
  by (auto simp: InternalKey_Compare_def Let_def sgn_if split: if_splits)

lemma internal_le_iff:
  "InternalKey_Compare Compare a b \<le> 0 \<longleftrightarrow>
    Compare (ExtractUserKey a) (ExtractUserKey b) < 0 \<or>
    (Compare (ExtractUserKey a) (ExtractUserKey b) = 0 \<and> key_num b \<le> key_num a)"
  by (auto simp: InternalKey_Compare_def Let_def)

lemma internal_trans:
  assumes "InternalKey_Compare Compare a b \<le> 0" and "InternalKey_Compare Compare b c \<le> 0"
  shows "InternalKey_Compare Compare a c \<le> 0"
proof -
  let ?a = "ExtractUserKey a" and ?b = "ExtractUserKey b" and ?c = "ExtractUserKey c"
  from assms consider "Compare ?a ?b < 0" "Compare ?b ?c \<le> 0"
    | "Compare ?a ?b \<le> 0" "Compare ?b ?c < 0"
    | "Compare ?a ?b = 0" "Compare ?b ?c = 0" "key_num b \<le> key_num a" "key_num c \<le> key_num b"
    by (auto simp: internal_le_iff)
  then show ?thesis
  proof cases
    case 1
    then show ?thesis using Compare_less_le_trans by (simp add: internal_le_iff)
  next
    case 2
    then show ?thesis using Compare_le_less_trans by (simp add: internal_le_iff)
  next
    case 3
    then show ?thesis using Compare_zero_trans [of ?a ?b ?c] by (auto simp: internal_le_iff)
  qed
qed

lemma internal_separator:
  assumes "InternalKey_Compare Compare s l < 0"
  defines "sep \<equiv> InternalKey_FindShortestSeparator Compare FindShortestSeparator s l"
  shows "InternalKey_Compare Compare s sep \<le> 0 \<and> InternalKey_Compare Compare sep l < 0"
proof -
  let ?us = "ExtractUserKey s" and ?ul = "ExtractUserKey l"
  let ?tmp = "FindShortestSeparator ?us ?ul"
  have le: "Compare ?us ?ul \<le> 0" using assms(1) internal_le_iff [of s l] by force
  show ?thesis
  proof (cases "length ?tmp < length ?us \<and> Compare ?us ?tmp < 0")
    case True
    have "Compare ?us ?ul < 0"
    proof (rule ccontr)
      assume "\<not> Compare ?us ?ul < 0"
      with le have "Compare ?us ?ul = 0" by simp
      then have "Compare ?tmp ?ul \<le> 0" "Compare ?ul ?us = 0"
        using separator_equal Compare_zero_sym by blast+
      then show False using True Compare_trans Compare_less_iff by (metis order.refl)
    qed
    then have "Compare ?tmp ?ul < 0" by (rule separator_upper)
    then show ?thesis using True by (simp add: sep_def InternalKey_FindShortestSeparator_def
          InternalKey_Compare_def Let_def)
  next
    case False
    then have "sep = s" by (auto simp: sep_def InternalKey_FindShortestSeparator_def Let_def)
    then show ?thesis using assms(1) Compare_refl by (simp add: internal_le_iff)
  qed
qed

lemma internal_successor:
  "InternalKey_Compare Compare k (InternalKey_FindShortSuccessor Compare FindShortSuccessor k) \<le> 0"
  using Compare_refl
  by (auto simp: InternalKey_FindShortSuccessor_def InternalKey_Compare_def Let_def)

end

sublocale user_order \<subseteq> internal: key_shortener "InternalKey_Compare Compare"
  "InternalKey_FindShortestSeparator Compare FindShortestSeparator"
  "InternalKey_FindShortSuccessor Compare FindShortSuccessor"
  using internal_flip internal_trans internal_separator internal_successor
  by (intro key_shortener.intro key_comparator.intro key_shortener_axioms.intro) blast+

interpretation ikey: user_order Slice_compare
  bytewise_FindShortestSeparator bytewise_FindShortSuccessor
proof unfold_locales
  fix s l assume "Slice_compare s l = 0"
  then have "s = l" by (simp add: Slice_compare_lex split: if_splits)
  moreover have "diff_index l l = length l" by (induction l) auto
  ultimately show "Slice_compare (bytewise_FindShortestSeparator s l) l \<le> 0"
    by (simp add: bytewise_FindShortestSeparator_def Slice_compare_lex)
qed

section \<open>Lookup keys as search bounds\<close>

lemma LookupKey_views:
  "internal_key (mk_LookupKey u s) = InternalKey u s kValueTypeForSeek"
  "lookup_user_key (mk_LookupKey u s) = u"
  "memtable_key (mk_LookupKey u s) =
    PutLengthPrefixedSlice [] (InternalKey u s kValueTypeForSeek)"
  by (simp_all add: internal_key_def lookup_user_key_def memtable_key_def mk_LookupKey_def Let_def
      InternalKey_PutFixed64 PutFixed64_def PutLengthPrefixedSlice_def PutVarint32_def)

lemma InternalKey_Compare_eq:
  assumes "s \<le> kMaxSequenceNumber" and "s' \<le> kMaxSequenceNumber"
  shows "InternalKey_Compare Slice_compare (InternalKey u s t) (InternalKey u' s' t') < 0 \<longleftrightarrow>
    u < u' \<or> (u = u' \<and> (s' < s \<or> (s' = s \<and> t' < t)))"
  using Pack_less_iff [OF assms, of t t'] Pack_less_iff [OF assms(2,1), of t' t]
  by (auto simp: InternalKey_Compare_def Let_def Slice_compare_lex)

section \<open>Properties\<close>

text \<open>C16: internal keys are ordered by increasing user key, then decreasing sequence number,
  then decreasing type.\<close>

theorem internal_key_order:
  "PackSequenceAndType_pre s t \<Longrightarrow> PackSequenceAndType_pre s' t' \<Longrightarrow>
   InternalKey_Compare Slice_compare (InternalKey u s t) (InternalKey u' s' t') < 0 \<longleftrightarrow>
     u < u' \<or> (u = u' \<and> (s' < s \<or> (s' = s \<and> t' < t)))"
  by (rule InternalKey_Compare_eq) (auto simp: PackSequenceAndType_pre_def)

theorem internal_key_order_witness:
  "InternalKey_Compare Slice_compare (InternalKey [5] 9 kTypeValue) (InternalKey [5] 3 kTypeDeletion) < 0"
  using internal_key_order [of 9 kTypeValue 3 kTypeDeletion "[5]" "[5]"]
  by (simp add: PackSequenceAndType_pre_def constants)

text \<open>C17: for internal keys over the bytewise comparator, the separator of \<open>start < limit\<close>
  lies in \<open>[start, limit)\<close> and the short successor of a key is not below it: the index
  entries of a table route lookups to the right block, and the assertions in
  \<open>FindShortestSeparator\<close> and \<open>FindShortSuccessor\<close> hold.\<close>

theorem internal_key_shortening:
  "(InternalKey_Compare Slice_compare start limit < 0 \<longrightarrow>
     InternalKey_Compare Slice_compare start
       (InternalKey_FindShortestSeparator Slice_compare bytewise_FindShortestSeparator start limit) \<le> 0 \<and>
     InternalKey_Compare Slice_compare
       (InternalKey_FindShortestSeparator Slice_compare bytewise_FindShortestSeparator start limit) limit < 0) \<and>
   InternalKey_Compare Slice_compare key
     (InternalKey_FindShortSuccessor Slice_compare bytewise_FindShortSuccessor key) \<le> 0"
  using ikey.internal_separator ikey.internal_successor by blast

theorem internal_key_shortening_witness:
  "InternalKey_Compare Slice_compare
     (InternalKey_FindShortestSeparator Slice_compare bytewise_FindShortestSeparator
        (InternalKey [1, 2, 3] 7 kTypeValue) (InternalKey [1, 9] 7 kTypeValue))
     (InternalKey [1, 9] 7 kTypeValue) < 0"
proof -
  have "InternalKey_Compare Slice_compare (InternalKey [1, 2, 3] 7 kTypeValue)
      (InternalKey [1, 9] 7 kTypeValue) < 0"
    by (simp add: InternalKey_Compare_eq constants)
  then show ?thesis
    using internal_key_shortening [of "InternalKey [1, 2, 3] 7 kTypeValue"
        "InternalKey [1, 9] 7 kTypeValue"] by blast
qed

text \<open>C19: parsing an internal key built from a sequence number and a type that
  \<open>PackSequenceAndType\<close> accepts gives back its three parts.\<close>

theorem internal_key_roundtrip:
  "PackSequenceAndType_pre s t \<Longrightarrow>
   ParseInternalKey (InternalKey u s t) = Some \<lparr>user_key = u, sequence = s, vtype = t\<rparr> \<and>
   ExtractUserKey (InternalKey u s t) = u \<and> ExtractValueType (InternalKey u s t) = t"
  by (simp add: Parse_InternalKey)

theorem internal_key_roundtrip_witness:
  "ParseInternalKey (InternalKey [1, 2] 77 kTypeDeletion) =
     Some \<lparr>user_key = [1, 2], sequence = 77, vtype = 0\<rparr>"
  using internal_key_roundtrip [of 77 kTypeDeletion "[1, 2]"]
  by (simp add: PackSequenceAndType_pre_def constants)

text \<open>C18: the internal key of a \<open>LookupKey\<close> at sequence number \<open>s\<close> sorts at or before
  exactly those entries of its user key that are visible at \<open>s\<close>, and its memtable key is the
  length-prefixed internal key.\<close>

theorem lookup_key_visibility:
  "s \<le> kMaxSequenceNumber \<Longrightarrow> PackSequenceAndType_pre s' t \<Longrightarrow>
   (InternalKey_Compare Slice_compare (internal_key (mk_LookupKey u s)) (InternalKey u s' t) \<le> 0
      \<longleftrightarrow> s' \<le> s) \<and>
   memtable_key (mk_LookupKey u s) = PutLengthPrefixedSlice [] (internal_key (mk_LookupKey u s))"
  using Pack_less_iff [of s s' kValueTypeForSeek t]
  by (auto simp: LookupKey_views InternalKey_Compare_def Let_def Slice_compare_lex
      PackSequenceAndType_pre_def)

theorem lookup_key_visibility_witness:
  "InternalKey_Compare Slice_compare (internal_key (mk_LookupKey [1] 5)) (InternalKey [1] 4 kTypeValue) \<le> 0"
  using lookup_key_visibility [of 5 4 kTypeValue "[1]"]
  by (simp add: PackSequenceAndType_pre_def constants)

end
