(* ===== verification/Crc32c.thy ===== *)
theory Crc32c
  imports Crc32cTables Coding
begin

text \<open>
  The CRC-32C checksum of \<^verbatim>\<open>util/crc32c.cc\<close> and the masking of \<^verbatim>\<open>util/crc32c.h\<close>.
  \<open>choose_crc32c\<close> always returns \<open>crc32_software\<close> (the SSE 4.2 branch is commented
  out), so \<open>Extend\<close> is the slicing-by-8 routine over the eight tables.  The routine depends
  on the address of the data, through the number of bytes it handles before aligning; the
  address is an argument of the model, and the lemmas show that the result does not depend on
  it and is the bit-serial CRC with the reflected Castagnoli polynomial.
\<close>

unbundle bit_operations_syntax

section \<open>The routine\<close>

definition CRC_FFs :: u32 where "CRC_FFs = 0xFFFFFFFF"

text \<open>One byte through the first table: the body of the first and of the last loop.\<close>

definition crc_byte_step :: "u32 \<Rightarrow> byte \<Rightarrow> u32" where
  "crc_byte_step crc b =
    crc_tableil8_o32 ! unat ((crc XOR ucast b) AND 0xFF) XOR drop_bit 8 crc"

text \<open>Eight bytes through the eight tables: the body of the middle loop.\<close>

definition crc_quad_step :: "u32 \<Rightarrow> bytes \<Rightarrow> u32" where
  "crc_quad_step crc p_buf =
    (let crc = crc XOR DecodeFixed32 p_buf;
         p_buf = drop 4 p_buf;
         term1 = crc_tableil8_o88 ! unat (crc AND 0xFF) XOR
                 crc_tableil8_o80 ! unat (drop_bit 8 crc AND 0xFF);
         term2 = drop_bit 16 crc;
         crc = term1 XOR
               crc_tableil8_o72 ! unat (term2 AND 0xFF) XOR
               crc_tableil8_o64 ! unat (drop_bit 8 term2 AND 0xFF);
         term1 = crc_tableil8_o56 ! unat (DecodeFixed32 p_buf AND 0xFF) XOR
                 crc_tableil8_o48 ! unat (drop_bit 8 (DecodeFixed32 p_buf) AND 0xFF);
         term2 = drop_bit 16 (DecodeFixed32 p_buf)
     in crc XOR term1 XOR
        crc_tableil8_o40 ! unat (term2 AND 0xFF) XOR
        crc_tableil8_o32 ! unat (drop_bit 8 term2 AND 0xFF))"

primrec crc_quad_loop :: "nat \<Rightarrow> u32 \<Rightarrow> bytes \<Rightarrow> u32" where
  "crc_quad_loop 0 crc p_buf = crc"
| "crc_quad_loop (Suc n) crc p_buf = crc_quad_loop n (crc_quad_step crc p_buf) (drop 8 p_buf)"

definition crc32c_sb8_64_bit :: "u32 \<Rightarrow> bytes \<Rightarrow> u32 \<Rightarrow> u32 \<Rightarrow> u32" where
  "crc32c_sb8_64_bit p_running_crc p_buf len init_bytes =
    (let running_length = ((len - init_bytes) div 8) * 8;
         end_bytes = len - init_bytes - running_length;
         crc = foldl crc_byte_step p_running_crc (take (unat init_bytes) p_buf);
         p_buf = drop (unat init_bytes) p_buf;
         crc = crc_quad_loop (unat (running_length div 8)) crc p_buf;
         p_buf = drop (8 * unat (running_length div 8)) p_buf
     in foldl crc_byte_step crc (take (unat end_bytes) p_buf))"

definition crc32_software :: "u64 \<Rightarrow> u32 \<Rightarrow> bytes \<Rightarrow> u32" where
  "crc32_software x init_crc data =
    (let n = of_nat (length data) :: u64;
         init_crc = init_crc XOR CRC_FFs;
         init = ucast (((x + 3) AND NOT 3) - x) :: u32;
         init = (if ucast init > n then ucast n else init)
     in crc32c_sb8_64_bit init_crc data (ucast n) init XOR CRC_FFs)"

definition Extend :: "u64 \<Rightarrow> u32 \<Rightarrow> bytes \<Rightarrow> u32" where
  "Extend x init_crc data = crc32_software x init_crc data"

definition crc_Value :: "u64 \<Rightarrow> bytes \<Rightarrow> u32" where
  "crc_Value x data = Extend x 0 data"

definition kMaskDelta :: u32 where "kMaskDelta = 0xa282ead8"

definition Mask :: "u32 \<Rightarrow> u32" where
  "Mask crc = (drop_bit 15 crc OR push_bit 17 crc) + kMaskDelta"

definition Unmask :: "u32 \<Rightarrow> u32" where
  "Unmask masked_crc =
    (let rot = masked_crc - kMaskDelta in drop_bit 17 rot OR push_bit 15 rot)"

section \<open>The bit-serial reference\<close>

text \<open>One bit, and one byte, of a CRC with the polynomial 0x1EDC6F41, bit-reflected.\<close>

definition crc_bit :: "u32 \<Rightarrow> u32" where
  "crc_bit c = (if bit c 0 then drop_bit 1 c XOR 0x82F63B78 else drop_bit 1 c)"

definition crc_byte :: "u32 \<Rightarrow> u32" where
  "crc_byte c =
    crc_bit (crc_bit (crc_bit (crc_bit (crc_bit (crc_bit (crc_bit (crc_bit c)))))))"

definition crc32c_reference :: "u32 \<Rightarrow> bytes \<Rightarrow> u32" where
  "crc32c_reference init_crc data =
    foldl (\<lambda>c b. crc_byte (c XOR ucast b)) (init_crc XOR CRC_FFs) data XOR CRC_FFs"

definition linear :: "(u32 \<Rightarrow> u32) \<Rightarrow> bool" where
  "linear f \<longleftrightarrow> (\<forall>a b. f (a XOR b) = f a XOR f b)"

lemma linearD: "linear f \<Longrightarrow> f (a XOR b) = f a XOR f b"
  by (simp add: linear_def)

lemma linear_zero: "linear f \<Longrightarrow> f 0 = 0"
  using linearD [of f 0 0] by simp

lemma linear_crc_bit: "linear crc_bit"
  by (auto simp: linear_def crc_bit_def bit_simps intro!: bit_word_eqI)

lemma linear_crc_byte: "linear crc_byte"
  using linearD [OF linear_crc_bit] by (simp add: linear_def crc_byte_def)

lemma linear_funpow: "linear f \<Longrightarrow> linear (f ^^ n)"
  by (induction n) (simp_all add: linear_def)

lemma crc_bit_even: "\<not> bit c 0 \<Longrightarrow> crc_bit c = drop_bit 1 c"
  by (simp add: crc_bit_def)


text \<open>Bytes below the top pass through unchanged: eight steps on a word whose low byte is
  zero shift it down by eight.\<close>

lemma crc_byte_low_zero:
  assumes "\<And>n. n < 8 \<Longrightarrow> \<not> bit c n"
  shows "crc_byte c = drop_bit 8 c"
proof -
  have "crc_byte c = drop_bit (1 + 1 + 1 + 1 + 1 + 1 + 1 + 1) c"
    unfolding crc_byte_def using assms by (simp add: crc_bit_def bit_drop_bit_eq)
  also have "(1 + 1 + 1 + 1 + 1 + 1 + 1 + 1 :: nat) = 8" by simp
  finally show ?thesis .
qed

lemma crc_byte_push: "crc_byte (push_bit 8 (drop_bit 8 c)) = drop_bit 8 c"
proof -
  have "crc_byte (push_bit 8 (drop_bit 8 c)) = drop_bit 8 (push_bit 8 (drop_bit 8 c))"
    by (rule crc_byte_low_zero) (simp add: bit_simps)
  also have "\<dots> = drop_bit 8 c"
    by (rule bit_word_eqI) (auto simp: bit_simps dest: bit_imp_le_length)
  finally show ?thesis .
qed

lemma crc_byte_split: "crc_byte c = crc_byte (c AND 0xFF) XOR drop_bit 8 c"
proof -
  have c: "(c AND 0xFF) XOR push_bit 8 (drop_bit 8 c) = c"
    by (rule bit_word_eqI) (auto simp: bit_simps)
  show ?thesis
    using linearD [OF linear_crc_byte, of "c AND 0xFF" "push_bit 8 (drop_bit 8 c)"]
    by (simp only: c crc_byte_push)
qed

section \<open>The tables\<close>

text \<open>The XOR closure of a list, doubling it for each further generator, and its value on the
  powers of two: a linear function is tabulated by the span of its values there.\<close>

fun xor_span :: "u32 list \<Rightarrow> u32 list \<Rightarrow> u32 list" where
  "xor_span acc [] = acc"
| "xor_span acc (b # bs) = xor_span (acc @ map (\<lambda>x. x XOR b) acc) bs"

lemma of_nat_add_exp:
  assumes "i < 2 ^ k"
  shows "of_nat (i + 2 ^ k) = (of_nat i XOR 2 ^ k :: u32)"
proof -
  have "of_nat i AND (2 ^ k :: u32) = 0"
  proof (rule bit_word_eqI)
    fix n
    have "\<not> bit i k" using assms by (simp add: bit_iff_odd div_eq_0_iff)
    then show "bit (of_nat i AND (2 ^ k :: u32)) n = bit (0 :: u32) n"
      by (auto simp: bit_simps)
  qed
  then have "of_nat i + (2 ^ k :: u32) = of_nat i XOR 2 ^ k" by (rule disjunctive_add_eq_xor)
  then show ?thesis by simp
qed

lemma span_tabulates:
  assumes "linear f"
  shows "xor_span (map (\<lambda>i. f (of_nat i)) [0..<2 ^ k]) (map (\<lambda>j. f (2 ^ j)) [k..<k + n]) =
         map (\<lambda>i. f (of_nat i)) [0..<2 ^ (k + n)]"
proof (induction n arbitrary: k)
  case (Suc n)
  have "map (\<lambda>x. x XOR f (2 ^ k)) (map (\<lambda>i. f (of_nat i)) [0..<2 ^ k]) =
      map (\<lambda>i. f (of_nat i)) (map (\<lambda>i. i + 2 ^ k) [0..<2 ^ k])"
    using linearD [OF assms] by (auto simp: of_nat_add_exp simp del: of_nat_add)
  also have "map (\<lambda>i. i + 2 ^ k) [0..<2 ^ k] = [2 ^ k..<2 ^ Suc k]"
    by (simp add: map_add_upt mult_2)
  finally have "map (\<lambda>i. f (of_nat i)) [0..<2 ^ k] @
      map (\<lambda>x. x XOR f (2 ^ k)) (map (\<lambda>i. f (of_nat i)) [0..<2 ^ k]) =
      map (\<lambda>i. f (of_nat i)) [0..<2 ^ Suc k]"
    by (simp only: map_append [symmetric])
      (metis le_add2 mult_2 power_Suc upt_add_eq_append zero_le add_0)
  moreover have "[k..<k + Suc n] = k # [Suc k..<Suc k + n]" by (simp add: upt_rec)
  ultimately show ?case using Suc.IH [of "Suc k"] by simp
qed simp

definition byte_table :: "nat \<Rightarrow> u32 list" where
  "byte_table m = map (\<lambda>i. (crc_byte ^^ m) (of_nat i)) [0..<256]"

definition basis :: "nat \<Rightarrow> u32 list" where
  "basis m = map (\<lambda>j. (crc_byte ^^ m) (2 ^ j)) [0..<8]"

lemma byte_table_span: "byte_table m = xor_span [0] (basis m)"
  using span_tabulates [OF linear_funpow [OF linear_crc_byte], of m 0 8]
    linear_zero [OF linear_funpow [OF linear_crc_byte], of m]
  by (simp add: byte_table_def basis_def)

lemma basis_0: "basis 0 = [1, 2, 4, 8, 16, 32, 64, 128]"
  by (simp add: basis_def upt_rec)

lemma basis_Suc: "basis (Suc m) = map crc_byte (basis m)"
  by (simp add: basis_def)

lemma basis_1: "basis 1 = [0xF26B8303, 0xE13B70F7, 0xC79A971F, 0x8AD958CF,
    0x105EC76F, 0x20BD8EDE, 0x417B1DBC, 0x82F63B78]"
  using basis_Suc [of 0] basis_0 by (simp add: crc_byte_def crc_bit_def)

lemma basis_2: "basis 2 = [0x13A29877, 0x274530EE, 0x4E8A61DC, 0x9D14C3B8,
    0x3FC5F181, 0x7F8BE302, 0xFF17C604, 0xFBC3FAF9]"
  using basis_Suc [of 1, unfolded Suc_1 basis_1] by (simp add: crc_byte_def crc_bit_def)

lemma basis_3: "basis 3 = [0xA541927E, 0x4F6F520D, 0x9EDEA41A, 0x38513EC5,
    0x70A27D8A, 0xE144FB14, 0xC76580D9, 0x8B277743]"
  using basis_Suc [of 2] basis_2 by (simp add: crc_byte_def crc_bit_def)

lemma basis_4: "basis 4 = [0xDD45AAB8, 0xBF672381, 0x7B2231F3, 0xF64463E6,
    0xE964B13D, 0xD725148B, 0xABA65FE7, 0x52A0C93F]"
  using basis_Suc [of 3] basis_3 by (simp add: crc_byte_def crc_bit_def)

lemma basis_5: "basis 5 = [0x38116FAC, 0x7022DF58, 0xE045BEB0, 0xC5670B91,
    0x8F2261D3, 0x1BA8B557, 0x37516AAE, 0x6EA2D55C]"
  using basis_Suc [of 4] basis_4 by (simp add: crc_byte_def crc_bit_def)

lemma basis_6: "basis 6 = [0xEF306B19, 0xDB8CA0C3, 0xB2F53777, 0x6006181F,
    0xC00C303E, 0x85F4168D, 0x0E045BEB, 0x1C08B7D6]"
  using basis_Suc [of 5] basis_5 by (simp add: crc_byte_def crc_bit_def)

lemma basis_7: "basis 7 = [0x68032CC8, 0xD0065990, 0xA5E0C5D1, 0x4E2DFD53,
    0x9C5BFAA6, 0x3D5B83BD, 0x7AB7077A, 0xF56E0EF4]"
  using basis_Suc [of 6] basis_6 by (simp add: crc_byte_def crc_bit_def)

lemma basis_8: "basis 8 = [0x493C7D27, 0x9278FA4E, 0x211D826D, 0x423B04DA,
    0x847609B4, 0x0D006599, 0x1A00CB32, 0x34019664]"
  using basis_Suc [of 7] basis_7 by (simp add: crc_byte_def crc_bit_def)

lemma crc_tableil8_o32_table: "crc_tableil8_o32 = byte_table 1"
  unfolding crc_tableil8_o32_def byte_table_span basis_1 by simp

lemma crc_tableil8_o40_table: "crc_tableil8_o40 = byte_table 2"
  unfolding crc_tableil8_o40_def byte_table_span basis_2 by simp

lemma crc_tableil8_o48_table: "crc_tableil8_o48 = byte_table 3"
  unfolding crc_tableil8_o48_def byte_table_span basis_3 by simp

lemma crc_tableil8_o56_table: "crc_tableil8_o56 = byte_table 4"
  unfolding crc_tableil8_o56_def byte_table_span basis_4 by simp

lemma crc_tableil8_o64_table: "crc_tableil8_o64 = byte_table 5"
  unfolding crc_tableil8_o64_def byte_table_span basis_5 by simp

lemma crc_tableil8_o72_table: "crc_tableil8_o72 = byte_table 6"
  unfolding crc_tableil8_o72_def byte_table_span basis_6 by simp

lemma crc_tableil8_o80_table: "crc_tableil8_o80 = byte_table 7"
  unfolding crc_tableil8_o80_def byte_table_span basis_7 by simp

lemma crc_tableil8_o88_table: "crc_tableil8_o88 = byte_table 8"
  unfolding crc_tableil8_o88_def byte_table_span basis_8 by simp

lemma byte_table_nth: "byte_table m ! unat (w AND 0xFF) = (crc_byte ^^ m) (w AND 0xFF)"
proof -
  have "w AND 0xFF = w AND mask 8" by (simp add: mask_eq_exp_minus_1)
  then have "unat (w AND 0xFF) < 256" by (simp add: unat_and_mask)
  then show ?thesis by (simp add: byte_table_def)
qed

lemmas table_reads =
  crc_tableil8_o32_table crc_tableil8_o40_table crc_tableil8_o48_table crc_tableil8_o56_table
  crc_tableil8_o64_table crc_tableil8_o72_table crc_tableil8_o80_table crc_tableil8_o88_table
  byte_table_nth

section \<open>The routine computes the reference\<close>

lemma crc_byte_step_eq: "crc_byte_step c b = crc_byte (c XOR ucast b)"
proof -
  have "drop_bit 8 (c XOR ucast b) = drop_bit 8 c"
    by (rule bit_word_eqI) (auto simp: bit_simps dest: bit_imp_le_length)
  then show ?thesis
    using crc_byte_split [of "c XOR ucast b"] by (simp add: crc_byte_step_def table_reads)
qed

text \<open>A byte lane moves down one lane per \<open>crc_byte\<close>.\<close>

lemma crc_byte_lane:
  assumes "j < 3"
  shows "crc_byte (push_bit (8 * Suc j) (w AND 0xFF)) = push_bit (8 * j) (w AND 0xFF)"
proof -
  have "crc_byte (push_bit (8 * Suc j) (w AND 0xFF)) = drop_bit 8 (push_bit (8 * Suc j) (w AND 0xFF))"
    by (rule crc_byte_low_zero) (simp add: bit_simps)
  also have "\<dots> = push_bit (8 * j) (w AND 0xFF)"
    by (rule bit_word_eqI) (use assms in \<open>auto simp: bit_simps\<close>)
  finally show ?thesis .
qed

lemma funpow_lane:
  assumes "j \<le> 3" and "j \<le> m"
  shows "(crc_byte ^^ m) (push_bit (8 * j) (w AND 0xFF)) = (crc_byte ^^ (m - j)) (w AND 0xFF)"
  using assms
proof (induction j arbitrary: m)
  case (Suc j)
  then obtain k where m: "m = Suc k" by (cases m) auto
  with Suc show ?case by (simp only: funpow_Suc_right comp_apply crc_byte_lane) simp
qed simp

lemma lanes:
  "x = (x AND 0xFF) XOR push_bit (8 * 1) (drop_bit 8 x AND 0xFF)
     XOR push_bit (8 * 2) (drop_bit 16 x AND 0xFF) XOR push_bit (8 * 3) (drop_bit 24 x AND 0xFF)"
  for x :: u32
proof (rule bit_word_eqI)
  fix n assume "n < LENGTH(32)"
  then consider "n < 8" | "8 \<le> n" "n < 16" | "16 \<le> n" "n < 24" | "24 \<le> n" "n < 32"
    by force
  then show "bit x n = bit ((x AND 0xFF) XOR push_bit (8 * 1) (drop_bit 8 x AND 0xFF)
     XOR push_bit (8 * 2) (drop_bit 16 x AND 0xFF) XOR push_bit (8 * 3) (drop_bit 24 x AND 0xFF)) n"
    by cases (auto simp: bit_simps simp del: push_bit_and)
qed

lemma funpow_lanes:
  assumes "3 \<le> m"
  shows "(crc_byte ^^ m) x = (crc_byte ^^ m) (x AND 0xFF)
     XOR (crc_byte ^^ (m - 1)) (drop_bit 8 x AND 0xFF)
     XOR (crc_byte ^^ (m - 2)) (drop_bit 16 x AND 0xFF)
     XOR (crc_byte ^^ (m - 3)) (drop_bit 24 x AND 0xFF)"
  using assms funpow_lane [of 1 m] funpow_lane [of 2 m] funpow_lane [of 3 m]
  by (subst lanes [of x]) (simp only: linearD [OF linear_funpow [OF linear_crc_byte]])

lemma bit_byte_high: "8 \<le> n \<Longrightarrow> \<not> bit b n" for b :: byte
  using bit_imp_le_length [of b n] by auto

lemma DecodeFixed32_lanes:
  "DecodeFixed32 (b0 # b1 # b2 # b3 # p) =
     ucast b0 XOR push_bit (8 * 1) (ucast b1) XOR push_bit (8 * 2) (ucast b2)
       XOR push_bit (8 * 3) (ucast b3)"
proof (rule bit_word_eqI)
  fix n assume "n < LENGTH(32)"
  then consider "n < 8" | "8 \<le> n" "n < 16" | "16 \<le> n" "n < 24" | "24 \<le> n" "n < 32"
    by force
  then show "bit (DecodeFixed32 (b0 # b1 # b2 # b3 # p)) n =
     bit (ucast b0 XOR push_bit (8 * 1) (ucast b1 :: u32) XOR push_bit (8 * 2) (ucast b2)
       XOR push_bit (8 * 3) (ucast b3)) n"
    by cases (simp_all add: DecodeFixed32_def bit_simps bit_byte_high)
qed

lemma four_bytes:
  "foldl crc_byte_step c [b0, b1, b2, b3] =
   (crc_byte ^^ 4) (c XOR DecodeFixed32 (b0 # b1 # b2 # b3 # p))"
proof -
  have b: "ucast b AND 0xFF = (ucast b :: u32)" for b :: byte
    by (rule bit_word_eqI) (auto simp: bit_simps dest: bit_imp_le_length)
  have "foldl crc_byte_step c [b0, b1, b2, b3] =
      (crc_byte ^^ 4) (c XOR ucast b0) XOR (crc_byte ^^ 3) (ucast b1)
        XOR (crc_byte ^^ 2) (ucast b2) XOR (crc_byte ^^ 1) (ucast b3)"
    by (simp add: crc_byte_step_eq linearD [OF linear_crc_byte] numeral_eq_Suc xor.assoc)
  then show ?thesis
    using funpow_lane [of 1 4 "ucast b1"] funpow_lane [of 2 4 "ucast b2"]
      funpow_lane [of 3 4 "ucast b3"]
    by (simp only: DecodeFixed32_lanes linearD [OF linear_funpow [OF linear_crc_byte]] b xor.assoc
        order.refl) simp
qed

lemma crc_quad_step_eq:
  assumes "8 \<le> length p"
  shows "crc_quad_step c p = foldl crc_byte_step c (take 8 p)"
proof -
  obtain b0 b1 b2 b3 b4 b5 b6 b7 r where p: "p = b0 # b1 # b2 # b3 # b4 # b5 # b6 # b7 # r"
    using assms by (auto simp: numeral_eq_Suc Suc_le_length_iff)
  define w1 w2 where "w1 = DecodeFixed32 p" and "w2 = DecodeFixed32 (drop 4 p)"
  have "foldl crc_byte_step c (take 8 p) =
      foldl crc_byte_step (foldl crc_byte_step c [b0, b1, b2, b3]) [b4, b5, b6, b7]"
    by (simp add: p)
  also have "\<dots> = (crc_byte ^^ 4) ((crc_byte ^^ 4) (c XOR w1) XOR w2)"
    using four_bytes [of c b0 b1 b2 b3 "b4 # b5 # b6 # b7 # r"]
      four_bytes [of "foldl crc_byte_step c [b0, b1, b2, b3]" b4 b5 b6 b7 r]
    by (simp only: w1_def w2_def p drop_Cons' ) simp
  also have "\<dots> = (crc_byte ^^ 8) (c XOR w1) XOR (crc_byte ^^ 4) w2"
    using funpow_add [of 4 4 crc_byte] by (simp add: linearD [OF linear_funpow [OF linear_crc_byte]])
  also have "\<dots> = crc_quad_step c p"
    using funpow_lanes [of 8 "c XOR w1"] funpow_lanes [of 4 w2]
    unfolding crc_quad_step_def Let_def table_reads w1_def w2_def
    by (simp add: drop_bit_drop_bit xor.assoc)
  finally show ?thesis by simp
qed

lemma crc_quad_loop_eq:
  "8 * n \<le> length p \<Longrightarrow> crc_quad_loop n c p = foldl crc_byte_step c (take (8 * n) p)"
proof (induction n arbitrary: c p)
  case (Suc n)
  then have "take (8 * Suc n) p = take 8 p @ take (8 * n) (drop 8 p)"
    by (simp add: take_add)
  with Suc show ?case by (simp add: crc_quad_step_eq)
qed simp

lemma crc32c_sb8_64_bit_eq:
  assumes "unat init \<le> unat len" and "unat len \<le> length p"
  shows "crc32c_sb8_64_bit c p len init = foldl crc_byte_step c (take (unat len) p)"
proof -
  define i q where "i = unat init" and "q = (unat len - i) div 8"
  have rest: "unat (len - init) = unat len - i"
    using assms(1) by (simp add: i_def unat_sub word_le_nat_alt)
  have "q * 8 \<le> unat len - i" by (simp add: q_def)
  moreover have "unat len < 2 ^ 32" using unsigned_less [of len, where 'a = nat] by simp
  ultimately have run: "unat (((len - init) div 8) * 8) = q * 8"
    by (simp add: unat_word_ariths unat_div rest q_def)
  then have quads: "unat (((len - init) div 8) * 8 div 8) = q"
    by (simp add: unat_div)
  have "((len - init) div 8) * 8 \<le> len - init"
    using \<open>q * 8 \<le> unat len - i\<close> by (simp only: word_le_nat_alt run rest)
  then have tail: "unat (len - init - ((len - init) div 8) * 8) = unat len - i - q * 8"
    by (simp only: unat_sub run rest)
  have "take (unat len) p =
      take i p @ take (8 * q) (drop i p) @ take (unat len - i - q * 8) (drop (8 * q) (drop i p))"
  proof -
    have "unat len = i + (8 * q + (unat len - i - q * 8))"
      using assms(1) \<open>q * 8 \<le> unat len - i\<close> by (simp add: i_def)
    then show ?thesis by (metis take_add)
  qed
  moreover have "8 * q \<le> length (drop i p)"
    using assms(2) \<open>q * 8 \<le> unat len - i\<close> by simp
  ultimately show ?thesis
    unfolding crc32c_sb8_64_bit_def Let_def quads tail i_def [symmetric]
    by (simp add: crc_quad_loop_eq)
qed

lemma Extend_reference:
  assumes "length data < 2 ^ 32"
  shows "Extend x init_crc data = crc32c_reference init_crc data"
proof -
  define n :: u64 where "n = of_nat (length data)"
  define i :: u32 where "i = ucast (((x + 3) AND NOT 3) - x)"
  have n: "unat n = length data" using assms by (simp add: n_def)
  have n32: "unat (ucast n :: u32) = length data"
    using assms n by (simp add: unsigned_ucast_eq take_bit_nat_eq_self)
  have i64: "unat (ucast i :: u64) = unat i"
    using unsigned_less [of i, where 'a = nat]
    by (simp add: unsigned_ucast_eq take_bit_nat_eq_self)
  have "unat (if ucast i > n then ucast n else i) \<le> unat (ucast n :: u32)"
    using n n32 i64 by (simp add: word_less_nat_alt)
  then have "crc32c_sb8_64_bit (init_crc XOR CRC_FFs) data (ucast n)
        (if ucast i > n then ucast n else i) =
      foldl crc_byte_step (init_crc XOR CRC_FFs) data"
    using crc32c_sb8_64_bit_eq n32 by simp
  moreover have "crc_byte_step = (\<lambda>c b. crc_byte (c XOR ucast b))"
    by (intro ext) (rule crc_byte_step_eq)
  ultimately show ?thesis
    unfolding Extend_def crc32_software_def Let_def n_def [symmetric] i_def [symmetric]
    by (simp add: crc32c_reference_def)
qed

lemma crc32c_reference_append:
  "crc32c_reference (crc32c_reference c a) b = crc32c_reference c (a @ b)"
  by (simp add: crc32c_reference_def xor.assoc)

text \<open>The published check value of CRC-32C, for the nine digits \<^verbatim>\<open>123456789\<close>.\<close>

lemma crc32c_check_value:
  "crc32c_reference 0 [0x31, 0x32, 0x33, 0x34, 0x35, 0x36, 0x37, 0x38, 0x39] = 0xE3069283"
proof -
  have "crc_byte 0xFFFFFFCE = 0x6F0A661C"
    "crc_byte 0x6F0A662E = 0x8CAA3B9F"
    "crc_byte 0x8CAA3BAC = 0xEF84D04D"
    "crc_byte 0xEF84D079 = 0x09C50B11"
    "crc_byte 0x09C50B24 = 0xE72EDCCA"
    "crc_byte 0xE72EDCFC = 0xBECA8E79"
    "crc_byte 0xBECA8E4E = 0xEDBD6815"
    "crc_byte 0xEDBD682D = 0x9F787F65"
    "crc_byte 0x9F787F5C = 0x1CF96D7C"
    by (simp_all add: crc_byte_def crc_bit_def)
  then show ?thesis by (simp add: crc32c_reference_def CRC_FFs_def)
qed

lemma Unmask_Mask [simp, codec]: "Unmask (Mask crc) = crc"
proof (rule bit_word_eqI)
  fix n assume "n < LENGTH(32)"
  then show "bit (Unmask (Mask crc)) n = bit crc n"
    by (cases "n < 15") (auto simp: Unmask_def Mask_def bit_simps dest: bit_imp_le_length)
qed

section \<open>Properties\<close>

text \<open>C15: the slicing-by-8 checksum over the eight tables is the bit-serial CRC-32C of the
  data, wherever the data lies in memory, and extending the checksum of one string by another
  gives the checksum of their concatenation (strings below 4 GiB).\<close>

theorem crc32c_slicing_correct:
  "length (a @ b) < 2 ^ 32 \<Longrightarrow>
   crc_Value x a = crc32c_reference 0 a \<and>
   Extend y (crc_Value x a) b = crc_Value z (a @ b)"
  by (simp add: crc_Value_def Extend_reference crc32c_reference_append)

theorem crc32c_slicing_correct_witness:
  "Extend 1 (crc_Value 2 [1, 2, 3]) [4, 5, 6, 7, 8, 9, 10, 11, 12] =
     crc_Value 3 [1, 2, 3, 4, 5, 6, 7, 8, 9, 10, 11, 12]"
proof -
  have "length ([1, 2, 3] @ [4, 5, 6, 7, 8, 9, 10, 11, 12 :: byte]) < 2 ^ 32" by simp
  from conjunct2 [OF crc32c_slicing_correct [OF this, of 2 1 3]] show ?thesis by simp
qed

text \<open>C27: masking loses nothing: unmasking a masked checksum gives it back, and masking is
  injective.\<close>

theorem crc_mask_roundtrip: "Unmask (Mask crc) = crc \<and> (Mask c = Mask d \<longleftrightarrow> c = d)"
  by (metis Unmask_Mask)

end
