(* ===== verification/Status.thy ===== *)
theory Status
  imports Prelude
begin

text \<open>
  \<^verbatim>\<open>include/pebblesdb/status.h\<close> and \<^verbatim>\<open>util/status.cc\<close>.  \<open>state_ == NULL\<close> is the success
  status; any other status has a code and a message.  The length fields of the
  representation are the lengths of the lists.
\<close>

datatype Code = kOk | kNotFound | kCorruption | kNotSupported | kInvalidArgument | kIOError

datatype Status = OK | Failed Code bytes

text \<open>The message is \<open>msg\<close>, or \<open>msg: msg2\<close> when \<open>msg2\<close> is not empty.\<close>

definition mk_Status :: "Code \<Rightarrow> bytes \<Rightarrow> bytes \<Rightarrow> Status" where
  "mk_Status c msg msg2 = Failed c (msg @ (if msg2 \<noteq> [] then str '': '' @ msg2 else []))"

definition NotFound :: "bytes \<Rightarrow> bytes \<Rightarrow> Status" where "NotFound = mk_Status kNotFound"
definition Corruption :: "bytes \<Rightarrow> bytes \<Rightarrow> Status" where "Corruption = mk_Status kCorruption"
definition NotSupported :: "bytes \<Rightarrow> bytes \<Rightarrow> Status" where "NotSupported = mk_Status kNotSupported"
definition InvalidArgument :: "bytes \<Rightarrow> bytes \<Rightarrow> Status" where
  "InvalidArgument = mk_Status kInvalidArgument"
definition IOError :: "bytes \<Rightarrow> bytes \<Rightarrow> Status" where "IOError = mk_Status kIOError"

definition ok :: "Status \<Rightarrow> bool" where "ok s = (s = OK)"

fun code :: "Status \<Rightarrow> Code" where
  "code OK = kOk"
| "code (Failed c m) = c"

definition IsNotFound :: "Status \<Rightarrow> bool" where "IsNotFound s = (code s = kNotFound)"
definition IsCorruption :: "Status \<Rightarrow> bool" where "IsCorruption s = (code s = kCorruption)"
definition IsIOError :: "Status \<Rightarrow> bool" where "IsIOError s = (code s = kIOError)"

fun Code_prefix :: "Code \<Rightarrow> string" where
  "Code_prefix kOk = ''OK''"
| "Code_prefix kNotFound = ''NotFound: ''"
| "Code_prefix kCorruption = ''Corruption: ''"
| "Code_prefix kNotSupported = ''Not implemented: ''"
| "Code_prefix kInvalidArgument = ''Invalid argument: ''"
| "Code_prefix kIOError = ''IO error: ''"

definition Status_ToString :: "Status \<Rightarrow> bytes" where
  "Status_ToString s =
    (case s of OK \<Rightarrow> str ''OK'' | Failed c msg \<Rightarrow> str (Code_prefix c) @ msg)"

lemma ok_simps [simp]:
  "ok OK" "\<not> ok (Failed c m)" "\<not> ok (mk_Status c m n)"
  "\<not> ok (NotFound m n)" "\<not> ok (Corruption m n)" "\<not> ok (NotSupported m n)"
  "\<not> ok (InvalidArgument m n)" "\<not> ok (IOError m n)"
  by (simp_all add: ok_def mk_Status_def NotFound_def Corruption_def NotSupported_def
      InvalidArgument_def IOError_def)

lemma code_simps [simp]:
  "code (NotFound m n) = kNotFound" "code (Corruption m n) = kCorruption"
  "code (NotSupported m n) = kNotSupported" "code (InvalidArgument m n) = kInvalidArgument"
  "code (IOError m n) = kIOError"
  by (simp_all add: mk_Status_def NotFound_def Corruption_def NotSupported_def
      InvalidArgument_def IOError_def)

end
