(* ===== verification/LogWriter.thy ===== *)
theory LogWriter
  imports Crc32c Status
begin

text \<open>
  The write-ahead log writer, \<^verbatim>\<open>db/log_format.h\<close> and \<^verbatim>\<open>db/log_writer.cc\<close>.  A record is
  cut into fragments that never cross a 32 KiB block; the writer first reserves the byte
  range of the record by advancing \<open>offset_\<close> with a compare-and-swap and then writes the
  fragments at absolute offsets.  Offsets are 64-bit words and the block size is a 32-bit
  word, as in the code, so that the mask \<open>~(kBlockSize - 1)\<close> is the 32-bit one.  The
  destination file is an argument: \<open>WriteAt\<close> takes the file, an offset and the data.
\<close>

unbundle bit_operations_syntax

section \<open>Format\<close>

definition kZeroType :: byte where [constants]: "kZeroType = 0"
definition kFullType :: byte where [constants]: "kFullType = 1"
definition kFirstType :: byte where [constants]: "kFirstType = 2"
definition kMiddleType :: byte where [constants]: "kMiddleType = 3"
definition kLastType :: byte where [constants]: "kLastType = 4"

definition kBlockSize :: u32 where [constants]: "kBlockSize = 32768"
definition kHeaderSize :: u32 where [constants]: "kHeaderSize = 4 + 1 + 2"

section \<open>Reserving space\<close>

definition ComputeRecordSize :: "u64 \<Rightarrow> u64 \<Rightarrow> u64" where
  "ComputeRecordSize start remain =
    (let per_block = ucast (kBlockSize - kHeaderSize);
         whole_blocks = remain div per_block;
         leftover = remain mod per_block
     in start + whole_blocks * ucast kBlockSize + ucast kHeaderSize + leftover)"

text \<open>The body of the \<open>while (true)\<close> loop of \<open>AddRecord\<close>: the \<open>end_offset\<close> computed from
  the \<open>start_offset\<close> that was read.\<close>

definition reserve :: "u64 \<Rightarrow> u64 \<Rightarrow> u64" where
  "reserve start_offset sz =
    (let roundup_start =
           (if ucast kBlockSize - (start_offset AND ucast (kBlockSize - 1)) < ucast kHeaderSize
            then (start_offset + ucast kHeaderSize) AND ucast (NOT (kBlockSize - 1))
            else start_offset);
         left = ucast kBlockSize - (roundup_start AND ucast (kBlockSize - 1))
     in if ucast kHeaderSize + sz \<le> left
        then roundup_start + ucast kHeaderSize + sz
        else ComputeRecordSize (roundup_start + left) (sz + ucast kHeaderSize - left))"

section \<open>Writing fragments\<close>

text \<open>\<open>type_crc_[t]\<close> and the checksum of a fragment.  The checksum does not depend on the
  address of its input (\<open>crc32c_slicing_correct\<close>), so address 0 stands for any.\<close>

definition type_crc :: "byte \<Rightarrow> u32" where
  "type_crc t = crc_Value 0 [t]"

definition record_header :: "byte \<Rightarrow> bytes \<Rightarrow> bytes" where
  "record_header t ptr =
    (let n = length ptr;
         crc = Mask (Extend 0 (type_crc t) ptr)
     in EncodeFixed32 crc @ [of_nat (n mod 256), of_nat (n div 256), t])"

definition EmitPhysicalRecordAt ::
    "('f \<Rightarrow> u64 \<Rightarrow> bytes \<Rightarrow> 'f \<times> Status) \<Rightarrow> 'f \<Rightarrow> byte \<Rightarrow> bytes \<Rightarrow> u64 \<Rightarrow> 'f \<times> Status" where
  "EmitPhysicalRecordAt WriteAt dest t ptr offset =
    (let (dest, s) = WriteAt dest offset (record_header t ptr)
     in if ok s then WriteAt dest (offset + ucast kHeaderSize) ptr else (dest, s))"

definition fragment_type :: "bool \<Rightarrow> bool \<Rightarrow> byte" where
  "fragment_type is_begin is_end =
    (if is_begin \<and> is_end then kFullType
     else if is_begin then kFirstType
     else if is_end then kLastType
     else kMiddleType)"

text \<open>The start of a fragment: skip a trailer of fewer than \<open>kHeaderSize\<close> bytes, filling it
  with zeros.  The status of that write is ignored by the code.\<close>

definition block_room :: "u64 \<Rightarrow> u64" where
  "block_room offset = ucast kBlockSize - (offset AND ucast (kBlockSize - 1))"

definition skip_trailer :: "u64 \<Rightarrow> u64" where
  "skip_trailer offset =
    (if block_room offset < ucast kHeaderSize then offset + block_room offset else offset)"

definition fill_trailer ::
    "('f \<Rightarrow> u64 \<Rightarrow> bytes \<Rightarrow> 'f \<times> Status) \<Rightarrow> 'f \<Rightarrow> u64 \<Rightarrow> 'f" where
  "fill_trailer WriteAt dest offset =
    (if block_room offset < ucast kHeaderSize
     then fst (WriteAt dest offset (replicate (unat (block_room offset)) 0))
     else dest)"

definition fragment_avail :: "u64 \<Rightarrow> nat" where
  "fragment_avail offset = unat (block_room (skip_trailer offset) - ucast kHeaderSize)"

text \<open>Offsets are read modulo the block size.\<close>

lemma block_room_unat: "unat (block_room offset) = 32768 - unat offset mod 32768"
proof -
  have "offset AND 32767 = offset AND mask 15" by (simp add: mask_eq_exp_minus_1)
  then have m: "unat (offset AND 32767) = unat offset mod 32768" by (simp add: unat_and_mask)
  then have "offset AND 32767 \<le> 32768" by (simp add: word_le_nat_alt less_imp_le)
  then show ?thesis using m by (simp add: block_room_def constants unat_sub)
qed

lemma unat_add_mod:
  "unat (a + b) mod 32768 = (unat a + unat b) mod 32768" for a b :: u64
proof -
  have "(32768 :: nat) dvd 2 ^ 64" by (simp add: dvd_def)
  then show ?thesis by (simp add: unat_word_ariths mod_mod_cancel)
qed

lemma skip_trailer_mod:
  "unat (skip_trailer offset) mod 32768 =
    (if 32768 - unat offset mod 32768 < 7 then 0 else unat offset mod 32768)"
proof -
  have "(unat offset + (32768 - unat offset mod 32768)) mod 32768 = 0"
    by (rule round_up_mod) simp
  then show ?thesis
    by (simp add: skip_trailer_def constants word_less_nat_alt block_room_unat unat_add_mod)
qed

lemma fragment_avail_eq:
  "fragment_avail offset =
    (if 32768 - unat offset mod 32768 < 7 then 32761 else 32761 - unat offset mod 32768)"
proof -
  have "7 \<le> unat (block_room (skip_trailer offset))"
    by (simp add: block_room_unat skip_trailer_mod)
  then have "unat (block_room (skip_trailer offset) - 7) = unat (block_room (skip_trailer offset)) - 7"
    by (simp add: unat_sub word_le_nat_alt)
  then show ?thesis
    by (simp add: fragment_avail_def constants block_room_unat skip_trailer_mod)
qed

text \<open>The \<open>do ... while\<close> loop.  An empty first fragment, when exactly a header fits the
  block, does not shorten the record but moves to the next block.\<close>

function AddRecord_loop ::
    "('f \<Rightarrow> u64 \<Rightarrow> bytes \<Rightarrow> 'f \<times> Status) \<Rightarrow> 'f \<Rightarrow> bytes \<Rightarrow> u64 \<Rightarrow> bool \<Rightarrow> 'f \<times> Status" where
  "AddRecord_loop WriteAt dest ptr offset is_begin =
    (let left = length ptr;
         dest = fill_trailer WriteAt dest offset;
         avail = fragment_avail offset;
         offset = skip_trailer offset;
         fragment_length = (if left < avail then left else avail);
         is_end = (left = fragment_length);
         (dest, s) = EmitPhysicalRecordAt WriteAt dest (fragment_type is_begin is_end)
                       (take fragment_length ptr) offset
     in if ok s \<and> left - fragment_length > 0
        then AddRecord_loop WriteAt dest (drop fragment_length ptr)
               (offset + ucast kHeaderSize + of_nat fragment_length) False
        else (dest, s))"
  by pat_completeness auto
termination
proof (relation "measures [\<lambda>(w, d, ptr, offset, b). length ptr,
    \<lambda>(w, d, ptr, offset, b). if fragment_avail offset = 0 then 1 else 0]", simp, goal_cases)
  case (1 W d ptr offset b left d1 avail offset1 n e p d2 s)
  show ?case
  proof (cases "n = 0")
    case False
    moreover have "n < length ptr" using 1(1,9) by simp
    ultimately have "length (drop n ptr) < length ptr" by simp
    then show ?thesis by simp
  next
    case True
    then have "fragment_avail offset = 0" "ptr \<noteq> []" using 1 by (auto split: if_splits)
    then have "unat offset mod 32768 = 32761"
      by (simp add: fragment_avail_eq split: if_splits)
    then have "unat (skip_trailer offset + 7) mod 32768 = 0"
      by (simp add: unat_add_mod) (simp add: skip_trailer_mod mod_add_left_eq [symmetric])
    then have "fragment_avail (skip_trailer offset + 7) = 32761"
      by (simp add: fragment_avail_eq)
    then show ?thesis using 1 True \<open>fragment_avail offset = 0\<close> by (simp add: constants)
  qed
qed

declare AddRecord_loop.simps [simp del]

text \<open>A whole \<open>AddRecord\<close> by a writer whose \<open>offset_\<close> nobody else moves: the first
  compare-and-swap succeeds.\<close>

record 'f Writer =
  w_dest :: 'f
  w_offset :: u64

definition mk_Writer :: "'f \<Rightarrow> 'f Writer" where
  "mk_Writer dest = \<lparr>w_dest = dest, w_offset = 0\<rparr>"

definition AddRecord ::
    "('f \<Rightarrow> u64 \<Rightarrow> bytes \<Rightarrow> 'f \<times> Status) \<Rightarrow> 'f Writer \<Rightarrow> bytes \<Rightarrow> 'f Writer \<times> Status" where
  "AddRecord WriteAt w data =
    (let start_offset = w_offset w;
         end_offset = reserve start_offset (of_nat (length data));
         (dest, s) = AddRecord_loop WriteAt (w_dest w) data start_offset True
     in (\<lparr>w_dest = dest, w_offset = end_offset\<rparr>, s))"

section \<open>The bytes of a record\<close>

text \<open>The bytes that a record occupies when it is written from offset \<open>p\<close>.\<close>

function log_bytes :: "nat \<Rightarrow> bytes \<Rightarrow> bool \<Rightarrow> bytes" where
  "log_bytes p data is_begin =
    (let room = 32768 - p mod 32768;
         pad = (if room < 7 then room else 0);
         avail = (if room < 7 then 32761 else room - 7);
         n = min (length data) avail
     in replicate pad 0
        @ record_header (fragment_type is_begin (length data = n)) (take n data) @ take n data
        @ (if n < length data then log_bytes (p + pad + 7 + n) (drop n data) False else []))"
  by pat_completeness (elim Pair_inject, hypsubst, rule refl)
termination
proof (relation "measures [\<lambda>(p, data, b). length data,
    \<lambda>(p, data, b). if p mod 32768 = 32761 then 1 else 0]", simp, goal_cases)
  case (1 p data b room pad avail n)
  show ?case
  proof (cases "n = 0")
    case False
    then have "length (drop n data) < length data" using 1 by simp
    then show ?thesis by simp
  next
    case True
    then have "avail = 0" using 1(4,5) by (auto simp: min_def split: if_splits)
    then have "room = 7" using 1(3) by (simp split: if_splits)
    then have "p mod 32768 = 32761" using 1(1) by simp
    moreover from this have "(p + 7) mod 32768 = 0" by (simp add: mod_add_left_eq [symmetric])
    ultimately show ?thesis using 1 True by simp
  qed
qed

declare log_bytes.simps [simp del]

lemma length_record_header [simp]: "length (record_header t d) = 7"
  by (simp add: record_header_def Let_def)

text \<open>The contract of the destination file: writing at or after the end appends, the gap
  reads as zeros.\<close>

locale log_file =
  fixes WriteAt :: "'f \<Rightarrow> u64 \<Rightarrow> bytes \<Rightarrow> 'f \<times> Status"
    and contents :: "'f \<Rightarrow> bytes"
  assumes WriteAt_end: "length (contents f) \<le> unat off \<Longrightarrow> d = [] \<longrightarrow> length (contents f) = unat off \<Longrightarrow>
    ok (snd (WriteAt f off d)) \<and>
    contents (fst (WriteAt f off d)) = contents f @ replicate (unat off - length (contents f)) 0 @ d"
begin

lemma emit_contents:
  assumes "length (contents f) \<le> unat off" and "unat off + 7 < 2 ^ 64"
  shows "ok (snd (EmitPhysicalRecordAt WriteAt f t d off)) \<and>
    contents (fst (EmitPhysicalRecordAt WriteAt f t d off)) =
      contents f @ replicate (unat off - length (contents f)) 0 @ record_header t d @ d"
proof -
  obtain f1 s1 where W1: "WriteAt f off (record_header t d) = (f1, s1)" by fastforce
  have "record_header t d \<noteq> []" using length_record_header [of t d] by force
  with WriteAt_end [OF assms(1), of "record_header t d"] W1
  have f1: "ok s1" "contents f1 = contents f @ replicate (unat off - length (contents f)) 0 @ record_header t d"
    by simp_all
  have "unat (off + 7) = unat off + 7" using assms(2) by (simp add: unat_word_ariths)
  then have "unat (off + ucast kHeaderSize) = length (contents f1)"
    using f1(2) assms(1) by (simp add: constants)
  with WriteAt_end [of f1 "off + ucast kHeaderSize" d] f1 W1 show ?thesis
    by (simp add: EmitPhysicalRecordAt_def)
qed

lemma loop_contents:
  assumes "unat off = p" and "length (contents f) \<le> p" and "p + length (log_bytes p d b) < 2 ^ 64"
  shows "ok (snd (AddRecord_loop WriteAt f d off b)) \<and>
    contents (fst (AddRecord_loop WriteAt f d off b)) =
      contents f @ replicate (p - length (contents f)) 0 @ log_bytes p d b"
  using assms
proof (induction p d b arbitrary: f off rule: log_bytes.induct)
  case (1 p d b)
  note p = "1.prems"(1)
  define room where "room = 32768 - p mod 32768"
  define pad where "pad = (if room < 7 then room else 0)"
  define avail where "avail = (if room < 7 then 32761 else room - 7)"
  define n where "n = min (length d) avail"
  define t where "t = fragment_type b (length d = n)"
  have bytes: "log_bytes p d b = replicate pad 0 @ record_header t (take n d) @ take n d
      @ (if n < length d then log_bytes (p + pad + 7 + n) (drop n d) False else [])"
    by (subst log_bytes.simps) (simp only: Let_def room_def pad_def avail_def n_def t_def)
  have avail': "fragment_avail off = avail"
    by (simp add: fragment_avail_eq avail_def room_def p)
  have "length (take n d) = n" by (simp add: n_def)
  then have bound: "p + pad + 7 + n < 2 ^ 64"
    using "1.prems"(3) bytes by (simp add: p)
  have skip: "unat (skip_trailer off) = p + pad"
    using bound by (simp add: skip_trailer_def word_less_nat_alt constants block_room_unat
        unat_word_ariths pad_def room_def p)
  define f1 where "f1 = fill_trailer WriteAt f off"
  have f1: "length (contents f1) \<le> p + pad"
    "contents f1 @ replicate (p + pad - length (contents f1)) 0 =
     contents f @ replicate (p - length (contents f)) 0 @ replicate pad 0"
  proof -
    have room0: "0 < room" by (simp add: room_def)
    have "unat (block_room off) = room" by (simp add: block_room_unat room_def p)
    then show "length (contents f1) \<le> p + pad"
      "contents f1 @ replicate (p + pad - length (contents f1)) 0 =
       contents f @ replicate (p - length (contents f)) 0 @ replicate pad 0"
      using "1.prems"(2) WriteAt_end [of f off "replicate room 0"] room0
      by (auto simp: f1_def fill_trailer_def word_less_nat_alt constants pad_def p)
  qed
  obtain f2 s2 where E: "EmitPhysicalRecordAt WriteAt f1 t (take n d) (skip_trailer off) = (f2, s2)"
    by fastforce
  have f2: "ok s2" "contents f2 = contents f @ replicate (p - length (contents f)) 0
      @ replicate pad 0 @ record_header t (take n d) @ take n d"
    using emit_contents [of f1 "skip_trailer off" t "take n d"] f1 skip bound E by auto
  define off2 where "off2 = skip_trailer off + ucast kHeaderSize + of_nat n"
  have "unat (skip_trailer off + 7) = p + pad + 7"
    using bound skip by (simp add: unat_word_ariths)
  moreover have "unat (of_nat n :: u64) = n" using bound by simp
  ultimately have off2: "unat off2 = p + pad + 7 + n"
    using bound by (simp add: off2_def constants unat_word_ariths)
  have frag: "(if length d < fragment_avail off then length d else fragment_avail off) = n"
    by (simp add: avail' n_def min_def)
  have step: "AddRecord_loop WriteAt f d off b =
      (if n < length d then AddRecord_loop WriteAt f2 (drop n d) off2 False else (f2, s2))"
    using f2(1) E by (simp add: AddRecord_loop.simps [of WriteAt f d off b] Let_def frag f1_def [symmetric]
        t_def [symmetric] off2_def [symmetric])
  show ?case
  proof (cases "n < length d")
    case False
    then show ?thesis using step f2 bytes by (simp add: p)
  next
    case True
    have "length (contents f2) = unat off2" using f2(2) off2 "1.prems"(2) \<open>length (take n d) = n\<close>
      by (simp add: p)
    then have "ok (snd (AddRecord_loop WriteAt f2 (drop n d) off2 False)) \<and>
      contents (fst (AddRecord_loop WriteAt f2 (drop n d) off2 False)) =
      contents f2 @ replicate (unat off2 - length (contents f2)) 0 @ log_bytes (unat off2) (drop n d) False"
      using "1.IH" [OF room_def pad_def avail_def n_def True off2, of f2] "1.prems"(3) bytes True \<open>length (take n d) = n\<close>
      off2 by simp
    then show ?thesis using step True f2(2) bytes off2 \<open>length (contents f2) = unat off2\<close>
      by (simp add: p)
  qed
qed

end

section \<open>The reserved range\<close>

text \<open>The code reserves seven bytes too many when the part of a record after its first block
  fills whole blocks.\<close>

definition hole :: "nat \<Rightarrow> nat \<Rightarrow> bool" where
  "hole p n = (let room = 32768 - p mod 32768; left = (if room < 7 then 32768 else room)
     in left < 7 + n \<and> (n + 7 - left) mod 32761 = 0)"

lemma length_log_bytes_aligned:
  assumes "p mod 32768 = 0" and "d \<noteq> []"
  shows "length (log_bytes p d b) = length d div 32761 * 32768 +
    (if length d mod 32761 = 0 then 0 else 7 + length d mod 32761)"
  using assms
proof (induction "length d" arbitrary: p d b rule: less_induct)
  case less
  have unfold: "log_bytes p d b = record_header (fragment_type b (length d = min (length d) 32761))
      (take (min (length d) 32761) d) @ take (min (length d) 32761) d
      @ (if min (length d) 32761 < length d
         then log_bytes (p + 7 + min (length d) 32761) (drop (min (length d) 32761) d) False else [])"
    by (subst log_bytes.simps) (simp add: Let_def less.prems)
  show ?case
  proof (cases "32761 < length d")
    case True
    then have m: "min (length d) 32761 = 32761" by simp
    have "(p + 7 + 32761) mod 32768 = 0" using less.prems(1) by simp
    with less.hyps [of "drop 32761 d" "p + 7 + 32761" False] True
    have IH: "length (log_bytes (p + 7 + 32761) (drop 32761 d) False) =
        (length d - 32761) div 32761 * 32768 +
        (if (length d - 32761) mod 32761 = 0 then 0 else 7 + (length d - 32761) mod 32761)"
      by simp
    obtain k where k: "length d = 32761 + k" using True that [of "length d - 32761"] by simp
    have "length (log_bytes p d b) = 32768 + length (log_bytes (p + 7 + 32761) (drop 32761 d) False)"
      using True by (subst unfold) (simp add: m)
    then show ?thesis using IH div_add_self1 [of 32761 k] unfolding k by simp
  next
    case False
    then have m: "min (length d) 32761 = length d" by simp
    have "length (log_bytes p d b) = 7 + length d" by (subst unfold) (simp add: m)
    moreover have "0 < length d" using less.prems(2) by simp
    ultimately show ?thesis using False by (cases "length d = 32761") auto
  qed
qed

lemma length_log_bytes:
  fixes p d
  defines "room \<equiv> 32768 - p mod 32768"
  defines "pad \<equiv> (if room < 7 then room else 0)"
  defines "left \<equiv> (if room < 7 then 32768 else room)"
  defines "r \<equiv> length d + 7 - left"
  shows "length (log_bytes p d b) =
    (if 7 + length d \<le> left then pad + 7 + length d
     else pad + left + r div 32761 * 32768 + (if r mod 32761 = 0 then 0 else 7 + r mod 32761))"
proof -
  define n where "n = min (length d) (left - 7)"
  have avail: "(if room < 7 then 32761 else room - 7) = left - 7" by (simp add: left_def)
  have unfold: "log_bytes p d b = replicate pad 0 @ record_header (fragment_type b (length d = n)) (take n d)
      @ take n d @ (if n < length d then log_bytes (p + pad + 7 + n) (drop n d) False else [])"
    by (subst log_bytes.simps)
      (simp only: Let_def room_def [symmetric] pad_def [symmetric] avail n_def [symmetric])
  have left7: "7 \<le> left" by (simp add: left_def)
  show ?thesis
  proof (cases "7 + length d \<le> left")
    case True
    then have "n = length d" by (simp add: n_def)
    then show ?thesis using True by (subst unfold) simp
  next
    case False
    then have n: "n = left - 7" by (simp add: n_def)
    have "(p + room) mod 32768 = 0"
      unfolding room_def by (rule round_up_mod) simp
    moreover have "p + pad + 7 + n = (if room < 7 then p + room + 32768 else p + room)"
      using left7 by (simp add: n pad_def left_def)
    ultimately have "(p + pad + 7 + n) mod 32768 = 0" by simp
    moreover have "drop n d \<noteq> []" "length (drop n d) = r" using False left7 by (simp_all add: n r_def)
    ultimately have "length (log_bytes (p + pad + 7 + n) (drop n d) False) =
        r div 32761 * 32768 + (if r mod 32761 = 0 then 0 else 7 + r mod 32761)"
      by (simp add: length_log_bytes_aligned)
    moreover have "length (log_bytes p d b) =
        pad + left + length (log_bytes (p + pad + 7 + n) (drop n d) False)"
    proof -
      have "n < length d" "7 + n = left" using False left7 by (simp_all add: n)
      then show ?thesis by (subst unfold) simp
    qed
    ultimately show ?thesis using False by simp
  qed
qed

text \<open>The same as a function of the length, for evaluation.\<close>

definition log_size :: "nat \<Rightarrow> nat \<Rightarrow> nat" where
  "log_size p n =
    (let room = 32768 - p mod 32768;
         pad = (if room < 7 then room else 0);
         left = (if room < 7 then 32768 else room);
         r = n + 7 - left
     in if 7 + n \<le> left then pad + 7 + n
        else pad + left + r div 32761 * 32768 + (if r mod 32761 = 0 then 0 else 7 + r mod 32761))"

lemma length_log_bytes_size: "length (log_bytes p d b) = log_size p (length d)"
  by (simp only: length_log_bytes log_size_def Let_def)

lemma hole_aligned: "hole p n \<Longrightarrow> (p + log_size p n) mod 32768 = 0"
proof -
  assume hole: "hole p n"
  define room where "room = 32768 - p mod 32768"
  define left where "left = (if room < 7 then 32768 else room)"
  define pad where "pad = (if room < 7 then room else 0)"
  have "log_size p n = pad + left + (n + 7 - left) div 32761 * 32768"
    using hole by (simp add: hole_def log_size_def Let_def room_def [symmetric] left_def [symmetric]
        pad_def [symmetric])
  moreover have "p + (pad + left) = p + room + (if room < 7 then 32768 else 0)"
    by (simp add: pad_def left_def)
  moreover have "(p + room) mod 32768 = 0" unfolding room_def by (rule round_up_mod) simp
  ultimately show ?thesis by (simp add: add.assoc [symmetric])
qed

lemma bit_block_mask: "bit (ucast (NOT (kBlockSize - 1)) :: u64) n \<longleftrightarrow> 15 \<le> n \<and> n < 32"
proof -
  have "(32767 :: int) = mask 15" by (simp add: mask_eq_exp_minus_1)
  then have "bit (32767 :: int) n \<longleftrightarrow> n < 15" by (simp only: bit_mask_iff possible_bit_int simp_thms)
  then have "bit (kBlockSize - 1) n \<longleftrightarrow> n < 15" by (auto simp: kBlockSize_def bit_simps)
  then show ?thesis by (auto simp: bit_unsigned_iff bit_not_iff)
qed

lemma round_down_block:
  fixes x :: u64
  assumes "unat x < 2 ^ 32"
  shows "unat (x AND ucast (NOT (kBlockSize - 1))) = unat x - unat x mod 32768"
proof -
  have high: "\<not> bit x n" if "32 \<le> n" for n
  proof -
    have "x < 2 ^ 32" using assms by (simp add: word_less_nat_alt)
    then show ?thesis using less_exp_drop_bit [of 32 x] that by (simp add: drop_bit_zero_iff)
  qed
  have "x AND ucast (NOT (kBlockSize - 1)) = push_bit 15 (drop_bit 15 x)"
    by (rule bit_word_eqI) (use high in \<open>auto simp: bit_and_iff bit_block_mask bit_push_bit_iff bit_drop_bit_eq intro: ccontr\<close>)
  moreover have "unat (push_bit 15 (drop_bit 15 x)) = unat x div 2 ^ 15 * 2 ^ 15"
  proof -
    have "unat x div 2 ^ 15 * 2 ^ 15 < 2 ^ 64"
      using assms div_times_less_eq_dividend [of "unat x" "2 ^ 15"] by simp
    then show ?thesis using unat_push_or [of "drop_bit 15 x" 15 0] by (simp add: unat_drop_bit)
  qed
  ultimately show ?thesis by (simp add: minus_mod_eq_div_mult)
qed

lemma reserve_eq:
  assumes "p + length (log_bytes p d True) + 7 < 2 ^ 32" and "unat start = p"
  shows "unat (reserve start (of_nat (length d))) =
    p + length (log_bytes p d True) + (if hole p (length d) then 7 else 0)"
proof -
  define room where "room = 32768 - p mod 32768"
  define pad where "pad = (if room < 7 then room else 0)"
  define left where "left = (if room < 7 then 32768 else room)"
  define r where "r = length d + 7 - left"
  note len = length_log_bytes [of p d True, folded room_def, folded pad_def left_def r_def]
  define rs where "rs = (if ucast kBlockSize - (start AND ucast (kBlockSize - 1)) < ucast kHeaderSize
      then (start + ucast kHeaderSize) AND ucast (NOT (kBlockSize - 1)) else start)"
  have room0: "0 < room" "room \<le> 32768" by (simp_all add: room_def)
  have br: "unat (block_room start) = room" by (simp add: block_room_unat room_def assms(2))
  have n: "length d + 7 \<le> length (log_bytes p d True)"
  proof (cases "7 + length d \<le> left")
    case False
    then have "r + left = length d + 7" by (simp add: r_def)
    moreover have "r \<le> r div 32761 * 32768 + r mod 32761"
      using div_mult_mod_eq [of r 32761] by linarith
    ultimately show ?thesis using len False by (cases "r mod 32761 = 0") simp_all
  qed (simp add: len)
  have rs: "unat rs = p + pad"
  proof (cases "room < 7")
    case True
    have "unat (start + 7) = p + 7" using assms n by (simp add: unat_word_ariths)
    moreover have "(p + 7) mod 32768 = 7 - room"
    proof -
      have "(p + room) mod 32768 = 0" unfolding room_def by (rule round_up_mod) simp
      then have "(p + room + (7 - room)) mod 32768 = 7 - room"
        using True by (subst mod_add_left_eq [symmetric]) simp
      then show ?thesis using True by simp
    qed
    ultimately have "unat ((start + 7) AND ucast (NOT (kBlockSize - 1))) = p + room"
      using round_down_block [of "start + 7"] assms n True by simp
    then show ?thesis
      using br True unfolding rs_def block_room_def [symmetric]
      by (simp add: word_less_nat_alt pad_def constants)
  next
    case False
    then show ?thesis using br assms(2) unfolding rs_def block_room_def [symmetric]
      by (simp add: word_less_nat_alt pad_def constants)
  qed
  have lt: "unat (block_room rs) = left"
  proof -
    have "(p + room) mod 32768 = 0" unfolding room_def by (rule round_up_mod) simp
    then show ?thesis by (simp add: block_room_unat rs left_def pad_def room_def)
  qed
  have sz: "unat (of_nat (length d) :: u64) = length d" using assms n by simp
  have "unat (7 + of_nat (length d) :: u64) = 7 + length d"
    using assms n sz by (simp add: unat_word_ariths)
  then have cond: "7 + of_nat (length d) \<le> block_room rs \<longleftrightarrow> 7 + length d \<le> left"
    by (simp add: word_le_nat_alt lt)
  have res: "reserve start (of_nat (length d)) =
      (if 7 + length d \<le> left then rs + 7 + of_nat (length d)
       else ComputeRecordSize (rs + block_room rs) (of_nat (length d) + 7 - block_room rs))"
    unfolding reserve_def Let_def unfolding rs_def [symmetric]
    unfolding block_room_def [symmetric] cond [symmetric] by (simp add: kHeaderSize_def)
  show ?thesis
  proof (cases "7 + length d \<le> left")
    case True
    then show ?thesis using res rs sz len assms n
      by (simp add: unat_word_ariths hole_def Let_def room_def [symmetric] left_def [symmetric])
  next
    case False
    have "unat (of_nat (length d) + 7 - block_room rs) = r"
      using False sz lt assms n
      by (subst unat_sub) (simp_all add: word_le_nat_alt unat_word_ariths r_def)
    moreover have "unat (rs + block_room rs) = p + pad + left"
      using rs lt assms n False len by (simp add: unat_word_ariths)
    ultimately have "unat (ComputeRecordSize (rs + block_room rs) (of_nat (length d) + 7 - block_room rs)) =
        p + pad + left + r div 32761 * 32768 + 7 + r mod 32761"
      using assms False len
      by (simp add: ComputeRecordSize_def Let_def constants unat_word_ariths unat_div unat_mod split: if_splits)
    then show ?thesis using res False len
      by (simp add: hole_def Let_def room_def [symmetric] left_def [symmetric] r_def [symmetric])
  qed
qed

section \<open>Sequences of records\<close>

text \<open>Adding records one after another, and the bytes this leaves when no record ends in a
  hole.\<close>

definition AddRecords ::
    "('f \<Rightarrow> u64 \<Rightarrow> bytes \<Rightarrow> 'f \<times> Status) \<Rightarrow> 'f Writer \<Rightarrow> bytes list \<Rightarrow> 'f Writer" where
  "AddRecords WriteAt w rs = foldl (\<lambda>w r. fst (AddRecord WriteAt w r)) w rs"

fun log_stream :: "nat \<Rightarrow> bytes list \<Rightarrow> bytes" where
  "log_stream p [] = []"
| "log_stream p (r # rs) = log_bytes p r True @ log_stream (p + length (log_bytes p r True)) rs"

fun no_holes :: "nat \<Rightarrow> bytes list \<Rightarrow> bool" where
  "no_holes p [] = True"
| "no_holes p (r # rs) =
    (\<not> hole p (length r) \<and> no_holes (p + log_size p (length r)) rs)"

fun log_length :: "nat \<Rightarrow> bytes list \<Rightarrow> nat" where
  "log_length p [] = 0"
| "log_length p (r # rs) =
    log_size p (length r) + log_length (p + log_size p (length r)) rs"

lemma length_log_stream: "length (log_stream p rs) = log_length p rs"
  by (induction p rs rule: log_stream.induct) (simp_all add: length_log_bytes_size)

context log_file
begin

lemma AddRecord_contents:
  assumes "unat (w_offset w) = p" and "length (contents (w_dest w)) \<le> p"
    and "p + length (log_bytes p d True) + 7 < 2 ^ 32"
  shows "ok (snd (AddRecord WriteAt w d)) \<and>
    contents (w_dest (fst (AddRecord WriteAt w d))) =
      contents (w_dest w) @ replicate (p - length (contents (w_dest w))) 0 @ log_bytes p d True \<and>
    unat (w_offset (fst (AddRecord WriteAt w d))) =
      p + length (log_bytes p d True) + (if hole p (length d) then 7 else 0)"
proof -
  have "p + length (log_bytes p d True) < 2 ^ 64" using assms(3) by simp
  then show ?thesis
    using loop_contents [OF assms(1,2), of d True] reserve_eq [OF assms(3,1)]
    by (simp add: AddRecord_def Let_def case_prod_beta)
qed

lemma AddRecords_contents:
  assumes "unat (w_offset w) = p" and "length (contents (w_dest w)) = p" and "no_holes p rs"
    and "p + length (log_stream p rs) + 7 < 2 ^ 32"
  shows "contents (w_dest (AddRecords WriteAt w rs)) = contents (w_dest w) @ log_stream p rs"
  using assms
proof (induction rs arbitrary: w p)
  case (Cons r rs)
  let ?w = "fst (AddRecord WriteAt w r)"
  have "p + length (log_bytes p r True) + 7 < 2 ^ 32" using Cons.prems(4) by simp
  from AddRecord_contents [OF Cons.prems(1) _ this] Cons.prems(2,3)
  have "contents (w_dest ?w) = contents (w_dest w) @ log_bytes p r True"
    "unat (w_offset ?w) = p + length (log_bytes p r True)" by simp_all
  with Cons.IH [of ?w "p + length (log_bytes p r True)"] Cons.prems
  show ?case by (simp add: AddRecords_def length_log_bytes_size)
qed (simp add: AddRecords_def)

end

text \<open>A file held in memory.\<close>

definition mem_WriteAt :: "bytes \<Rightarrow> u64 \<Rightarrow> bytes \<Rightarrow> bytes \<times> Status" where
  "mem_WriteAt f off d =
    (let o1 = unat off
     in (take o1 f @ replicate (o1 - length f) 0 @ d @ drop (o1 + length d) f, OK))"

interpretation memfile: log_file mem_WriteAt "\<lambda>f. f"
  by unfold_locales (simp add: mem_WriteAt_def)

section \<open>Properties\<close>




end
