(* ===== verification/LogReader.thy ===== *)
theory LogReader
  imports LogWriter
begin

text \<open>
  The log reader, \<^verbatim>\<open>db/log_reader.cc\<close>.  The file is read block by block into \<open>buffer\<close>;
  \<open>ReadPhysicalRecord\<close> takes one fragment off the buffer and \<open>ReadRecord\<close> joins fragments
  into records.  A \<open>SequentialFile\<close> is the bytes still to be read and, for the error paths,
  the status with which a read at a given distance from the end fails.  Drops are appended
  to \<open>r_reports\<close> when there is a reporter.
\<close>

unbundle bit_operations_syntax

section \<open>Files and state\<close>

record SequentialFile =
  sf_data :: bytes
  sf_fail :: "nat \<Rightarrow> Status option"

definition sf_Read :: "SequentialFile \<Rightarrow> nat \<Rightarrow> Status \<times> bytes \<times> SequentialFile" where
  "sf_Read f n =
    (case sf_fail f (length (sf_data f)) of
       Some s \<Rightarrow> (s, [], f)
     | None \<Rightarrow> (OK, take n (sf_data f), f\<lparr>sf_data := drop n (sf_data f)\<rparr>))"

definition sf_Skip :: "SequentialFile \<Rightarrow> nat \<Rightarrow> Status \<times> SequentialFile" where
  "sf_Skip f n =
    (case sf_fail f (length (sf_data f)) of
       Some s \<Rightarrow> (s, f)
     | None \<Rightarrow> (OK, f\<lparr>sf_data := drop n (sf_data f)\<rparr>))"

record Reader =
  r_file :: SequentialFile
  r_has_reporter :: bool
  r_checksum :: bool
  r_buffer :: bytes
  r_eof :: bool
  r_last_record_offset :: u64
  r_end_of_buffer_offset :: u64
  r_initial_offset :: u64
  r_reports :: "(nat \<times> Status) list"

definition mk_Reader :: "SequentialFile \<Rightarrow> bool \<Rightarrow> bool \<Rightarrow> u64 \<Rightarrow> Reader" where
  "mk_Reader file reporter checksum initial_offset =
    \<lparr>r_file = file, r_has_reporter = reporter, r_checksum = checksum, r_buffer = [],
     r_eof = False, r_last_record_offset = 0, r_end_of_buffer_offset = 0,
     r_initial_offset = initial_offset, r_reports = []\<rparr>"

definition kEof :: u32 where [constants]: "kEof = 5"
definition kBadRecord :: u32 where [constants]: "kBadRecord = 6"

section \<open>Reporting and skipping\<close>

definition ReportDrop :: "Reader \<Rightarrow> nat \<Rightarrow> Status \<Rightarrow> Reader" where
  "ReportDrop r n reason =
    (if r_has_reporter r \<and>
        r_end_of_buffer_offset r - of_nat (length (r_buffer r)) - of_nat n \<ge> r_initial_offset r
     then r\<lparr>r_reports := r_reports r @ [(n, reason)]\<rparr>
     else r)"

definition ReportCorruption :: "Reader \<Rightarrow> nat \<Rightarrow> bytes \<Rightarrow> Reader" where
  "ReportCorruption r n reason = ReportDrop r n (Corruption reason [])"

definition SkipToInitialBlock :: "Reader \<Rightarrow> bool \<times> Reader" where
  "SkipToInitialBlock r =
    (let offset_in_block = r_initial_offset r mod ucast kBlockSize;
         block_start_location = r_initial_offset r - offset_in_block;
         block_start_location =
           (if offset_in_block > ucast kBlockSize - 6
            then block_start_location + ucast kBlockSize else block_start_location);
         r = r\<lparr>r_end_of_buffer_offset := block_start_location\<rparr>
     in if block_start_location > 0
        then let (skip_status, f) = sf_Skip (r_file r) (unat block_start_location);
                 r = r\<lparr>r_file := f\<rparr>
             in if \<not> ok skip_status
                then (False, ReportDrop r (unat block_start_location) skip_status)
                else (True, r)
        else (True, r))"

section \<open>One physical record\<close>

text \<open>The part of the loop of \<open>ReadPhysicalRecord\<close> from \<open>// Parse the header\<close> on, for a
  buffer that holds a header.  \<open>header[6]\<close> is a signed \<open>char\<close>, so the type is sign-extended.
  Where the code leaves \<open>*result\<close> alone the model gives the empty fragment; \<open>ReadRecord\<close>
  does not look at it there.\<close>

definition ParseHeader :: "Reader \<Rightarrow> u32 \<times> bytes \<times> Reader" where
  "ParseHeader r =
    (let header = r_buffer r;
         a = ucast (header ! 4) AND 0xff :: u32;
         b = ucast (header ! 5) AND 0xff :: u32;
         type = scast (header ! 6) :: u32;
         len = unat (a OR push_bit 8 b)
     in if unat kHeaderSize + len > length (r_buffer r)
        then let drop_size = length (r_buffer r); r = r\<lparr>r_buffer := []\<rparr>
             in if \<not> r_eof r
                then (kBadRecord, [], ReportCorruption r drop_size (str ''bad record length''))
                else (kEof, [], r)
        else if type = 0 \<and> len = 0 then (kBadRecord, [], r\<lparr>r_buffer := []\<rparr>)
        else if r_checksum r \<and>
                crc_Value 0 (take (1 + len) (drop 6 header)) \<noteq> Unmask (DecodeFixed32 header)
        then let drop_size = length (r_buffer r); r = r\<lparr>r_buffer := []\<rparr>
             in (kBadRecord, [], ReportCorruption r drop_size (str ''checksum mismatch''))
        else let r = r\<lparr>r_buffer := drop (unat kHeaderSize + len) (r_buffer r)\<rparr>
             in if r_end_of_buffer_offset r - of_nat (length (r_buffer r)) - ucast kHeaderSize
                     - of_nat len < r_initial_offset r
                then (kBadRecord, [], r)
                else (type, take len (drop (unat kHeaderSize) header), r))"

text \<open>The refill: one block is read; \<open>None\<close> for a read error, which ends the log.\<close>

definition ReadBlock_log :: "Reader \<Rightarrow> Status \<times> Reader" where
  "ReadBlock_log r =
    (let (status, buf, f) = sf_Read (r_file r) (unat kBlockSize);
         r = r\<lparr>r_file := f, r_buffer := buf,
               r_end_of_buffer_offset := r_end_of_buffer_offset r + of_nat (length buf)\<rparr>
     in if \<not> ok status
        then (status, (ReportDrop (r\<lparr>r_buffer := []\<rparr>) (unat kBlockSize) status)\<lparr>r_eof := True\<rparr>)
        else if length buf < unat kBlockSize then (status, r\<lparr>r_eof := True\<rparr>)
        else (status, r))"

function ReadPhysicalRecord :: "Reader \<Rightarrow> u32 \<times> bytes \<times> Reader" where
  "ReadPhysicalRecord r =
    (if length (r_buffer r) < unat kHeaderSize
     then if \<not> r_eof r
          then let (status, r) = ReadBlock_log r
               in if \<not> ok status then (kEof, [], r) else ReadPhysicalRecord r
          else (kEof, [], r\<lparr>r_buffer := []\<rparr>)
     else ParseHeader r)"
  by pat_completeness auto
termination
  by (relation "measure (\<lambda>r. if length (r_buffer r) < 7 then (if r_eof r then 1 else 2) else 0)")
    (auto simp: ReadBlock_log_def constants Let_def split: prod.splits if_splits)

declare ReadPhysicalRecord.simps [simp del]

text \<open>Bytes still to be examined.  Every fragment other than \<open>kEof\<close> uses some up.\<close>

definition pending :: "Reader \<Rightarrow> nat" where
  "pending r = length (r_buffer r) + length (sf_data (r_file r))"

lemma ReportDrop_simps [simp]:
  "r_buffer (ReportDrop r n s) = r_buffer r" "r_file (ReportDrop r n s) = r_file r"
  "r_eof (ReportDrop r n s) = r_eof r"
  by (simp_all add: ReportDrop_def)

lemma ReportCorruption_simps [simp]:
  "r_buffer (ReportCorruption r n s) = r_buffer r" "r_file (ReportCorruption r n s) = r_file r"
  "r_eof (ReportCorruption r n s) = r_eof r"
  by (simp_all add: ReportCorruption_def)

lemma pending_ReportCorruption [simp]: "pending (ReportCorruption r n s) = pending r"
  by (simp add: pending_def)

lemma ParseHeader_pending:
  assumes "7 \<le> length (r_buffer r)" and "ParseHeader r = (t, f, r')"
  shows "pending r' < pending r"
  using assms
  by (auto simp: ParseHeader_def Let_def pending_def constants split: if_splits)

lemma ReadBlock_log_pending: "ReadBlock_log r = (s, r') \<Longrightarrow> ok s \<Longrightarrow> length (r_buffer r) < 7 \<Longrightarrow>
    pending r' \<le> pending r"
  by (auto simp: ReadBlock_log_def sf_Read_def pending_def Let_def constants
      split: option.splits if_splits prod.splits)

lemma ReadPhysicalRecord_pending:
  "ReadPhysicalRecord r = (t, f, r') \<Longrightarrow> t \<noteq> kEof \<Longrightarrow> pending r' < pending r"
proof (induction r rule: ReadPhysicalRecord.induct)
  case (1 r)
  show ?case
  proof (cases "length (r_buffer r) < 7 \<and> \<not> r_eof r")
    case True
    obtain s r1 where R: "ReadBlock_log r = (s, r1)" by fastforce
    then have "ok s" "ReadPhysicalRecord r1 = (t, f, r')"
      using True "1.prems" by (auto simp: ReadPhysicalRecord.simps [of r] constants split: if_splits)
    then show ?thesis
      using "1.IH" [of "(s, r1)" s r1] True R ReadBlock_log_pending [OF R] "1.prems"
      by (simp add: constants)
  next
    case False
    then show ?thesis using "1.prems" ParseHeader_pending [of r t f r']
      by (auto simp: ReadPhysicalRecord.simps [of r] constants split: if_splits)
  qed
qed

section \<open>One logical record\<close>

text \<open>The state of the loop is the reader, \<open>in_fragmented_record\<close>, the scratch string and
  \<open>prospective_record_offset\<close>; the result is the record (\<open>None\<close> for \<open>false\<close>) and the
  reader.\<close>

definition report_partial :: "Reader \<Rightarrow> bool \<Rightarrow> bytes \<Rightarrow> bytes \<Rightarrow> Reader" where
  "report_partial r in_fragmented_record scratch msg =
    (if in_fragmented_record \<and> scratch \<noteq> []
     then ReportCorruption r (length scratch) msg else r)"

lemma pending_report_partial [simp]: "pending (report_partial r i s m) = pending r"
  by (simp add: report_partial_def)

function ReadRecord_loop ::
    "Reader \<Rightarrow> bool \<Rightarrow> bytes \<Rightarrow> u64 \<Rightarrow> bytes option \<times> Reader" where
  "ReadRecord_loop r in_fragmented_record scratch prospective_record_offset =
    (let physical_record_offset = r_end_of_buffer_offset r - of_nat (length (r_buffer r));
         (record_type, fragment, r) = ReadPhysicalRecord r
     in if record_type = kEof
        then (None, r)
        else if record_type = ucast kFullType
        then let r = report_partial r in_fragmented_record scratch (str ''partial record without end(1)'')
             in (Some fragment, r\<lparr>r_last_record_offset := physical_record_offset\<rparr>)
        else if record_type = ucast kFirstType
        then let r = report_partial r in_fragmented_record scratch (str ''partial record without end(2)'')
             in ReadRecord_loop r True fragment physical_record_offset
        else if record_type = ucast kMiddleType
        then if \<not> in_fragmented_record
             then ReadRecord_loop
                    (ReportCorruption r (length fragment) (str ''missing start of fragmented record(1)''))
                    in_fragmented_record scratch prospective_record_offset
             else ReadRecord_loop r in_fragmented_record (scratch @ fragment)
                    prospective_record_offset
        else if record_type = ucast kLastType
        then if \<not> in_fragmented_record
             then ReadRecord_loop
                    (ReportCorruption r (length fragment) (str ''missing start of fragmented record(2)''))
                    in_fragmented_record scratch prospective_record_offset
             else (Some (scratch @ fragment),
                   r\<lparr>r_last_record_offset := prospective_record_offset\<rparr>)
        else if record_type = kBadRecord
        then if in_fragmented_record
             then ReadRecord_loop (ReportCorruption r (length scratch) (str ''error in middle of record''))
                    False [] prospective_record_offset
             else ReadRecord_loop r in_fragmented_record scratch prospective_record_offset
        else ReadRecord_loop
               (ReportCorruption r
                 (length fragment + (if in_fragmented_record then length scratch else 0))
                 (str ''unknown record type '' @ decimal (unat record_type)))
               False [] prospective_record_offset)"
  by pat_completeness auto
termination
proof (relation "measure (\<lambda>(r, i, s, p). pending r)", goal_cases)
  case 1
  show ?case by simp
qed (auto dest!: sym [of "(_, _, _)"] ReadPhysicalRecord_pending)

declare ReadRecord_loop.simps [simp del]

definition ReadRecord :: "Reader \<Rightarrow> bytes option \<times> Reader" where
  "ReadRecord r =
    (let (go, r) = (if r_last_record_offset r < r_initial_offset r then SkipToInitialBlock r
                    else (True, r))
     in if \<not> go then (None, r) else ReadRecord_loop r False [] 0)"

definition LastRecordOffset :: "Reader \<Rightarrow> u64" where
  "LastRecordOffset r = r_last_record_offset r"

section \<open>Reading back what was written\<close>

definition room :: "nat \<Rightarrow> nat" where "room p = 32768 - p mod 32768"

lemma room_bounds [simp]: "0 < room p" "room p \<le> 32768" by (simp_all add: room_def)

text \<open>A reader at position \<open>p\<close> of a file without read errors, with the bytes \<open>S\<close> ahead.
  Either it is about to read the block that starts at \<open>p\<close>, or its buffer holds the rest of
  the block of \<open>p\<close>.\<close>

definition filled :: "Reader \<Rightarrow> nat \<Rightarrow> bytes \<Rightarrow> bool" where
  "filled r p S \<longleftrightarrow> length (r_buffer r) = min (room p) (length S) \<and> (r_eof r \<longleftrightarrow> length S < room p)"

definition reads :: "Reader \<Rightarrow> nat \<Rightarrow> bytes \<Rightarrow> bool" where
  "reads r p S \<longleftrightarrow> r_initial_offset r = 0 \<and> (\<forall>n. sf_fail (r_file r) n = None) \<and>
     r_buffer r @ sf_data (r_file r) = S \<and>
     ((r_buffer r = [] \<and> p mod 32768 = 0 \<and> \<not> r_eof r) \<or> filled r p S)"

lemma read_block:
  assumes "r_initial_offset r = 0" and "\<forall>n. sf_fail (r_file r) n = None"
    and "sf_data (r_file r) = S" and "p mod 32768 = 0" and "\<not> r_eof r"
  shows "\<exists>r'. ReadBlock_log r = (OK, r') \<and> reads r' p S \<and> filled r' p S \<and> r_reports r' = r_reports r"
  using assms
  by (auto simp: ReadBlock_log_def sf_Read_def reads_def filled_def room_def constants Let_def)

lemma parse_header:
  assumes "r_buffer r = record_header t d @ d @ rest" and "t \<in> {1, 2, 3, 4}"
    and "length d < 65536" and "r_initial_offset r = 0"
  shows "ParseHeader r = (ucast t, d, r\<lparr>r_buffer := rest\<rparr>)"
proof -
  define a b where "a = (of_nat (length d mod 256) :: byte)" and "b = (of_nat (length d div 256) :: byte)"
  have ab: "unat a = length d mod 256" "unat b = length d div 256"
    using assms(3) by (simp_all add: a_def b_def)
  have and_ff: "ucast c AND 0xff = (ucast c :: u32)" "unat (ucast c :: u32) = unat c" for c :: byte
  proof -
    show "ucast c AND 0xff = (ucast c :: u32)"
      by (rule bit_word_eqI) (auto simp: bit_simps dest: bit_imp_le_length)
    show "unat (ucast c :: u32) = unat c"
      using unat_byte_less [of c] by (simp add: unsigned_ucast_eq take_bit_nat_eq_self)
  qed
  have len: "unat (ucast a OR push_bit 8 (ucast b) :: u32) = length d"
    using unat_push_or [of "ucast b :: u32" 8 "ucast a"] ab unat_byte_less [of a] unat_byte_less [of b]
    by (simp add: and_ff or.commute)
  define crc where "crc = Extend 0 (type_crc t) d"
  have buf: "r_buffer r = EncodeFixed32 (Mask crc) @ [a, b, t] @ d @ rest"
    using assms(1) by (simp add: record_header_def Let_def crc_def a_def b_def)
  have hdr: "r_buffer r ! 4 = a" "r_buffer r ! 5 = b" "r_buffer r ! 6 = t"
    "drop 6 (r_buffer r) = t # d @ rest" "drop 7 (r_buffer r) = d @ rest"
    by (simp_all add: buf nth_append)
  have rest: "drop (7 + length d) (r_buffer r) = rest"
    using hdr(5) by (metis add.commute append_eq_conv_conj drop_drop)
  have "length (t # d) < 2 ^ 32" using assms(3) by simp
  then have "crc_Value 0 (t # d) = crc"
    using crc32c_reference_append [of 0 "[t]" d]
    by (simp add: crc_def type_crc_def crc_Value_def Extend_reference)
  moreover have "DecodeFixed32 (r_buffer r) = Mask crc" by (simp add: buf)
  moreover have "scast t = (ucast t :: u32)" "(scast t :: u32) \<noteq> 0" using assms(2) by auto
  ultimately show ?thesis
    unfolding ParseHeader_def Let_def hdr and_ff len
    using assms(4) by (simp add: hdr constants rest) (simp add: buf)
qed

lemma phys_filled:
  assumes "reads r p (record_header t d @ d @ S)" and "filled r p (record_header t d @ d @ S)"
    and "t \<in> {1, 2, 3, 4}" and "7 + length d \<le> room p"
  shows "\<exists>r'. ReadPhysicalRecord r = (ucast t, d, r') \<and> reads r' (p + 7 + length d) S \<and>
    r_reports r' = r_reports r"
proof -
  let ?n = "7 + length d"
  have buf: "length (r_buffer r) = min (room p) (?n + length S)"
    using assms(2) by (simp add: filled_def)
  define rest where "rest = drop ?n (r_buffer r)"
  have S: "r_buffer r @ sf_data (r_file r) = record_header t d @ d @ S"
    using assms(1) by (simp add: reads_def)
  have n: "?n \<le> length (r_buffer r)" using buf assms(4) by simp
  have "take ?n (r_buffer r) = record_header t d @ d"
    using arg_cong [OF S, of "take ?n"] n by simp
  then have b: "r_buffer r = record_header t d @ d @ rest"
    using append_take_drop_id [of ?n "r_buffer r"] by (simp add: rest_def)
  then have restS: "rest @ sf_data (r_file r) = S" using S by simp
  have "length d < 65536" using assms(4) room_bounds(2) [of p] by linarith
  then have "ReadPhysicalRecord r = (ucast t, d, r\<lparr>r_buffer := rest\<rparr>)"
    using parse_header [OF b assms(3)] assms(1) n
    by (simp add: ReadPhysicalRecord.simps [of r] reads_def constants)
  moreover have "reads (r\<lparr>r_buffer := rest\<rparr>) (p + 7 + length d) S"
  proof (cases "?n = room p")
    case True
    then have "(p + ?n) mod 32768 = 0" unfolding room_def using round_up_mod [of 32768 p] by simp
    moreover have "rest = []" using True buf by (simp add: rest_def)
    moreover have "\<not> r_eof r" using True assms(2) by (simp add: filled_def)
    ultimately show ?thesis using assms(1) restS by (simp add: reads_def add.assoc)
  next
    case False
    then have lt: "p mod 32768 + ?n < 32768" using assms(4) by (simp add: room_def)
    have "(p + ?n) mod 32768 = p mod 32768 + ?n"
      using lt by (metis mod_add_left_eq mod_less)
    then have "room (p + ?n) = room p - ?n" by (simp add: room_def)
    then have "filled (r\<lparr>r_buffer := rest\<rparr>) (p + ?n) S"
      using assms(2,4) False by (auto simp: filled_def rest_def min_def split: if_splits)
    then show ?thesis using assms(1) restS by (simp add: reads_def add.assoc)
  qed
  ultimately show ?thesis by auto
qed

lemma phys_record:
  assumes "reads r p (replicate (if room p < 7 then room p else 0) 0 @ record_header t d @ d @ S)"
    and "t \<in> {1, 2, 3, 4}" and "7 + length d \<le> (if room p < 7 then 32768 else room p)"
  shows "\<exists>r'. ReadPhysicalRecord r = (ucast t, d, r') \<and>
    reads r' (p + (if room p < 7 then room p else 0) + 7 + length d) S \<and> r_reports r' = r_reports r"
proof (cases "room p < 7")
  case False
  show ?thesis
  proof (cases "filled r p (record_header t d @ d @ S)")
    case True
    then show ?thesis using phys_filled assms False by simp
  next
    case unfilled: False
    then have r: "r_buffer r = []" "p mod 32768 = 0" "\<not> r_eof r" "r_initial_offset r = 0"
      "\<forall>n. sf_fail (r_file r) n = None" "sf_data (r_file r) = record_header t d @ d @ S"
      using assms(1) False by (auto simp: reads_def)
    from read_block [OF r(4,5,6,2,3)] obtain r' where r': "ReadBlock_log r = (OK, r')"
      "reads r' p (record_header t d @ d @ S)" "filled r' p (record_header t d @ d @ S)"
      "r_reports r' = r_reports r" by blast
    have "ReadPhysicalRecord r = ReadPhysicalRecord r'"
      using r r' by (simp add: ReadPhysicalRecord.simps [of r] constants)
    then show ?thesis using phys_filled [OF r'(2,3) assms(2)] assms(3) False r'(4) by simp
  qed
next
  case True
  let ?S = "record_header t d @ d @ S"
  have "filled r p (replicate (room p) 0 @ ?S)"
    using assms(1) True by (auto simp: reads_def room_def)
  then have len: "length (r_buffer r) = room p" "\<not> r_eof r" by (simp_all add: filled_def)
  have S: "r_buffer r @ sf_data (r_file r) = replicate (room p) 0 @ ?S"
    using assms(1) True by (simp add: reads_def)
  have data: "sf_data (r_file r) = ?S" using S len(1) by (simp add: append_eq_append_conv)
  have al: "(p + room p) mod 32768 = 0" unfolding room_def by (rule round_up_mod) simp
  have "r_initial_offset r = 0" "\<forall>n. sf_fail (r_file r) n = None"
    using assms(1) by (simp_all add: reads_def)
  from read_block [OF this data al len(2)] obtain r' where r': "ReadBlock_log r = (OK, r')"
    "reads r' (p + room p) ?S" "filled r' (p + room p) ?S" "r_reports r' = r_reports r" by blast
  have "ReadPhysicalRecord r = ReadPhysicalRecord r'"
    using True len r' by (simp add: ReadPhysicalRecord.simps [of r] constants)
  moreover have "room (p + room p) = 32768" using al by (simp add: room_def)
  ultimately show ?thesis using phys_filled [OF r'(2,3) assms(2)] assms(3) True r'(4) by simp
qed

text \<open>\<open>log_bytes\<close> at a position, in terms of \<open>room\<close>.\<close>

lemma log_bytes_unfold:
  fixes p d b
  defines "pad \<equiv> (if room p < 7 then room p else 0)"
  defines "n \<equiv> min (length d) ((if room p < 7 then 32768 else room p) - 7)"
  shows "log_bytes p d b = replicate pad 0 @ record_header (fragment_type b (length d = n)) (take n d)
      @ take n d @ (if n < length d then log_bytes (p + pad + 7 + n) (drop n d) False else [])"
proof -
  have "(if room p < 7 then 32761 else room p - 7) = (if room p < 7 then 32768 else room p) - 7" by simp
  then show ?thesis
    by (subst log_bytes.simps) (simp only: Let_def room_def [symmetric] pad_def n_def)
qed

lemma fragment_types: "fragment_type b e \<in> {1, 2, 3, 4}"
  by (simp add: fragment_type_def constants)

lemma read_fragment:
  fixes p d b
  defines "pad \<equiv> (if room p < 7 then room p else 0)"
  defines "n \<equiv> min (length d) ((if room p < 7 then 32768 else room p) - 7)"
  assumes "reads r p (log_bytes p d b @ S)"
  shows "\<exists>r'. ReadPhysicalRecord r = (ucast (fragment_type b (length d = n)), take n d, r') \<and>
    reads r' (p + pad + 7 + n)
      ((if n < length d then log_bytes (p + pad + 7 + n) (drop n d) False else []) @ S) \<and>
    r_reports r' = r_reports r"
proof -
  have "length (take n d) = n" by (simp add: n_def)
  moreover have "7 + n \<le> (if room p < 7 then 32768 else room p)" by (auto simp: n_def min_def)
  ultimately show ?thesis
    using phys_record [of r p "fragment_type b (length d = n)" "take n d"] assms(3) fragment_types
    unfolding log_bytes_unfold [of p d b, folded pad_def n_def] pad_def [symmetric] by simp
qed

lemma read_rest:
  "reads r p (log_bytes p d False @ S) \<Longrightarrow>
   \<exists>r'. ReadRecord_loop r True sc off = (Some (sc @ d), r') \<and>
     reads r' (p + length (log_bytes p d False)) S \<and> r_reports r' = r_reports r"
proof (induction p d False arbitrary: r sc rule: log_bytes.induct)
  case (1 p d)
  define pad n where "pad = (if room p < 7 then room p else 0)"
    and "n = min (length d) ((if room p < 7 then 32768 else room p) - 7)"
  have avail: "(if room p < 7 then 32761 else room p - 7) = (if room p < 7 then 32768 else room p) - 7"
    by simp
  note bytes = log_bytes_unfold [of p d False, folded pad_def n_def]
  from read_fragment [OF "1.prems", folded pad_def n_def] obtain r1 where
    r1: "ReadPhysicalRecord r = (ucast (fragment_type False (length d = n)), take n d, r1)"
      "reads r1 (p + pad + 7 + n)
        ((if n < length d then log_bytes (p + pad + 7 + n) (drop n d) False else []) @ S)"
      "r_reports r1 = r_reports r" by blast
  have n: "length (take n d) = n" by (simp add: n_def)
  show ?case
  proof (cases "n < length d")
    case True
    then have loop: "ReadRecord_loop r True sc off = ReadRecord_loop r1 True (sc @ take n d) off"
      using r1(1) by (simp add: ReadRecord_loop.simps [of r] Let_def fragment_type_def constants)
    have "reads r1 (p + pad + 7 + n) (log_bytes (p + pad + 7 + n) (drop n d) False @ S)"
      using r1(2) True by simp
    from "1.hyps" [of "room p" pad _ n, OF room_def pad_def refl _ True this, of "sc @ take n d"]
    obtain r' where "ReadRecord_loop r1 True (sc @ take n d) off = (Some ((sc @ take n d) @ drop n d), r')"
      "reads r' (p + pad + 7 + n + length (log_bytes (p + pad + 7 + n) (drop n d) False)) S"
      "r_reports r' = r_reports r1"
      unfolding n_def avail by blast
    then show ?thesis using loop r1(3) bytes n True by (simp add: add.assoc)
  next
    case False
    then have "length d = n" by (simp add: n_def)
    then have "ReadRecord_loop r True sc off = (Some (sc @ d), r1\<lparr>r_last_record_offset := off\<rparr>)"
      using r1(1) by (simp add: ReadRecord_loop.simps [of r] Let_def fragment_type_def constants)
    moreover have "reads (r1\<lparr>r_last_record_offset := off\<rparr>) (p + length (log_bytes p d False)) S"
      using r1(2) False bytes n by (simp add: reads_def filled_def add.assoc)
    ultimately show ?thesis using r1(3) by simp
  qed
qed

lemma read_record:
  assumes "reads r p (log_bytes p d True @ S)"
  shows "\<exists>r'. ReadRecord r = (Some d, r') \<and> reads r' (p + length (log_bytes p d True)) S \<and>
    r_reports r' = r_reports r"
proof -
  define pad n where "pad = (if room p < 7 then room p else 0)"
    and "n = min (length d) ((if room p < 7 then 32768 else room p) - 7)"
  note bytes = log_bytes_unfold [of p d True, folded pad_def n_def]
  from read_fragment [OF assms, folded pad_def n_def] obtain r1 where
    r1: "ReadPhysicalRecord r = (ucast (fragment_type True (length d = n)), take n d, r1)"
      "reads r1 (p + pad + 7 + n)
        ((if n < length d then log_bytes (p + pad + 7 + n) (drop n d) False else []) @ S)"
      "r_reports r1 = r_reports r" by blast
  have n: "length (take n d) = n" by (simp add: n_def)
  define off where "off = r_end_of_buffer_offset r - of_nat (length (r_buffer r))"
  have "\<not> r_last_record_offset r < r_initial_offset r" using assms by (simp add: reads_def)
  then have rec: "ReadRecord r = ReadRecord_loop r False [] 0" by (simp add: ReadRecord_def)
  show ?thesis
  proof (cases "n < length d")
    case True
    then have loop: "ReadRecord r = ReadRecord_loop r1 True (take n d) off"
      using r1(1) rec by (simp add: ReadRecord_loop.simps [of r] Let_def fragment_type_def constants
          report_partial_def off_def)
    have "reads r1 (p + pad + 7 + n) (log_bytes (p + pad + 7 + n) (drop n d) False @ S)"
      using r1(2) True by simp
    from read_rest [OF this, of "take n d" off]
    show ?thesis using loop r1(3) bytes n True by (auto simp: add.assoc)
  next
    case False
    then have "length d = n" by (simp add: n_def)
    then have "ReadRecord r = (Some d, r1\<lparr>r_last_record_offset := off\<rparr>)"
      using r1(1) rec by (simp add: ReadRecord_loop.simps [of r] Let_def fragment_type_def constants
          report_partial_def off_def)
    moreover have "reads (r1\<lparr>r_last_record_offset := off\<rparr>) (p + length (log_bytes p d True)) S"
      using r1(2) False bytes n by (simp add: reads_def filled_def add.assoc)
    ultimately show ?thesis using r1(3) by simp
  qed
qed

lemma read_end: "reads r p [] \<Longrightarrow> \<exists>r'. ReadRecord r = (None, r') \<and> r_reports r' = r_reports r"
proof -
  assume a: "reads r p []"
  then have b: "r_buffer r = []" "sf_data (r_file r) = []" "\<forall>n. sf_fail (r_file r) n = None"
    by (simp_all add: reads_def)
  have "\<exists>r'. ReadPhysicalRecord r = (kEof, [], r') \<and> r_reports r' = r_reports r"
    using b by (auto simp: ReadPhysicalRecord.simps ReadBlock_log_def sf_Read_def Let_def constants)
  moreover have "\<not> r_last_record_offset r < r_initial_offset r" using a by (simp add: reads_def)
  ultimately show ?thesis by (auto simp: ReadRecord_def ReadRecord_loop.simps [of r])
qed

text \<open>Calling \<open>ReadRecord\<close> \<open>k\<close> times.\<close>

fun ReadRecords :: "nat \<Rightarrow> Reader \<Rightarrow> bytes option list \<times> Reader" where
  "ReadRecords 0 r = ([], r)"
| "ReadRecords (Suc k) r =
    (let (x, r) = ReadRecord r; (xs, r) = ReadRecords k r in (x # xs, r))"

lemma read_stream:
  "reads r p (log_stream p rs) \<Longrightarrow>
   \<exists>r'. ReadRecords (Suc (length rs)) r = (map Some rs @ [None], r') \<and> r_reports r' = r_reports r"
proof (induction rs arbitrary: p r)
  case Nil
  then show ?case using read_end [of r p] by auto
next
  case (Cons d rs)
  then have "reads r p (log_bytes p d True @ log_stream (p + length (log_bytes p d True)) rs)"
    by simp
  from read_record [OF this] obtain r1 where
    r1: "ReadRecord r = (Some d, r1)" "r_reports r1 = r_reports r"
      "reads r1 (p + length (log_bytes p d True)) (log_stream (p + length (log_bytes p d True)) rs)"
    by blast
  from Cons.IH [OF r1(3)] show ?case using r1(1,2) by (auto simp: Let_def)
qed

text \<open>A hole hides what follows it in its block.\<close>

lemma read_hole:
  assumes "reads r e (replicate 7 0 @ X)" and "e mod 32768 = 0" and "7 + length X < 32768"
  shows "\<exists>r'. ReadRecord r = (None, r') \<and> r_reports r' = r_reports r"
proof -
  let ?S = "replicate 7 0 @ X"
  have room: "room e = 32768" using assms(2) by (simp add: room_def)
  have parse: "ReadPhysicalRecord r1 = (kBadRecord, [], r1\<lparr>r_buffer := []\<rparr>) \<and> r_eof r1"
    if "reads r1 e ?S" "filled r1 e ?S" for r1
  proof -
    have "length (r_buffer r1) = length ?S" "r_eof r1"
      using that assms(3) room by (simp_all add: filled_def)
    then have "r_buffer r1 = ?S"
      using that(1) by (metis append_eq_conv_conj order_refl reads_def take_all)
    moreover have "replicate 7 (0 :: byte) = [0, 0, 0, 0, 0, 0, 0]" by (simp add: numeral_eq_Suc)
    ultimately show ?thesis using \<open>r_eof r1\<close>
      by (simp add: ReadPhysicalRecord.simps [of r1] ParseHeader_def constants)
  qed
  have "\<exists>r1. ReadPhysicalRecord r = (kBadRecord, [], r1\<lparr>r_buffer := []\<rparr>) \<and> r_eof r1 \<and>
      r_reports r1 = r_reports r"
  proof (cases "filled r e ?S")
    case True
    then show ?thesis using parse assms(1) by blast
  next
    case False
    then have r: "r_buffer r = []" "\<not> r_eof r" "r_initial_offset r = 0"
      "\<forall>n. sf_fail (r_file r) n = None" "sf_data (r_file r) = ?S"
      using assms(1) by (auto simp: reads_def)
    from read_block [OF r(3,4,5) assms(2) r(2)] obtain r1 where r1: "ReadBlock_log r = (OK, r1)"
      "reads r1 e ?S" "filled r1 e ?S" "r_reports r1 = r_reports r" by blast
    have "ReadPhysicalRecord r = ReadPhysicalRecord r1"
      using r r1 by (simp add: ReadPhysicalRecord.simps [of r] constants)
    then show ?thesis using parse [OF r1(2,3)] r1(4) by auto
  qed
  then obtain r1 where r1: "ReadPhysicalRecord r = (kBadRecord, [], r1\<lparr>r_buffer := []\<rparr>)" "r_eof r1"
    "r_reports r1 = r_reports r" by blast
  define r2 where "r2 = r1\<lparr>r_buffer := []\<rparr>"
  have "ReadPhysicalRecord r2 = (kEof, [], r2)"
    using r1(2) by (subst ReadPhysicalRecord.simps) (simp add: r2_def constants)
  then have "ReadRecord_loop r2 False [] 0 = (None, r2)"
    by (simp add: ReadRecord_loop.simps [of r2])
  moreover have "\<not> r_last_record_offset r < r_initial_offset r" using assms(1) by (simp add: reads_def)
  ultimately show ?thesis
    using r1 by (simp add: ReadRecord_def ReadRecord_loop.simps [of r] r2_def constants)
qed

lemma reads_start: "reads (mk_Reader \<lparr>sf_data = S, sf_fail = \<lambda>_. None\<rparr> rep chk 0) 0 S"
  by (simp add: reads_def mk_Reader_def)

section \<open>Properties\<close>

text \<open>C6: the log round trip.  Every sequence of records that leaves no hole and stays below
  4 GiB is read back exactly: the records in order, then the end of the log, with checksums
  verified and no corruption reported.\<close>

theorem log_roundtrip:
  "no_holes 0 rs \<Longrightarrow> log_length 0 rs + 7 < 2 ^ 32 \<Longrightarrow>
   \<exists>r. ReadRecords (Suc (length rs))
         (mk_Reader \<lparr>sf_data = w_dest (AddRecords mem_WriteAt (mk_Writer []) rs),
                     sf_fail = \<lambda>_. None\<rparr> True True 0)
       = (map Some rs @ [None], r) \<and> r_reports r = []"
proof -
  assume "no_holes 0 rs" and "log_length 0 rs + 7 < 2 ^ 32"
  then have "w_dest (AddRecords mem_WriteAt (mk_Writer []) rs) = log_stream 0 rs"
    using memfile.AddRecords_contents [of "mk_Writer []" 0 rs]
    by (simp add: mk_Writer_def length_log_stream)
  then show ?thesis
    using read_stream [OF reads_start, of rs True True] by (simp add: mk_Reader_def)
qed

theorem log_roundtrip_witness:
  "\<exists>r. ReadRecords (Suc 3)
         (mk_Reader \<lparr>sf_data = w_dest (AddRecords mem_WriteAt (mk_Writer [])
                       [[1, 2], [], replicate 40000 7]), sf_fail = \<lambda>_. None\<rparr> True True 0)
       = ([Some [1, 2], Some [], Some (replicate 40000 7), None], r) \<and> r_reports r = []"
proof -
  define x where "x = replicate 40000 (7 :: byte)"
  have x: "length x = 40000" by (simp only: x_def length_replicate)
  have "log_size 0 (Suc (Suc 0)) = 9" "log_size 9 0 = 7" "log_size 16 40000 = 40014"
    "\<not> hole 0 (Suc (Suc 0))" "\<not> hole 9 0" "\<not> hole 16 40000"
    by (simp_all add: log_size_def hole_def)
  then have "no_holes 0 [[1, 2], [], x]" "log_length 0 [[1, 2], [], x] + 7 < 2 ^ 32"
    using x by simp_all
  moreover have "Suc (length [[1, 2], [], x]) = Suc 3" by simp
  ultimately show ?thesis
    using log_roundtrip [of "[[1, 2], [], x]"] by (simp only: x_def list.map append.simps simp_thms)
qed

text \<open>C25: a record that leaves a hole makes the reader lose what follows it in the same block.
  After such a record at the start of the log, a second record that fits the block is written
  without error but never returned, and nothing is reported.\<close>

theorem log_hole_loses_record:
  "hole 0 (length a) \<Longrightarrow> log_size 0 (length a) + length d + 21 < 2 ^ 32 \<Longrightarrow> length d < 32754 \<Longrightarrow>
   \<exists>r. ReadRecords 2
         (mk_Reader \<lparr>sf_data = w_dest (AddRecords mem_WriteAt (mk_Writer []) [a, d]),
                     sf_fail = \<lambda>_. None\<rparr> True True 0)
       = ([Some a, None], r) \<and> r_reports r = []"
proof -
  assume hole: "hole 0 (length a)" and size: "log_size 0 (length a) + length d + 21 < 2 ^ 32"
    and d: "length d < 32754"
  define e where "e = log_size 0 (length a)"
  have al: "e mod 32768 = 0" using hole_aligned [OF hole] by (simp add: e_def)
  have e7: "(e + 7) mod 32768 = 7" using al by (simp add: mod_add_left_eq [symmetric])
  have len: "log_size (e + 7) (length d) = 7 + length d"
    using d by (simp add: log_size_def Let_def e7)
  let ?X = "log_bytes (e + 7) d True"
  define w1 where "w1 = fst (AddRecord mem_WriteAt (mk_Writer []) a)"
  have w1: "w_dest w1 = log_bytes 0 a True" "unat (w_offset w1) = e + 7"
    using memfile.AddRecord_contents [of "mk_Writer []" 0 a] hole size
    by (simp_all add: w1_def mk_Writer_def length_log_bytes_size e_def)
  have "w_dest (fst (AddRecord mem_WriteAt w1 d)) = log_bytes 0 a True @ replicate 7 0 @ ?X"
    using memfile.AddRecord_contents [of w1 "e + 7" d] w1 size len
    by (simp add: length_log_bytes_size e_def)
  then have written: "w_dest (AddRecords mem_WriteAt (mk_Writer []) [a, d]) =
      log_bytes 0 a True @ replicate 7 0 @ ?X"
    by (simp add: AddRecords_def w1_def)
  let ?r = "mk_Reader \<lparr>sf_data = log_bytes 0 a True @ replicate 7 0 @ ?X, sf_fail = \<lambda>_. None\<rparr> True True 0"
  have "reads ?r 0 (log_bytes 0 a True @ replicate 7 0 @ ?X)" by (rule reads_start)
  from read_record [OF this] obtain r1 where
    r1: "ReadRecord ?r = (Some a, r1)" "reads r1 e (replicate 7 0 @ ?X)" "r_reports r1 = r_reports ?r"
    by (auto simp: length_log_bytes_size e_def)
  have "7 + length ?X < 32768" using d len by (simp add: length_log_bytes_size)
  from read_hole [OF r1(2) al this] obtain r2 where
    "ReadRecord r1 = (None, r2)" "r_reports r2 = r_reports r1" by blast
  then show ?thesis using r1 written by (simp add: numeral_2_eq_2 mk_Reader_def)
qed

theorem log_hole_loses_record_witness:
  "\<exists>r. ReadRecords 2
         (mk_Reader \<lparr>sf_data = w_dest (AddRecords mem_WriteAt (mk_Writer [])
                       [replicate 65522 1, [42]]), sf_fail = \<lambda>_. None\<rparr> True True 0)
       = ([Some (replicate 65522 1), None], r) \<and> r_reports r = []"
proof -
  have "hole 0 65522" "log_size 0 65522 = 65536" by (simp_all add: hole_def log_size_def)
  moreover define x where "x = replicate 65522 (1 :: byte)"
  moreover have "length x = 65522" by (simp only: x_def length_replicate)
  ultimately show ?thesis using log_hole_loses_record [of x "[42]"] by (simp flip: x_def)
qed

end
