(* ===== verification/SkipList.thy ===== *)
theory SkipList
  imports Prelude
begin

text \<open>
  The skip list of \<^verbatim>\<open>db/skiplist.h\<close> with the random generator of \<^verbatim>\<open>util/random.h\<close>.
  Nodes live in a list indexed by their address, address 0 is \<open>head_\<close>, and a link is a pair
  of the hint \<open>cmp\<close> and the next address (\<open>None\<close> for \<open>NULL\<close>).  The comparator and the
  extractor are arguments.  Loops that would not end, or that would follow a null pointer, on
  a corrupt list are partial; the lemmas show that they return on every list the operations
  build.  One thread inserts at a time: a compare-and-swap fails only because the pointer it
  expects is not the current one.
\<close>

section \<open>The random generator\<close>

unbundle bit_operations_syntax

definition mk_Random :: "u32 \<Rightarrow> u32" where
  "mk_Random s = (let seed = s AND 0x7fffffff in if seed = 0 \<or> seed = 2147483647 then 1 else seed)"

definition Random_Next :: "u32 \<Rightarrow> u32" where
  "Random_Next seed =
    (let M = 2147483647 :: u32;
         product = (ucast seed :: u64) * 16807;
         seed = ucast (drop_bit 31 product + (product AND ucast M))
     in if seed > M then seed - M else seed)"

section \<open>Nodes\<close>

definition UINT64_MAX :: u64 where "UINT64_MAX = -1"
definition kMaxHeight :: nat where [constants]: "kMaxHeight = 17"

record 'k Node =
  n_cmp :: u64
  n_key :: 'k
  n_ptrs :: "(u64 \<times> nat option) list"

record 'k SkipList =
  sl_nodes :: "'k Node list"
  sl_rnd :: u32

definition NewNode :: "u64 \<Rightarrow> 'k \<Rightarrow> nat \<Rightarrow> 'k Node" where
  "NewNode cmp key height =
    \<lparr>n_cmp = cmp, n_key = key, n_ptrs = replicate height (UINT64_MAX, None)\<rparr>"

definition GetNext :: "'k Node list \<Rightarrow> nat \<Rightarrow> nat \<Rightarrow> u64 \<times> nat option" where
  "GetNext nodes x level = n_ptrs (nodes ! x) ! level"

definition SetNext :: "'k Node list \<Rightarrow> nat \<Rightarrow> nat \<Rightarrow> u64 \<Rightarrow> nat option \<Rightarrow> 'k Node list" where
  "SetNext nodes x n c nxt =
    nodes[x := (nodes ! x)\<lparr>n_ptrs := (n_ptrs (nodes ! x))[n := (c, nxt)]\<rparr>]"

text \<open>The loop of \<open>CasNext\<close> that lowers the hint: \<open>compare_and_swap\<close> returns the old value.\<close>

function CasHint :: "u64 \<Rightarrow> u64 \<Rightarrow> u64 \<Rightarrow> u64" where
  "CasHint new_cmp cur expected =
    (if expected > new_cmp
     then if cur = expected then CasHint new_cmp new_cmp expected
          else CasHint new_cmp cur cur
     else cur)"
  by pat_completeness auto
termination
  by (relation "measure (\<lambda>(new, cur, expected). if expected \<le> new then 0
      else if cur = expected then 2 else if cur > new then 3 else 1)") auto

declare CasHint.simps [simp del]

definition CasNext :: "'k Node list \<Rightarrow> nat \<Rightarrow> nat \<Rightarrow> nat option \<Rightarrow> nat \<Rightarrow> 'k Node list option" where
  "CasNext nodes p n old_node new_node =
    (let (c, nxt) = GetNext nodes p n
     in if nxt = old_node
        then Some (SetNext nodes p n (CasHint (n_cmp (nodes ! new_node)) c UINT64_MAX) (Some new_node))
        else None)"

section \<open>Searching\<close>

definition KeyIsAfterNode :: "('k \<Rightarrow> 'k \<Rightarrow> int) \<Rightarrow> 'k Node list \<Rightarrow> 'k \<Rightarrow> nat option \<Rightarrow> bool" where
  "KeyIsAfterNode compare nodes key n =
    (case n of None \<Rightarrow> False | Some a \<Rightarrow> compare (n_key (nodes ! a)) key < 0)"

text \<open>The two nested loops of \<open>FindGreaterOrEqual\<close> as one: the inner loop runs before each
  turn of the outer one.\<close>

partial_function (option) FindGreaterOrEqual_loop ::
    "('k \<Rightarrow> 'k \<Rightarrow> int) \<Rightarrow> 'k Node list \<Rightarrow> 'k \<Rightarrow> u64 \<Rightarrow> nat \<Rightarrow> nat \<Rightarrow> nat list \<Rightarrow> nat option list
      \<Rightarrow> (nat option \<times> nat list \<times> nat option list) option" where
  "FindGreaterOrEqual_loop compare nodes key cmp x level prev obs =
    (if level > 0 \<and> fst (GetNext nodes x level) > cmp
     then FindGreaterOrEqual_loop compare nodes key cmp x (level - 1)
            (prev[level := x]) (obs[level := None])
     else let (c, nxt) = GetNext nodes x level
          in if c < cmp \<or> KeyIsAfterNode compare nodes key nxt
             then (case nxt of
                     None \<Rightarrow> None
                   | Some y \<Rightarrow> FindGreaterOrEqual_loop compare nodes key cmp y level prev obs)
             else if level = 0 then Some (nxt, prev[level := x], obs[level := nxt])
             else FindGreaterOrEqual_loop compare nodes key cmp x (level - 1)
                    (prev[level := x]) (obs[level := nxt]))"

definition FindGreaterOrEqual ::
    "('k \<Rightarrow> 'k \<Rightarrow> int) \<Rightarrow> ('k \<Rightarrow> u64) \<Rightarrow> 'k SkipList \<Rightarrow> 'k
      \<Rightarrow> (nat option \<times> nat list \<times> nat option list) option" where
  "FindGreaterOrEqual compare extractor sl key =
    FindGreaterOrEqual_loop compare (sl_nodes sl) key (extractor key) 0 (kMaxHeight - 1)
      (replicate kMaxHeight 0) (replicate kMaxHeight None)"

partial_function (option) FindLessThan_loop ::
    "('k \<Rightarrow> 'k \<Rightarrow> int) \<Rightarrow> 'k Node list \<Rightarrow> 'k \<Rightarrow> nat \<Rightarrow> nat \<Rightarrow> nat option" where
  "FindLessThan_loop compare nodes key x level =
    (case snd (GetNext nodes x level) of
       None \<Rightarrow> if level = 0 then Some x else FindLessThan_loop compare nodes key x (level - 1)
     | Some y \<Rightarrow>
         if compare (n_key (nodes ! y)) key \<ge> 0
         then if level = 0 then Some x else FindLessThan_loop compare nodes key x (level - 1)
         else FindLessThan_loop compare nodes key y level)"

definition FindLessThan :: "('k \<Rightarrow> 'k \<Rightarrow> int) \<Rightarrow> 'k SkipList \<Rightarrow> 'k \<Rightarrow> nat option" where
  "FindLessThan compare sl key = FindLessThan_loop compare (sl_nodes sl) key 0 (kMaxHeight - 1)"

partial_function (option) FindLast_loop :: "'k Node list \<Rightarrow> nat \<Rightarrow> nat \<Rightarrow> nat option" where
  "FindLast_loop nodes x level =
    (case snd (GetNext nodes x level) of
       None \<Rightarrow> if level = 0 then Some x else FindLast_loop nodes x (level - 1)
     | Some y \<Rightarrow> FindLast_loop nodes y level)"

definition FindLast :: "'k SkipList \<Rightarrow> nat option" where
  "FindLast sl = FindLast_loop (sl_nodes sl) 0 (kMaxHeight - 1)"

section \<open>Construction and insertion\<close>

text \<open>\<open>any_key\<close> is the key of \<open>head_\<close>, the null pointer in the code.\<close>

definition mk_SkipList :: "('k \<Rightarrow> u64) \<Rightarrow> 'k \<Rightarrow> 'k SkipList" where
  "mk_SkipList extractor any_key =
    \<lparr>sl_nodes = [NewNode (extractor any_key) any_key kMaxHeight], sl_rnd = mk_Random 0xdeadbeef\<rparr>"

text \<open>The loop of \<open>RandomHeight\<close>, counting down from \<open>kMaxHeight\<close>.\<close>

fun RandomHeight_loop :: "nat \<Rightarrow> nat \<Rightarrow> u32 \<Rightarrow> nat \<times> u32" where
  "RandomHeight_loop 0 height seed = (height, seed)"
| "RandomHeight_loop (Suc k) height seed =
    (let seed = Random_Next seed
     in if seed mod 4 = 0 then RandomHeight_loop k (height + 1) seed else (height, seed))"

definition RandomHeight :: "u32 \<Rightarrow> nat \<times> u32" where
  "RandomHeight seed = RandomHeight_loop (kMaxHeight - 1) 1 seed"

text \<open>Advancing past nodes that arrived before the new one.\<close>

partial_function (option) Insert_advance ::
    "('k \<Rightarrow> 'k \<Rightarrow> int) \<Rightarrow> 'k Node list \<Rightarrow> nat \<Rightarrow> nat \<Rightarrow> nat \<Rightarrow> (nat \<times> nat option) option" where
  "Insert_advance compare nodes x i p =
    (let (c, nxt) = GetNext nodes p i
     in if c < n_cmp (nodes ! x) \<or> KeyIsAfterNode compare nodes (n_key (nodes ! x)) nxt
        then (case nxt of None \<Rightarrow> None | Some q \<Rightarrow> Insert_advance compare nodes x i q)
        else Some (p, nxt))"

partial_function (option) Insert_level ::
    "('k \<Rightarrow> 'k \<Rightarrow> int) \<Rightarrow> 'k Node list \<Rightarrow> nat \<Rightarrow> nat \<Rightarrow> nat \<Rightarrow> nat option \<Rightarrow> 'k Node list option" where
  "Insert_level compare nodes x i p n =
    (let c = (case n of Some a \<Rightarrow> n_cmp (nodes ! a) | None \<Rightarrow> UINT64_MAX);
         nodes = SetNext nodes x i c n;
         cas = (if c \<ge> n_cmp (nodes ! x) then CasNext nodes p i n x else None)
     in case cas of
          Some nodes' \<Rightarrow> Some nodes'
        | None \<Rightarrow> (case Insert_advance compare nodes x i p of
                     None \<Rightarrow> None
                   | Some (q, m) \<Rightarrow> Insert_level compare nodes x i q m))"

fun Insert_levels ::
    "('k \<Rightarrow> 'k \<Rightarrow> int) \<Rightarrow> nat \<Rightarrow> nat list \<Rightarrow> nat list \<Rightarrow> nat option list \<Rightarrow> 'k Node list
      \<Rightarrow> 'k Node list option" where
  "Insert_levels compare x [] prev obs nodes = Some nodes"
| "Insert_levels compare x (i # is) prev obs nodes =
    (case Insert_level compare nodes x i (prev ! i) (obs ! i) of
       None \<Rightarrow> None
     | Some nodes' \<Rightarrow> Insert_levels compare x is prev obs nodes')"

definition Insert :: "('k \<Rightarrow> 'k \<Rightarrow> int) \<Rightarrow> ('k \<Rightarrow> u64) \<Rightarrow> 'k SkipList \<Rightarrow> 'k \<Rightarrow> 'k SkipList option" where
  "Insert compare extractor sl key =
    (case FindGreaterOrEqual compare extractor sl key of
       None \<Rightarrow> None
     | Some (x, prev, obs) \<Rightarrow>
         let (height, rnd) = RandomHeight (sl_rnd sl);
             x = length (sl_nodes sl);
             nodes = sl_nodes sl @ [NewNode (extractor key) key height]
         in case Insert_levels compare x [0..<height] prev obs nodes of
              None \<Rightarrow> None
            | Some nodes' \<Rightarrow> Some \<lparr>sl_nodes = nodes', sl_rnd = rnd\<rparr>)"

definition Contains :: "('k \<Rightarrow> 'k \<Rightarrow> int) \<Rightarrow> ('k \<Rightarrow> u64) \<Rightarrow> 'k SkipList \<Rightarrow> 'k \<Rightarrow> bool option" where
  "Contains compare extractor sl key =
    (case FindGreaterOrEqual compare extractor sl key of
       None \<Rightarrow> None
     | Some (x, _, _) \<Rightarrow>
         Some (case x of None \<Rightarrow> False | Some a \<Rightarrow> compare key (n_key (sl_nodes sl ! a)) = 0))"

definition Iter_Next :: "'k SkipList \<Rightarrow> nat \<Rightarrow> nat option" where
  "Iter_Next sl node = snd (GetNext (sl_nodes sl) node 0)"

definition Iter_Prev :: "('k \<Rightarrow> 'k \<Rightarrow> int) \<Rightarrow> 'k SkipList \<Rightarrow> nat \<Rightarrow> nat option option" where
  "Iter_Prev compare sl node =
    (case FindLessThan compare sl (n_key (sl_nodes sl ! node)) of
       None \<Rightarrow> None
     | Some x \<Rightarrow> Some (if x = 0 then None else Some x))"

definition Iter_Seek :: "('k \<Rightarrow> 'k \<Rightarrow> int) \<Rightarrow> ('k \<Rightarrow> u64) \<Rightarrow> 'k SkipList \<Rightarrow> 'k \<Rightarrow> nat option option" where
  "Iter_Seek compare extractor sl target = map_option fst (FindGreaterOrEqual compare extractor sl target)"

definition Iter_SeekToFirst :: "'k SkipList \<Rightarrow> nat option" where
  "Iter_SeekToFirst sl = snd (GetNext (sl_nodes sl) 0 0)"

definition Iter_SeekToLast :: "'k SkipList \<Rightarrow> nat option option" where
  "Iter_SeekToLast sl =
    (case FindLast sl of None \<Rightarrow> None | Some x \<Rightarrow> Some (if x = 0 then None else Some x))"

section \<open>Well-formed lists\<close>

definition height :: "'k Node list \<Rightarrow> nat \<Rightarrow> nat" where
  "height nodes i = length (n_ptrs (nodes ! i))"

definition key_at :: "'k Node list \<Rightarrow> nat \<Rightarrow> 'k" where
  "key_at nodes i = n_key (nodes ! i)"

text \<open>The nodes that are linked at a level.\<close>

definition at_level :: "'k Node list \<Rightarrow> nat \<Rightarrow> nat list \<Rightarrow> nat list" where
  "at_level nodes l xs = filter (\<lambda>i. l < height nodes i) xs"

fun links :: "'k Node list \<Rightarrow> nat \<Rightarrow> nat \<Rightarrow> nat list \<Rightarrow> bool" where
  "links nodes l a [] = (GetNext nodes a l = (UINT64_MAX, None))"
| "links nodes l a (y # ys) = (GetNext nodes a l = (n_cmp (nodes ! y), Some y) \<and> links nodes l y ys)"

definition first :: "nat list \<Rightarrow> nat option" where
  "first xs = (case xs of [] \<Rightarrow> None | x # _ \<Rightarrow> Some x)"

definition node_ok :: "('k \<Rightarrow> u64) \<Rightarrow> ('k \<Rightarrow> bool) \<Rightarrow> 'k Node list \<Rightarrow> nat \<Rightarrow> bool" where
  "node_ok extractor valid nodes i \<longleftrightarrow>
     0 < i \<and> i < length nodes \<and> 1 \<le> height nodes i \<and> height nodes i \<le> kMaxHeight \<and>
     n_cmp (nodes ! i) = extractor (key_at nodes i) \<and> valid (key_at nodes i)"

text \<open>\<open>xs\<close> are the addresses of the entries in order: the keys increase strictly and at each
  level exactly the nodes that are tall enough are linked, with the right hints.\<close>

definition sl_ok :: "('k \<Rightarrow> 'k \<Rightarrow> int) \<Rightarrow> ('k \<Rightarrow> u64) \<Rightarrow> ('k \<Rightarrow> bool) \<Rightarrow> 'k Node list \<Rightarrow> nat list \<Rightarrow> bool" where
  "sl_ok compare extractor valid nodes xs \<longleftrightarrow>
     nodes \<noteq> [] \<and> height nodes 0 = kMaxHeight \<and> distinct xs \<and>
     (\<forall>i \<in> set xs. node_ok extractor valid nodes i) \<and>
     sorted_wrt (\<lambda>i j. compare (key_at nodes i) (key_at nodes j) < 0) xs \<and>
     (\<forall>l < kMaxHeight. links nodes l 0 (at_level nodes l xs))"

lemma at_level_simps [simp]:
  "at_level nodes l [] = []"
  "at_level nodes l (x # xs) = (if l < height nodes x then x # at_level nodes l xs else at_level nodes l xs)"
  "at_level nodes l (xs @ ys) = at_level nodes l xs @ at_level nodes l ys"
  by (simp_all add: at_level_def)

lemma at_level_all: "(\<forall>i \<in> set xs. l < height nodes i) \<Longrightarrow> at_level nodes l xs = xs"
  by (simp add: at_level_def)

lemma links_append: "links nodes l a (ps @ x # qs) \<Longrightarrow> links nodes l x qs"
  by (induction ps arbitrary: a) auto

lemma links_next:
  "links nodes l a ys \<Longrightarrow>
   GetNext nodes a l = (case first ys of None \<Rightarrow> UINT64_MAX | Some y \<Rightarrow> n_cmp (nodes ! y), first ys)"
  by (cases ys) (simp_all add: first_def)

locale skiplist_keys =
  fixes compare :: "'k \<Rightarrow> 'k \<Rightarrow> int" and extractor :: "'k \<Rightarrow> u64" and valid :: "'k \<Rightarrow> bool"
  assumes flip: "valid a \<Longrightarrow> valid b \<Longrightarrow> sgn (compare a b) = - sgn (compare b a)"
    and trans: "valid a \<Longrightarrow> valid b \<Longrightarrow> valid c \<Longrightarrow> compare a b \<le> 0 \<Longrightarrow> compare b c \<le> 0 \<Longrightarrow> compare a c \<le> 0"
    and extractor_mono: "valid a \<Longrightarrow> valid b \<Longrightarrow> compare a b \<le> 0 \<Longrightarrow> extractor a \<le> extractor b"
begin

lemma less_iff: "valid a \<Longrightarrow> valid b \<Longrightarrow> compare a b < 0 \<longleftrightarrow> \<not> compare b a \<le> 0"
  using flip [of a b] by (auto simp: sgn_if split: if_splits)

lemma links_suffix:
  assumes "sl_ok compare extractor valid nodes (as @ bs)" and "0 # as = us @ x # vs"
    and "l < height nodes x" and "l < kMaxHeight"
  shows "links nodes l x (at_level nodes l (vs @ bs))"
proof -
  have L: "links nodes l 0 (at_level nodes l (as @ bs))" using assms(1,4) by (simp add: sl_ok_def)
  show ?thesis
  proof (cases us)
    case Nil
    then show ?thesis using assms(2) L by simp
  next
    case (Cons u us')
    then have "as = us' @ x # vs" using assms(2) by simp
    then show ?thesis using L assms(3) links_append [of nodes l 0 "at_level nodes l us'" x] by simp
  qed
qed

lemma last_at_level:
  assumes "0 # as = us @ x # vs" and "x = 0 \<or> l < height nodes x" and "at_level nodes l vs = []"
    and "x = 0 \<longrightarrow> us = []"
  shows "last (0 # at_level nodes l as) = x"
proof (cases us)
  case Nil
  then show ?thesis using assms by simp
next
  case (Cons u us')
  then have "as = us' @ x # vs" "x \<noteq> 0" using assms(1,4) by auto
  then show ?thesis using assms(2,3) by simp
qed

lemma head_only_first:
  assumes "sl_ok compare extractor valid nodes (as @ bs)" and "0 # as = us @ x # vs"
  shows "x = 0 \<longrightarrow> us = []"
proof -
  have "0 \<notin> set as" using assms(1) by (auto simp: sl_ok_def node_ok_def)
  then show ?thesis using assms(2) by (cases us) auto
qed

text \<open>A search that starts before the target ends at the last smaller node of each level.\<close>

lemma find_loop:
  assumes "sl_ok compare extractor valid nodes (as @ bs)" and "valid key"
    and "\<forall>i \<in> set as. compare (key_at nodes i) key < 0"
    and "\<forall>i \<in> set bs. \<not> compare (key_at nodes i) key < 0"
    and "0 # as = us @ x # vs" and "level < height nodes x" and "level < kMaxHeight"
    and "length prev = kMaxHeight" and "length obs = kMaxHeight"
  shows "\<exists>prev' obs'. FindGreaterOrEqual_loop compare nodes key (extractor key) x level prev obs =
      Some (first bs, prev', obs') \<and> length prev' = kMaxHeight \<and> length obs' = kMaxHeight \<and>
      (\<forall>l \<le> level. prev' ! l = last (0 # at_level nodes l as) \<and>
         (obs' ! l = None \<or> obs' ! l = first (at_level nodes l bs))) \<and>
      (\<forall>l. level < l \<longrightarrow> prev' ! l = prev ! l \<and> obs' ! l = obs ! l)"
  using assms(5-9)
proof (induction "level + length vs" arbitrary: us x vs level prev obs rule: less_induct)
  case less
  note inv = assms(1)
  have ok: "\<forall>i \<in> set (as @ bs). node_ok extractor valid nodes i" using inv by (simp add: sl_ok_def)
  have L: "links nodes level x (at_level nodes level vs @ at_level nodes level bs)"
    using links_suffix [OF inv less.prems(1-3)] by simp
  show ?case
  proof (cases "at_level nodes level vs")
    case Nil
    have last: "last (0 # at_level nodes level as) = x"
      using last_at_level [OF less.prems(1) _ Nil] head_only_first [OF inv less.prems(1)] less.prems(2)
      by blast
    define nxt where "nxt = first (at_level nodes level bs)"
    define c where "c = (case nxt of None \<Rightarrow> UINT64_MAX | Some y \<Rightarrow> n_cmp (nodes ! y))"
    have N: "GetNext nodes x level = (c, nxt)"
      using links_next [OF L] Nil by (simp add: nxt_def c_def)
    have stop: "\<not> c < extractor key \<and> \<not> KeyIsAfterNode compare nodes key nxt"
    proof (cases "at_level nodes level bs")
      case Nil
      then show ?thesis
        by (simp add: c_def nxt_def first_def KeyIsAfterNode_def UINT64_MAX_def)
    next
      case (Cons b rest)
      then have b: "b \<in> set bs" by (metis at_level_def filter_is_subset list.set_intros(1) subsetD)
      then have "node_ok extractor valid nodes b" "\<not> compare (key_at nodes b) key < 0"
        using ok assms(4) by auto
      then have "extractor key \<le> n_cmp (nodes ! b)"
        using less_iff [of "key_at nodes b" key] extractor_mono [of key "key_at nodes b"] assms(2)
        by (auto simp: node_ok_def)
      then show ?thesis using Cons \<open>\<not> compare (key_at nodes b) key < 0\<close>
        by (simp add: c_def nxt_def first_def KeyIsAfterNode_def key_at_def not_less)
    qed
    show ?thesis
    proof (cases "level = 0")
      case True
      have "1 \<le> height nodes i" if "i \<in> set bs" for i
        using ok that by (simp add: node_ok_def)
      then have "at_level nodes 0 bs = bs" by (intro at_level_all) (simp add: Suc_le_eq)
      then have "FindGreaterOrEqual_loop compare nodes key (extractor key) x level prev obs =
          Some (first bs, prev[0 := x], obs[0 := first bs])"
        using stop N True by (subst FindGreaterOrEqual_loop.simps) (simp add: nxt_def)
      then show ?thesis using last True less.prems \<open>at_level nodes 0 bs = bs\<close> by (auto simp: constants)
    next
      case False
      define o1 where "o1 = (if c > extractor key then None else nxt)"
      have o1: "o1 = None \<or> o1 = nxt" by (simp add: o1_def)
      have step: "FindGreaterOrEqual_loop compare nodes key (extractor key) x level prev obs =
          FindGreaterOrEqual_loop compare nodes key (extractor key) x (level - 1)
            (prev[level := x]) (obs[level := o1])"
        using stop N False by (subst FindGreaterOrEqual_loop.simps) (simp add: o1_def)
      have "level - 1 + length vs < level + length vs" "level - 1 < height nodes x" "level - 1 < kMaxHeight"
        using False less.prems(2,3) by auto
      from less.hyps [OF this(1) less.prems(1) this(2,3), of "prev[level := x]" "obs[level := o1]"]
      obtain prev' obs' where R:
        "FindGreaterOrEqual_loop compare nodes key (extractor key) x level prev obs = Some (first bs, prev', obs')"
        "length prev' = kMaxHeight" "length obs' = kMaxHeight"
        "\<forall>l \<le> level - 1. prev' ! l = last (0 # at_level nodes l as) \<and>
         (obs' ! l = None \<or> obs' ! l = first (at_level nodes l bs))"
        "\<forall>l. level - 1 < l \<longrightarrow> prev' ! l = prev[level := x] ! l \<and> obs' ! l = obs[level := o1] ! l"
        using step less.prems(4,5) by auto
      have "prev' ! level = x" "obs' ! level = o1" using R(5) False less.prems(3-5) by auto
      then have "prev' ! l = last (0 # at_level nodes l as) \<and>
         (obs' ! l = None \<or> obs' ! l = first (at_level nodes l bs))" if "l \<le> level" for l
        using R(4) last o1 nxt_def that by (cases "l = level") auto
      then show ?thesis using R(1-3,5) False by auto
    qed
  next
    case (Cons y ys)
    then obtain v1 v2 where v: "vs = v1 @ y # v2" "\<forall>i \<in> set v1. \<not> level < height nodes i" "level < height nodes y"
      by (auto simp: at_level_def filter_eq_Cons_iff)
    have N: "GetNext nodes x level = (n_cmp (nodes ! y), Some y)" using L Cons by simp
    have y: "y \<in> set as" using less.prems(1) v(1) by (cases us) auto
    then have "node_ok extractor valid nodes y" "compare (key_at nodes y) key < 0"
      using ok assms(3) by auto
    then have "n_cmp (nodes ! y) \<le> extractor key" "KeyIsAfterNode compare nodes key (Some y)"
      using extractor_mono [of "key_at nodes y" key] assms(2)
      by (auto simp: node_ok_def KeyIsAfterNode_def key_at_def)
    then have step: "FindGreaterOrEqual_loop compare nodes key (extractor key) x level prev obs =
        FindGreaterOrEqual_loop compare nodes key (extractor key) y level prev obs"
      using N by (subst FindGreaterOrEqual_loop.simps) (simp add: leD)
    have "0 # as = (us @ x # v1) @ y # v2" "level + length v2 < level + length vs"
      using less.prems(1) v(1) by simp_all
    from less.hyps [OF this(2,1) v(3) less.prems(3-5)] show ?thesis unfolding step .
  qed
qed

text \<open>The nodes below and from a key on.\<close>

lemma split_at_key:
  assumes "sl_ok compare extractor valid nodes xs" and "valid key"
  obtains as bs where "xs = as @ bs" "\<forall>i \<in> set as. compare (key_at nodes i) key < 0"
    "\<forall>i \<in> set bs. \<not> compare (key_at nodes i) key < 0"
proof
  let ?P = "\<lambda>i. compare (key_at nodes i) key < 0"
  show "xs = takeWhile ?P xs @ dropWhile ?P xs" by simp
  show "\<forall>i \<in> set (takeWhile ?P xs). ?P i" by (auto dest: set_takeWhileD)
  have ok: "\<forall>i \<in> set xs. valid (key_at nodes i)"
    and sorted: "sorted_wrt (\<lambda>i j. compare (key_at nodes i) (key_at nodes j) < 0) xs"
    using assms(1) by (auto simp: sl_ok_def node_ok_def)
  show "\<forall>i \<in> set (dropWhile ?P xs). \<not> ?P i"
    using ok sorted
  proof (induction xs)
    case (Cons a xs)
    have rest: "\<not> compare (key_at nodes i) key < 0" if "i \<in> set xs" "\<not> ?P a" for i
    proof
      assume "compare (key_at nodes i) key < 0"
      moreover have "compare (key_at nodes a) (key_at nodes i) < 0" using Cons.prems(2) that by simp
      ultimately have "compare (key_at nodes a) key \<le> 0" "compare (key_at nodes i) key < 0"
        using trans [of "key_at nodes a" "key_at nodes i" key] Cons.prems(1) that assms(2) by auto
      then have "compare (key_at nodes a) key = 0" using that(2) by simp
      then have "compare key (key_at nodes a) \<le> 0"
        using less_iff [of "key_at nodes a" key] Cons.prems(1) assms(2) by auto
      then have "compare (key_at nodes i) (key_at nodes a) \<le> 0"
        using trans [of "key_at nodes i" key "key_at nodes a"] \<open>compare (key_at nodes i) key < 0\<close>
          Cons.prems(1) that assms(2) by auto
      then show False
        using less_iff [of "key_at nodes a" "key_at nodes i"] Cons.prems that by auto
    qed
    show ?case
    proof (cases "?P a")
      case True
      have "\<forall>i \<in> set (dropWhile ?P xs). \<not> ?P i"
        by (rule Cons.IH) (use Cons.prems in simp_all)
      then show ?thesis using True by (simp only: dropWhile.simps if_True)
    next
      case False
      then show ?thesis using rest by (auto simp only: dropWhile.simps if_False list.set)
    qed
  qed simp
qed

lemma find_correct:
  assumes "sl_ok compare extractor valid (sl_nodes sl) (as @ bs)" and "valid key"
    and "\<forall>i \<in> set as. compare (key_at (sl_nodes sl) i) key < 0"
    and "\<forall>i \<in> set bs. \<not> compare (key_at (sl_nodes sl) i) key < 0"
  shows "\<exists>prev obs. FindGreaterOrEqual compare extractor sl key = Some (first bs, prev, obs) \<and>
    length prev = kMaxHeight \<and> length obs = kMaxHeight \<and>
    (\<forall>l < kMaxHeight. prev ! l = last (0 # at_level (sl_nodes sl) l as) \<and>
       (obs ! l = None \<or> obs ! l = first (at_level (sl_nodes sl) l bs)))"
proof -
  have "kMaxHeight - 1 < height (sl_nodes sl) 0" using assms(1) by (simp add: sl_ok_def constants)
  moreover have "0 # as = [] @ 0 # as" by simp
  ultimately have "\<exists>prev' obs'. FindGreaterOrEqual_loop compare (sl_nodes sl) key (extractor key) 0
      (kMaxHeight - 1) (replicate kMaxHeight 0) (replicate kMaxHeight None) =
      Some (first bs, prev', obs') \<and> length prev' = kMaxHeight \<and> length obs' = kMaxHeight \<and>
      (\<forall>l \<le> kMaxHeight - 1. prev' ! l = last (0 # at_level (sl_nodes sl) l as) \<and>
         (obs' ! l = None \<or> obs' ! l = first (at_level (sl_nodes sl) l bs)))"
    using find_loop [OF assms, of "[]" 0 as "kMaxHeight - 1" "replicate kMaxHeight 0"
        "replicate kMaxHeight None"] by (auto simp: constants)
  moreover have "l \<le> kMaxHeight - 1 \<longleftrightarrow> l < kMaxHeight" for l by (auto simp: constants)
  ultimately show ?thesis by (simp add: FindGreaterOrEqual_def)
qed

end

section \<open>Insertion keeps the list well-formed\<close>

lemma CasHint_done: "e \<le> new \<Longrightarrow> CasHint new c e = c"
  by (subst CasHint.simps) (simp add: leD)

lemma CasHint_min: "CasHint new cur UINT64_MAX = (if cur > new then new else cur)"
proof (cases "new = UINT64_MAX")
  case True
  then show ?thesis by (simp add: CasHint_done UINT64_MAX_def)
next
  case False
  then have max: "new < UINT64_MAX" by (simp add: UINT64_MAX_def word_order.not_eq_extremum)
  have swap: "CasHint new e e = new" if "new < e" for e
  proof -
    have "CasHint new e e = CasHint new new e" using that by (subst CasHint.simps) simp
    also have "\<dots> = CasHint new new new" using that by (subst CasHint.simps) auto
    finally show ?thesis by (simp add: CasHint_done)
  qed
  show ?thesis
  proof (cases "cur = UINT64_MAX")
    case True
    then show ?thesis using swap [OF max] max by simp
  next
    case False
    then have "CasHint new cur UINT64_MAX = CasHint new cur cur" using max by (subst CasHint.simps) simp
    then show ?thesis using swap [of cur] CasHint_done [of cur new cur] by auto
  qed
qed

lemma SetNext_nth:
  "SetNext nodes y l c n ! i =
    (if i = y \<and> y < length nodes then (nodes ! y)\<lparr>n_ptrs := (n_ptrs (nodes ! y))[l := (c, n)]\<rparr>
     else nodes ! i)"
  by (cases "y < length nodes") (simp_all add: SetNext_def nth_list_update list_update_beyond)

lemma SetNext_simps [simp]:
  "length (SetNext nodes y l c n) = length nodes"
  "n_cmp (SetNext nodes y l c n ! i) = n_cmp (nodes ! i)"
  "n_key (SetNext nodes y l c n ! i) = n_key (nodes ! i)"
  "key_at (SetNext nodes y l c n) i = key_at nodes i"
  "height (SetNext nodes y l c n) i = height nodes i"
  by (simp_all add: SetNext_nth key_at_def height_def) (simp add: SetNext_def)

lemma GetNext_SetNext:
  assumes "y < length nodes" and "l < height nodes y"
  shows "GetNext (SetNext nodes y l c n) z k = (if z = y \<and> k = l then (c, n) else GetNext nodes z k)"
  using assms by (auto simp: GetNext_def SetNext_def height_def nth_list_update)

lemma SetNext_twice: "SetNext (SetNext nodes y l c n) y l d m = SetNext nodes y l d m"
  by (cases "y < length nodes") (simp_all add: SetNext_def list_update_beyond not_less)

lemma links_cong:
  assumes "\<forall>z \<in> set (a # ys). GetNext nodes' z l = GetNext nodes z l"
    and "\<forall>z. n_cmp (nodes' ! z) = n_cmp (nodes ! z)"
  shows "links nodes' l a ys = links nodes l a ys"
  using assms(1)
proof (induction ys arbitrary: a)
  case (Cons y ys)
  then show ?case using assms(2) by auto
qed simp

lemma links_insert:
  assumes "links nodes l a (A @ B)" and "p = last (a # A)" and "distinct (a # A @ B)"
    and "x \<notin> set (a # A @ B)" and "p < length nodes" "l < height nodes p" "x < length nodes" "l < height nodes x"
  defines "c \<equiv> (case first B of None \<Rightarrow> UINT64_MAX | Some b \<Rightarrow> n_cmp (nodes ! b))"
  shows "links (SetNext (SetNext nodes x l c (first B)) p l (n_cmp (nodes ! x)) (Some x)) l a (A @ x # B)"
  using assms(1-4)
proof (induction A arbitrary: a)
  case Nil
  let ?n = "SetNext (SetNext nodes x l c (first B)) p l (n_cmp (nodes ! x)) (Some x)"
  have ap: "a = p" using Nil.prems(2) by simp
  note prems = Nil.prems(1,3,4) [unfolded ap, simplified]
  have G: "GetNext ?n z k = (if z = p \<and> k = l then (n_cmp (nodes ! x), Some x)
      else if z = x \<and> k = l then (c, first B) else GetNext nodes z k)" for z k
    using assms(5-8) by (simp add: GetNext_SetNext)
  have "links ?n l x B"
  proof (cases B)
    case Nil
    then show ?thesis using prems G [of x l] by (simp add: c_def first_def)
  next
    case (Cons b B')
    have "links ?n l b B' = links nodes l b B'"
      by (rule links_cong) (use prems Cons assms(5-8) in \<open>auto simp: GetNext_SetNext\<close>)
    then show ?thesis using prems Cons G [of x l] by (simp add: c_def first_def)
  qed
  then show ?case unfolding ap by (simp add: G)
next
  case (Cons y A)
  let ?n = "SetNext (SetNext nodes x l c (first B)) p l (n_cmp (nodes ! x)) (Some x)"
  have "p \<in> set (y # A)" unfolding Cons.prems(2) last_ConsR [OF list.distinct(2)]
    by (rule last_in_set) simp
  then have "p \<noteq> a" using Cons.prems(3) by (metis append_Cons distinct.simps(2) set_append UnI1)
  then have "GetNext ?n a l = GetNext nodes a l"
    using assms(5-8) Cons.prems(4) by (simp add: GetNext_SetNext)
  then show ?case using Cons.IH [of y] Cons.prems by simp
qed

lemma links_last:
  "links nodes l a (A @ B) \<Longrightarrow> GetNext nodes (last (a # A)) l =
    (case first B of None \<Rightarrow> UINT64_MAX | Some b \<Rightarrow> n_cmp (nodes ! b), first B)"
  by (induction A arbitrary: a) (auto dest: links_next)

text \<open>The new node is spliced in, whether the observed successor was the right one or had to
  be looked up again.\<close>

lemma Insert_level_direct:
  fixes nodes x l p B
  defines "c \<equiv> (case first B of None \<Rightarrow> UINT64_MAX | Some b \<Rightarrow> n_cmp (nodes ! b))"
  assumes "GetNext nodes p l = (c, first B)" and "n_cmp (nodes ! x) \<le> c" and "p \<noteq> x"
    and "x < length nodes" and "l < height nodes x"
  shows "Insert_level compare nodes x l p (first B) =
    Some (SetNext (SetNext nodes x l c (first B)) p l (n_cmp (nodes ! x)) (Some x))"
proof -
  let ?n = "SetNext nodes x l c (first B)"
  have "CasHint (n_cmp (nodes ! x)) c UINT64_MAX = n_cmp (nodes ! x)"
    using assms(3) by (auto simp: CasHint_min)
  moreover have "GetNext ?n p l = (c, first B)"
    using assms(2,4-6) by (simp add: GetNext_SetNext)
  ultimately have "CasNext ?n p l (first B) x = Some (SetNext ?n p l (n_cmp (nodes ! x)) (Some x))"
    by (simp add: CasNext_def)
  moreover have "(case first B of Some a \<Rightarrow> n_cmp (nodes ! a) | None \<Rightarrow> UINT64_MAX) = c"
    by (simp add: c_def)
  ultimately show ?thesis
    using assms(3) by (subst Insert_level.simps) (simp add: Let_def)
qed

lemma Insert_level_correct:
  fixes nodes x l p B
  defines "c \<equiv> (case first B of None \<Rightarrow> UINT64_MAX | Some b \<Rightarrow> n_cmp (nodes ! b))"
  assumes "GetNext nodes p l = (c, first B)" and "n_cmp (nodes ! x) \<le> c" and "p \<noteq> x"
    and "x < length nodes" and "l < height nodes x"
    and "\<not> KeyIsAfterNode compare nodes (n_key (nodes ! x)) (first B)" and "n = None \<or> n = first B"
  shows "Insert_level compare nodes x l p n =
    Some (SetNext (SetNext nodes x l c (first B)) p l (n_cmp (nodes ! x)) (Some x))"
proof (cases "n = first B")
  case True
  then show ?thesis using Insert_level_direct assms(2-6) unfolding c_def by blast
next
  case False
  then have n: "n = None" "first B \<noteq> None" using assms(8) by auto
  let ?n = "SetNext nodes x l UINT64_MAX None"
  have G: "GetNext ?n p l = (c, first B)" using assms(2,4-6) by (simp add: GetNext_SetNext)
  have "CasNext ?n p l None x = None" using n(2) by (simp add: CasNext_def G)
  moreover have "Insert_advance compare ?n x l p = Some (p, first B)"
    using assms(3,7) G
    by (subst Insert_advance.simps) (simp add: KeyIsAfterNode_def leD split: option.splits)
  ultimately have "Insert_level compare nodes x l p n = Insert_level compare ?n x l p (first B)"
    by (subst Insert_level.simps) (simp add: n(1) Let_def)
  also have "\<dots> = Some (SetNext (SetNext ?n x l c (first B)) p l (n_cmp (nodes ! x)) (Some x))"
  proof -
    have c': "(case first B of None \<Rightarrow> UINT64_MAX | Some b \<Rightarrow> n_cmp (?n ! b)) = c"
      by (cases "first B") (simp_all add: c_def)
    show ?thesis
      using Insert_level_direct [of ?n p l B x compare, unfolded c'] G assms(3-6) by simp
  qed
  finally show ?thesis by (simp add: SetNext_twice)
qed

text \<open>What stays while the levels are linked one by one: below level \<open>i\<close> the new node \<open>x\<close> is
  in the chains, from \<open>i\<close> on it is not.\<close>

definition linked_below ::
    "'k Node list \<Rightarrow> nat list \<Rightarrow> nat \<Rightarrow> nat list \<Rightarrow> nat \<Rightarrow> 'k Node list \<Rightarrow> bool" where
  "linked_below nodes as x bs i nodes' \<longleftrightarrow>
     length nodes' = length nodes \<and>
     (\<forall>j. n_cmp (nodes' ! j) = n_cmp (nodes ! j) \<and> n_key (nodes' ! j) = n_key (nodes ! j) \<and>
          height nodes' j = height nodes j) \<and>
     (\<forall>l < kMaxHeight. links nodes' l 0
        (at_level nodes l as @ (if l < i \<and> l < height nodes x then [x] else []) @ at_level nodes l bs))"

lemma linked_below_step:
  assumes "linked_below nodes as x bs i nodes'" and "i < height nodes x" and "i < kMaxHeight"
    and "distinct (0 # as @ bs)" and "x \<notin> set (0 # as @ bs)" and "x < length nodes"
    and "\<forall>j \<in> set (0 # as @ bs). j < length nodes" and "height nodes 0 = kMaxHeight"
    and "\<forall>b \<in> set bs. n_cmp (nodes ! x) \<le> n_cmp (nodes ! b) \<and>
           \<not> compare (n_key (nodes ! b)) (n_key (nodes ! x)) < 0"
    and "p = last (0 # at_level nodes i as)" and "n = None \<or> n = first (at_level nodes i bs)"
  shows "\<exists>nodes''. Insert_level compare nodes' x i p n = Some nodes'' \<and>
    linked_below nodes as x bs (Suc i) nodes''"
proof -
  let ?A = "at_level nodes i as" and ?B = "at_level nodes i bs"
  have same: "length nodes' = length nodes" "n_cmp (nodes' ! j) = n_cmp (nodes ! j)"
    "n_key (nodes' ! j) = n_key (nodes ! j)" "height nodes' j = height nodes j" for j
    using assms(1) by (simp_all add: linked_below_def)
  have sub: "set ?A \<subseteq> set as" "set ?B \<subseteq> set bs" by (auto simp: at_level_def)
  have "links nodes' i 0 (?A @ (if i < i \<and> i < height nodes x then [x] else []) @ ?B)"
    using assms(1,3) unfolding linked_below_def by blast
  then have L: "links nodes' i 0 (?A @ ?B)" by simp
  have pin: "p \<in> set (0 # ?A)" unfolding assms(10) by (rule last_in_set) simp
  then have p: "p < length nodes" "p \<noteq> x" "i < height nodes p"
    using sub assms(3,5,7,8) by (auto simp: at_level_def)
  define c where "c = (case first ?B of None \<Rightarrow> UINT64_MAX | Some b \<Rightarrow> n_cmp (nodes' ! b))"
  have G: "GetNext nodes' p i = (c, first ?B)"
    using links_last [OF L] assms(10) by (simp add: c_def)
  have le: "n_cmp (nodes' ! x) \<le> c" "\<not> KeyIsAfterNode compare nodes' (n_key (nodes' ! x)) (first ?B)"
    using sub(2) assms(9)
    by (cases ?B; auto simp: c_def first_def KeyIsAfterNode_def same UINT64_MAX_def)+
  define nodes'' where
    "nodes'' = SetNext (SetNext nodes' x i c (first ?B)) p i (n_cmp (nodes' ! x)) (Some x)"
  have "Insert_level compare nodes' x i p n = Some nodes''"
    unfolding nodes''_def c_def
    by (rule Insert_level_correct) (use G le p assms(2,6,11) in \<open>simp_all add: same c_def\<close>)
  moreover have "linked_below nodes as x bs (Suc i) nodes''"
  proof -
    have "links nodes'' i 0 (?A @ x # ?B)"
      unfolding nodes''_def c_def
      by (rule links_insert)
        (use L assms(2,4,5,6,10) p sub same in \<open>auto simp: at_level_def\<close>)
    moreover have "links nodes'' l 0 ys = links nodes' l 0 ys" if "l \<noteq> i" for l ys
      by (rule links_cong)
        (use p assms(2,6) that in \<open>simp_all add: nodes''_def GetNext_SetNext same\<close>)
    moreover have "n_cmp (nodes'' ! j) = n_cmp (nodes ! j)" "n_key (nodes'' ! j) = n_key (nodes ! j)"
      "height nodes'' j = height nodes j" "length nodes'' = length nodes" for j
      by (simp_all add: nodes''_def same)
    ultimately show ?thesis
      using assms(1,2) by (auto simp: linked_below_def less_Suc_eq)
  qed
  ultimately show ?thesis by blast
qed

lemma Insert_levels_correct:
  assumes "linked_below nodes as x bs i nodes'" and "i \<le> h" and "h = height nodes x" and "h \<le> kMaxHeight"
    and "distinct (0 # as @ bs)" and "x \<notin> set (0 # as @ bs)" and "x < length nodes"
    and "\<forall>j \<in> set (0 # as @ bs). j < length nodes" and "height nodes 0 = kMaxHeight"
    and "\<forall>b \<in> set bs. n_cmp (nodes ! x) \<le> n_cmp (nodes ! b) \<and>
           \<not> compare (n_key (nodes ! b)) (n_key (nodes ! x)) < 0"
    and "\<forall>l < kMaxHeight. prev ! l = last (0 # at_level nodes l as) \<and>
       (obs ! l = None \<or> obs ! l = first (at_level nodes l bs))"
  shows "\<exists>nodes''. Insert_levels compare x [i..<h] prev obs nodes' = Some nodes'' \<and>
    linked_below nodes as x bs h nodes''"
  using assms(1,2)
proof (induction "h - i" arbitrary: i nodes')
  case (Suc k)
  then have i: "i < h" by simp
  have "i < kMaxHeight" using i assms(4) by simp
  with assms(11) have "prev ! i = last (0 # at_level nodes i as)"
    "obs ! i = None \<or> obs ! i = first (at_level nodes i bs)" by blast+
  from linked_below_step [of nodes as x bs i nodes' compare, OF Suc.prems(1) _ \<open>i < kMaxHeight\<close>
      assms(5-10) this] i assms(3)
  obtain n2 where n2: "Insert_level compare nodes' x i (prev ! i) (obs ! i) = Some n2"
    "linked_below nodes as x bs (Suc i) n2" by auto
  from Suc.hyps(1) [of "Suc i", OF _ n2(2)] Suc.hyps(2) i show ?case
    using n2(1) by (simp add: upt_conv_Cons)
qed simp

lemma RandomHeight_loop_bounds:
  "h \<le> fst (RandomHeight_loop k h seed) \<and> fst (RandomHeight_loop k h seed) \<le> h + k"
proof (induction k arbitrary: h seed)
  case (Suc k)
  show ?case using Suc [of "Suc h" "Random_Next seed"] by (auto simp: Let_def)
qed simp

lemma RandomHeight_bounds: "1 \<le> fst (RandomHeight seed)" "fst (RandomHeight seed) \<le> kMaxHeight"
  using RandomHeight_loop_bounds [of 1 16 seed] by (simp_all add: RandomHeight_def constants)

text \<open>The keys of a well-formed list in order: the list the structure stands for.\<close>

definition sl_rep ::
    "('k \<Rightarrow> 'k \<Rightarrow> int) \<Rightarrow> ('k \<Rightarrow> u64) \<Rightarrow> ('k \<Rightarrow> bool) \<Rightarrow> 'k SkipList \<Rightarrow> 'k list \<Rightarrow> bool" where
  "sl_rep compare extractor valid sl ks \<longleftrightarrow>
     (\<exists>xs. sl_ok compare extractor valid (sl_nodes sl) xs \<and> map (key_at (sl_nodes sl)) xs = ks)"

text \<open>The specification of insertion: place the key before the first that is not below it.\<close>

definition insert_before :: "('k \<Rightarrow> 'k \<Rightarrow> int) \<Rightarrow> 'k \<Rightarrow> 'k list \<Rightarrow> 'k list" where
  "insert_before compare key ks =
    takeWhile (\<lambda>k. compare k key < 0) ks @ key # dropWhile (\<lambda>k. compare k key < 0) ks"

lemma insert_before_append:
  "\<forall>k \<in> set as. compare k key < 0 \<Longrightarrow> \<forall>k \<in> set bs. \<not> compare k key < 0 \<Longrightarrow>
   insert_before compare key (as @ bs) = as @ key # bs"
  by (cases bs) (simp_all add: insert_before_def takeWhile_append2 dropWhile_append2)

lemma mk_SkipList_rep: "sl_rep compare extractor valid (mk_SkipList ext k) []"
  by (simp add: sl_rep_def sl_ok_def mk_SkipList_def NewNode_def height_def GetNext_def constants)

context skiplist_keys
begin

lemma Insert_correct:
  assumes ok: "sl_ok compare extractor valid (sl_nodes sl) (as @ bs)" and key: "valid key"
    and as: "\<forall>i \<in> set as. compare (key_at (sl_nodes sl) i) key < 0"
    and bs: "\<forall>i \<in> set bs. compare (key_at (sl_nodes sl) i) key > 0"
  shows "\<exists>sl'. Insert compare extractor sl key = Some sl' \<and>
    sl_ok compare extractor valid (sl_nodes sl') (as @ length (sl_nodes sl) # bs) \<and>
    (\<forall>i < length (sl_nodes sl). key_at (sl_nodes sl') i = key_at (sl_nodes sl) i) \<and>
    key_at (sl_nodes sl') (length (sl_nodes sl)) = key"
proof -
  define nodes where "nodes = sl_nodes sl"
  define x where "x = length nodes"
  obtain h rnd where H: "RandomHeight (sl_rnd sl) = (h, rnd)" by fastforce
  then have h: "1 \<le> h" "h \<le> kMaxHeight" using RandomHeight_bounds [of "sl_rnd sl"] by simp_all
  define n1 where "n1 = nodes @ [NewNode (extractor key) key h]"
  have "\<forall>i \<in> set bs. \<not> compare (key_at (sl_nodes sl) i) key < 0" using bs by auto
  from find_correct [OF ok key as this] obtain prev obs where
    F: "FindGreaterOrEqual compare extractor sl key = Some (first bs, prev, obs)"
    and po: "\<forall>l < kMaxHeight. prev ! l = last (0 # at_level nodes l as) \<and>
       (obs ! l = None \<or> obs ! l = first (at_level nodes l bs))" by (auto simp: nodes_def)
  have nok: "\<forall>i \<in> set (as @ bs). node_ok extractor valid nodes i" and d: "distinct (as @ bs)"
    and ne: "nodes \<noteq> []" and h0: "height nodes 0 = kMaxHeight"
    and lk: "\<forall>l < kMaxHeight. links nodes l 0 (at_level nodes l (as @ bs))"
    and sw: "sorted_wrt (\<lambda>i j. compare (key_at nodes i) (key_at nodes j) < 0) (as @ bs)"
    using ok by (simp_all add: sl_ok_def nodes_def)
  have lt: "\<forall>j \<in> set (0 # as @ bs). j < length nodes" using nok ne by (auto simp: node_ok_def)
  then have old: "n1 ! j = nodes ! j" if "j \<in> set (0 # as @ bs)" for j
  proof -
    have "j < length nodes" using lt that by blast
    then show ?thesis by (simp add: n1_def nth_append)
  qed
  then have oldh: "height n1 j = height nodes j" "key_at n1 j = key_at nodes j"
    if "j \<in> set (0 # as @ bs)" for j
    using that by (simp_all add: height_def key_at_def)
  have new: "n1 ! x = NewNode (extractor key) key h" "height n1 x = h" "key_at n1 x = key"
    by (simp_all add: n1_def x_def height_def key_at_def NewNode_def)
  have lev: "at_level n1 l as = at_level nodes l as" "at_level n1 l bs = at_level nodes l bs" for l
    using oldh(1) by (simp_all add: at_level_def cong: filter_cong)
  have l1: "links n1 l 0 ys = links nodes l 0 ys" if "set ys \<subseteq> set (as @ bs)" for l ys
  proof -
    have "links n1 l a ys = links nodes l a ys" if "a \<in> set (0 # as @ bs)" for a
      using that \<open>set ys \<subseteq> set (as @ bs)\<close>
      by (induction ys arbitrary: a) (auto simp: GetNext_def old)
    then show ?thesis by simp
  qed
  have x: "x \<notin> set (0 # as @ bs)" "x < length n1" using lt by (auto simp: x_def n1_def)
  have start: "linked_below n1 as x bs 0 n1"
  proof -
    have "links n1 l 0 (at_level n1 l as @ at_level n1 l bs)" if "l < kMaxHeight" for l
    proof -
      have "set (at_level nodes l as @ at_level nodes l bs) \<subseteq> set (as @ bs)"
        by (auto simp: at_level_def)
      then show ?thesis using lk l1 that by (simp add: lev)
    qed
    then show ?thesis by (simp add: linked_below_def)
  qed
  have above: "\<forall>b \<in> set bs. n_cmp (n1 ! x) \<le> n_cmp (n1 ! b) \<and>
      \<not> compare (n_key (n1 ! b)) (n_key (n1 ! x)) < 0"
  proof
    fix b assume b: "b \<in> set bs"
    then have nb: "node_ok extractor valid nodes b" using nok by simp
    then have "compare key (key_at nodes b) \<le> 0"
      using less_iff [of key "key_at nodes b"] bs b key by (auto simp: nodes_def node_ok_def)
    then have "extractor key \<le> extractor (key_at nodes b)"
      using extractor_mono nb key by (simp add: node_ok_def)
    then show "n_cmp (n1 ! x) \<le> n_cmp (n1 ! b) \<and> \<not> compare (n_key (n1 ! b)) (n_key (n1 ! x)) < 0"
      using nb b bs old [of b] new by (auto simp: NewNode_def node_ok_def key_at_def nodes_def)
  qed
  have po1: "\<forall>l < kMaxHeight. prev ! l = last (0 # at_level n1 l as) \<and>
       (obs ! l = None \<or> obs ! l = first (at_level n1 l bs))" using po by (simp add: lev)
  have lt1: "\<forall>j \<in> set (0 # as @ bs). j < length n1" using lt by (auto simp: n1_def intro: less_SucI)
  have d0: "distinct (0 # as @ bs)" using d nok by (auto simp: node_ok_def)
  have h01: "height n1 0 = kMaxHeight" using oldh(1) [of 0] h0 by simp
  from Insert_levels_correct [of n1 as x bs 0 n1 h compare prev obs, OF start _ new(2) [symmetric] h(2) d0 x lt1 h01 above po1]
  obtain n2 where n2: "Insert_levels compare x [0..<h] prev obs n1 = Some n2"
    "linked_below n1 as x bs h n2" by auto
  have same: "length n2 = length n1" "n_cmp (n2 ! j) = n_cmp (n1 ! j)"
    "n_key (n2 ! j) = n_key (n1 ! j)" "height n2 j = height n1 j" for j
    using n2(2) by (simp_all add: linked_below_def)
  have "Insert compare extractor sl key = Some \<lparr>sl_nodes = n2, sl_rnd = rnd\<rparr>"
    using F H n2(1) by (simp add: Insert_def n1_def nodes_def x_def)
  moreover have "sl_ok compare extractor valid n2 (as @ x # bs)"
    unfolding sl_ok_def
  proof (intro conjI ballI allI impI)
    show "n2 \<noteq> []" using same(1) by (auto simp: n1_def)
    show "height n2 0 = kMaxHeight" using same(4) h01 by simp
    show "distinct (as @ x # bs)" using d x by auto
    show "node_ok extractor valid n2 i" if "i \<in> set (as @ x # bs)" for i
    proof (cases "i = x")
      case True
      then show ?thesis using same new h key lt x
        by (auto simp: node_ok_def key_at_def NewNode_def)
    next
      case False
      then have i: "i \<in> set (as @ bs)" using that by auto
      then have "node_ok extractor valid nodes i" "i < length n1" using nok lt1 by auto
      then show ?thesis using old [of i] oldh [of i] i
        by (simp add: node_ok_def key_at_def same)
    qed
    have k2: "key_at n2 i = (if i = x then key else key_at nodes i)" if "i \<in> set (as @ x # bs)" for i
      using that oldh(2) [of i] new(3) same(3) [of i] by (auto simp: key_at_def)
    have "compare key (key_at nodes b) < 0" if "b \<in> set bs" for b
      using less_iff [of key "key_at nodes b"] that bs nok key by (auto simp: nodes_def node_ok_def)
    then show "sorted_wrt (\<lambda>i j. compare (key_at n2 i) (key_at n2 j) < 0) (as @ x # bs)"
      using sw as x k2 unfolding sorted_wrt_append
      by (auto simp: nodes_def intro: sorted_wrt_mono_rel [rotated])
    show "links n2 l 0 (at_level n2 l (as @ x # bs))" if "l < kMaxHeight" for l
    proof -
      have "at_level n2 l ys = at_level n1 l ys" for ys by (simp add: at_level_def same)
      then show ?thesis using n2(2) that by (auto simp: linked_below_def new(2) split: if_splits)
    qed
  qed
  moreover have "key_at n2 i = key_at nodes i" if "i < length nodes" for i
    using that same(3) [of i] by (simp add: key_at_def n1_def nth_append)
  ultimately show ?thesis using new(3) same(3) [of x] by (auto simp: nodes_def x_def key_at_def)
qed

end


section \<open>The iterator\<close>

text \<open>The position of an iterator is a node or \<open>NULL\<close>; \<open>key()\<close> and \<open>Next()\<close> require a node.\<close>

context skiplist_keys
begin

lemma level0:
  assumes "sl_ok compare extractor valid nodes xs"
  shows "links nodes 0 0 xs"
proof -
  have "at_level nodes 0 xs = xs"
  proof (rule at_level_all, rule ballI)
    fix i assume "i \<in> set xs"
    then have "1 \<le> height nodes i" using assms by (simp add: sl_ok_def node_ok_def)
    then show "0 < height nodes i" by simp
  qed
  moreover have "links nodes 0 0 (at_level nodes 0 xs)" using assms by (simp add: sl_ok_def constants)
  ultimately show ?thesis by simp
qed

lemma SeekToFirst_correct:
  "sl_ok compare extractor valid (sl_nodes sl) xs \<Longrightarrow> Iter_SeekToFirst sl = first xs"
  using links_next [OF level0] by (simp add: Iter_SeekToFirst_def)

lemma Next_correct:
  "sl_ok compare extractor valid (sl_nodes sl) (xs @ a # ys) \<Longrightarrow> Iter_Next sl a = first ys"
  using links_next [OF links_append [OF level0]] by (simp add: Iter_Next_def)

lemma Seek_correct:
  assumes "sl_ok compare extractor valid (sl_nodes sl) (as @ bs)" and "valid key"
    and "\<forall>i \<in> set as. compare (key_at (sl_nodes sl) i) key < 0"
    and "\<forall>i \<in> set bs. \<not> compare (key_at (sl_nodes sl) i) key < 0"
  shows "Iter_Seek compare extractor sl key = Some (first bs)"
  using find_correct [OF assms] by (auto simp: Iter_Seek_def)

text \<open>The two searches without hints.\<close>

lemma FindLessThan_loop_correct:
  assumes "sl_ok compare extractor valid nodes (as @ bs)"
    and "\<forall>i \<in> set as. compare (key_at nodes i) key < 0"
    and "\<forall>i \<in> set bs. \<not> compare (key_at nodes i) key < 0"
    and "0 # as = us @ x # vs" and "level < height nodes x" and "level < kMaxHeight"
  shows "FindLessThan_loop compare nodes key x level = Some (last (0 # as))"
  using assms(4-6)
proof (induction "level + length vs" arbitrary: us x vs level rule: less_induct)
  case less
  note inv = assms(1)
  have L: "links nodes level x (at_level nodes level vs @ at_level nodes level bs)"
    using links_suffix [OF inv less.prems] by simp
  have mem: "y \<in> set ys" if "at_level nodes level ys = y # zs" for y ys zs
    using that by (metis at_level_def filter_is_subset list.set_intros(1) subsetD)
  show ?case
  proof (cases "at_level nodes level vs")
    case Nil
    have last: "last (0 # at_level nodes level as) = x"
      using last_at_level [OF less.prems(1) _ Nil] head_only_first [OF inv less.prems(1)] less.prems(2)
      by blast
    have stop: "case snd (GetNext nodes x level) of None \<Rightarrow> True | Some y \<Rightarrow> compare (n_key (nodes ! y)) key \<ge> 0"
      using links_next [OF L] Nil mem [of bs] assms(3)
      by (cases "at_level nodes level bs") (auto simp: first_def key_at_def not_less)
    show ?thesis
    proof (cases "level = 0")
      case True
      have "at_level nodes 0 as = as"
      proof (rule at_level_all, rule ballI)
        fix i assume "i \<in> set as"
        then have "1 \<le> height nodes i" using inv by (simp add: sl_ok_def node_ok_def)
        then show "0 < height nodes i" by simp
      qed
      then show ?thesis using stop last True
        by (subst FindLessThan_loop.simps) (auto split: option.splits)
    next
      case False
      have "level - 1 + length vs < level + length vs" "level - 1 < height nodes x" "level - 1 < kMaxHeight"
        using False less.prems(2,3) by auto
      from less.hyps [OF this(1) less.prems(1) this(2,3)] show ?thesis
        using stop False by (subst FindLessThan_loop.simps) (auto split: option.splits)
    qed
  next
    case (Cons y ys)
    then obtain v1 v2 where v: "vs = v1 @ y # v2" "level < height nodes y"
      by (auto simp: at_level_def filter_eq_Cons_iff)
    have N: "snd (GetNext nodes x level) = Some y" using L Cons by simp
    have "y \<in> set as" using less.prems(1) v(1) by (cases us) auto
    then have "compare (n_key (nodes ! y)) key < 0" using assms(2) by (simp add: key_at_def)
    then have step: "FindLessThan_loop compare nodes key x level = FindLessThan_loop compare nodes key y level"
      using N by (subst FindLessThan_loop.simps) simp
    have "0 # as = (us @ x # v1) @ y # v2" "level + length v2 < level + length vs"
      using less.prems(1) v(1) by simp_all
    from less.hyps [OF this(2,1) v(2) less.prems(3)] show ?thesis unfolding step .
  qed
qed

lemma FindLast_loop_correct:
  assumes "sl_ok compare extractor valid nodes as"
    and "0 # as = us @ x # vs" and "level < height nodes x" and "level < kMaxHeight"
  shows "FindLast_loop nodes x level = Some (last (0 # as))"
  using assms(2-4)
proof (induction "level + length vs" arbitrary: us x vs level rule: less_induct)
  case less
  have inv: "sl_ok compare extractor valid nodes (as @ [])" using assms(1) by simp
  have L: "links nodes level x (at_level nodes level vs)"
    using links_suffix [OF inv less.prems] by simp
  show ?case
  proof (cases "at_level nodes level vs")
    case Nil
    have stop: "snd (GetNext nodes x level) = None" using L Nil by simp
    show ?thesis
    proof (cases "level = 0")
      case True
      have "vs = []"
      proof (rule ccontr)
        assume "vs \<noteq> []"
        moreover have "set vs \<subseteq> set as" using less.prems(1) by (cases us) auto
        ultimately have "hd vs \<in> set vs" "hd vs \<in> set as" by auto
        then have "1 \<le> height nodes (hd vs)" using assms(1) by (simp add: sl_ok_def node_ok_def)
        then show False using Nil True \<open>hd vs \<in> set vs\<close>
          by (auto simp: at_level_def filter_empty_conv)
      qed
      then have "last (0 # as) = x" using less.prems(1) by simp
      then show ?thesis using stop True by (subst FindLast_loop.simps) simp
    next
      case False
      have "level - 1 + length vs < level + length vs" "level - 1 < height nodes x" "level - 1 < kMaxHeight"
        using False less.prems(2,3) by auto
      from less.hyps [OF this(1) less.prems(1) this(2,3)] show ?thesis
        using stop False by (subst FindLast_loop.simps) simp
    qed
  next
    case (Cons y ys)
    then obtain v1 v2 where v: "vs = v1 @ y # v2" "level < height nodes y"
      by (auto simp: at_level_def filter_eq_Cons_iff)
    have step: "FindLast_loop nodes x level = FindLast_loop nodes y level"
      using L Cons by (subst FindLast_loop.simps) simp
    have "0 # as = (us @ x # v1) @ y # v2" "level + length v2 < level + length vs"
      using less.prems(1) v(1) by simp_all
    from less.hyps [OF this(2,1) v(2) less.prems(3)] show ?thesis unfolding step .
  qed
qed

lemma last_position: "0 \<notin> set xs \<Longrightarrow> (if last (0 # xs) = 0 then None else Some (last (0 # xs))) = first (rev xs)"
  by (cases xs rule: rev_cases) (auto simp: first_def)

lemma SeekToLast_correct:
  assumes "sl_ok compare extractor valid (sl_nodes sl) xs"
  shows "Iter_SeekToLast sl = Some (first (rev xs))"
proof -
  have "kMaxHeight - 1 < height (sl_nodes sl) 0" "0 \<notin> set xs"
    using assms by (auto simp: sl_ok_def node_ok_def constants)
  then show ?thesis
    using FindLast_loop_correct [OF assms, of "[]" 0 xs "kMaxHeight - 1"] last_position [of xs]
    by (simp add: Iter_SeekToLast_def FindLast_def constants del: last.simps)
qed

lemma Prev_correct:
  assumes "sl_ok compare extractor valid (sl_nodes sl) (xs @ a # ys)"
  shows "Iter_Prev compare sl a = Some (first (rev xs))"
proof -
  let ?n = "sl_nodes sl"
  have sw: "sorted_wrt (\<lambda>i j. compare (key_at ?n i) (key_at ?n j) < 0) (xs @ a # ys)"
    and v: "\<forall>i \<in> set (xs @ a # ys). valid (key_at ?n i)"
    using assms by (auto simp: sl_ok_def node_ok_def)
  have "\<not> compare (key_at ?n i) (key_at ?n a) < 0" if "i \<in> set (a # ys)" for i
    using that sw v less_iff [of "key_at ?n i" "key_at ?n a"] flip [of "key_at ?n a" "key_at ?n a"]
    by (auto simp: sorted_wrt_append sgn_if less_imp_le split: if_splits)
  then have bs: "\<forall>i \<in> set (a # ys). \<not> compare (key_at ?n i) (key_at ?n a) < 0" by blast
  have as: "\<forall>i \<in> set xs. compare (key_at ?n i) (key_at ?n a) < 0"
    using sw by (auto simp: sorted_wrt_append)
  have "kMaxHeight - 1 < height ?n 0" "0 \<notin> set xs"
    using assms by (auto simp: sl_ok_def node_ok_def constants)
  then show ?thesis
    using FindLessThan_loop_correct [OF assms as bs, of "[]" 0 xs "kMaxHeight - 1"] last_position [of xs]
    by (simp add: Iter_Prev_def FindLessThan_def key_at_def [symmetric] constants del: last.simps)
qed

text \<open>Insertion refines insertion into the ordered list of keys.\<close>

lemma Insert_refines:
  assumes "sl_rep compare extractor valid sl ks" and "valid key" and "\<forall>k \<in> set ks. compare k key \<noteq> 0"
  shows "\<exists>sl'. Insert compare extractor sl key = Some sl' \<and>
    sl_rep compare extractor valid sl' (insert_before compare key ks)"
proof -
  let ?n = "sl_nodes sl"
  obtain xs where xs: "sl_ok compare extractor valid ?n xs" "map (key_at ?n) xs = ks"
    using assms(1) by (auto simp: sl_rep_def)
  obtain as bs where sp: "xs = as @ bs" "\<forall>i \<in> set as. compare (key_at ?n i) key < 0"
    "\<forall>i \<in> set bs. \<not> compare (key_at ?n i) key < 0"
    using split_at_key [OF xs(1) assms(2)] by blast
  have bs: "\<forall>i \<in> set bs. compare (key_at ?n i) key > 0"
    using sp assms(3) xs(2) by (metis UnCI antisym_conv3 image_eqI set_append set_map)
  from Insert_correct [OF _ assms(2) sp(2) bs] xs(1) sp(1) obtain sl' where
    sl': "Insert compare extractor sl key = Some sl'"
      "sl_ok compare extractor valid (sl_nodes sl') (as @ length ?n # bs)"
      "\<forall>i < length ?n. key_at (sl_nodes sl') i = key_at ?n i"
      "key_at (sl_nodes sl') (length ?n) = key" by auto
  have "i < length ?n" if "i \<in> set (as @ bs)" for i
    using that xs(1) sp(1) by (auto simp: sl_ok_def node_ok_def)
  then have "map (key_at (sl_nodes sl')) (as @ length ?n # bs) = map (key_at ?n) as @ key # map (key_at ?n) bs"
    using sl'(3,4) by auto
  moreover have "insert_before compare key ks = map (key_at ?n) as @ key # map (key_at ?n) bs"
    using insert_before_append [of "map (key_at ?n) as" compare key "map (key_at ?n) bs"] sp xs(2) by simp
  ultimately show ?thesis using sl'(1,2) by (auto simp: sl_rep_def)
qed

lemma Contains_correct:
  assumes "sl_rep compare extractor valid sl ks" and "valid key"
  shows "Contains compare extractor sl key = Some (\<exists>k \<in> set ks. compare key k = 0)"
proof -
  let ?n = "sl_nodes sl"
  obtain xs where xs: "sl_ok compare extractor valid ?n xs" "map (key_at ?n) xs = ks"
    using assms(1) by (auto simp: sl_rep_def)
  obtain as bs where sp: "xs = as @ bs" "\<forall>i \<in> set as. compare (key_at ?n i) key < 0"
    "\<forall>i \<in> set bs. \<not> compare (key_at ?n i) key < 0"
    using split_at_key [OF xs(1) assms(2)] by blast
  have v: "\<forall>i \<in> set xs. valid (key_at ?n i)" using xs(1) by (auto simp: sl_ok_def node_ok_def)
  have C: "Contains compare extractor sl key =
      Some (case first bs of None \<Rightarrow> False | Some a \<Rightarrow> compare key (key_at ?n a) = 0)"
    using find_correct [OF _ assms(2) sp(2,3)] xs(1) sp(1)
    by (auto simp: Contains_def key_at_def split: option.splits)
  have as: "compare key (key_at ?n i) \<noteq> 0" if "i \<in> set as" for i
    using that sp v flip [of "key_at ?n i" key] assms(2) by (auto simp: sgn_if split: if_splits)
  show ?thesis
  proof (cases bs)
    case Nil
    then show ?thesis using C as sp(1) xs(2) by (auto simp: first_def)
  next
    case (Cons b bs')
    have "compare key (key_at ?n b) = 0" if "compare key (key_at ?n i) = 0" "i \<in> set bs" for i
    proof (cases "i = b")
      case False
      then have "compare (key_at ?n b) (key_at ?n i) < 0"
        using xs(1) sp(1) Cons that(2) by (auto simp: sl_ok_def sorted_wrt_append)
      moreover have "compare (key_at ?n i) key \<le> 0"
        using that flip [of "key_at ?n i" key] v sp(1) assms(2) by (auto simp: sgn_if split: if_splits)
      ultimately have "compare (key_at ?n b) key \<le> 0"
        using trans [of "key_at ?n b" "key_at ?n i" key] v sp(1) Cons that(2) assms(2) by auto
      then show ?thesis
        using sp(3) Cons flip [of "key_at ?n b" key] v sp(1) assms(2) by (auto simp: sgn_if split: if_splits)
    qed (use that in simp)
    then have "(\<exists>k \<in> set ks. compare key k = 0) = (compare key (key_at ?n b) = 0)"
      using as sp(1) xs(2) Cons by auto
    then show ?thesis using C Cons by (simp add: first_def)
  qed
qed

end

end
