(* ===== verification/MemTable.thy ===== *)
theory MemTable
  imports DbFormat SkipList Status
begin

text \<open>
  The memtable, \<^verbatim>\<open>db/memtable.h\<close> and \<^verbatim>\<open>db/memtable.cc\<close>: a skip list of encoded entries.  A
  \<open>const char*\<close> is the list of bytes from the pointer on, the null pointer is the empty list.
  The user comparator and its \<open>KeyNum\<close> are arguments.  The limit of five bytes that the reads
  of a length pass to \<open>GetVarint32Ptr\<close> never binds, since its loop reads at most five bytes.
  The bytes that the arena hands out are not accounted for here.
\<close>

unbundle bit_operations_syntax

section \<open>Entries\<close>

text \<open>The slice at \<open>data\<close> and the bytes after it; a corrupt length would give an empty slice
  at the null pointer.\<close>

definition mem_GetLengthPrefixedSlice :: "bytes \<Rightarrow> bytes \<times> bytes" where
  "mem_GetLengthPrefixedSlice data =
    (case GetVarint32Ptr data of
       None \<Rightarrow> ([], [])
     | Some (len, p) \<Rightarrow> (take (unat len) p, drop (unat len) p))"

definition KeyComparator :: "(bytes \<Rightarrow> bytes \<Rightarrow> int) \<Rightarrow> bytes \<Rightarrow> bytes \<Rightarrow> int" where
  "KeyComparator ucmp aptr bptr =
    InternalKey_Compare ucmp (fst (mem_GetLengthPrefixedSlice aptr)) (fst (mem_GetLengthPrefixedSlice bptr))"

definition KeyExtractor :: "(bytes \<Rightarrow> u64) \<Rightarrow> bytes \<Rightarrow> u64" where
  "KeyExtractor unum k =
    (if k = [] then UINT64_MAX
     else case GetVarint32Ptr k of
            None \<Rightarrow> unum []
          | Some (key_length, key_ptr) \<Rightarrow> unum (take (unat (key_length - 8)) key_ptr))"

definition EncodeKey :: "bytes \<Rightarrow> bytes" where
  "EncodeKey target = PutVarint32 [] (of_nat (length target)) @ target"

section \<open>The table\<close>

record MemTable =
  mt_table :: "bytes SkipList"
  mt_refs :: u64
  num_entries :: int

definition mk_MemTable :: "(bytes \<Rightarrow> u64) \<Rightarrow> MemTable" where
  "mk_MemTable unum =
    \<lparr>mt_table = mk_SkipList (KeyExtractor unum) [], mt_refs = 0, num_entries = 0\<rparr>"

text \<open>Reference counting: \<open>None\<close> is the deleted table.\<close>

definition MemTable_Ref :: "MemTable \<Rightarrow> MemTable" where
  "MemTable_Ref mt = mt\<lparr>mt_refs := mt_refs mt + 1\<rparr>"

definition MemTable_Unref :: "MemTable \<Rightarrow> MemTable option" where
  "MemTable_Unref mt =
    (let ref = mt_refs mt - 1 in if ref = 0 then None else Some (mt\<lparr>mt_refs := ref\<rparr>))"

definition mem_entry :: "SequenceNumber \<Rightarrow> ValueType \<Rightarrow> bytes \<Rightarrow> bytes \<Rightarrow> bytes" where
  "mem_entry s t key value =
    (let key_size = length key;
         val_size = length value;
         internal_key_size = key_size + 8
     in EncodeVarint32 (of_nat internal_key_size) @ key @ EncodeFixed64 (push_bit 8 s OR ucast t)
        @ EncodeVarint32 (of_nat val_size) @ value)"

definition MemTable_Add ::
    "(bytes \<Rightarrow> bytes \<Rightarrow> int) \<Rightarrow> (bytes \<Rightarrow> u64) \<Rightarrow> MemTable \<Rightarrow> SequenceNumber \<Rightarrow> ValueType \<Rightarrow> bytes \<Rightarrow> bytes
      \<Rightarrow> MemTable option" where
  "MemTable_Add ucmp unum mt s t key value =
    (case Insert (KeyComparator ucmp) (KeyExtractor unum) (mt_table mt) (mem_entry s t key value) of
       None \<Rightarrow> None
     | Some table \<Rightarrow> Some (mt\<lparr>mt_table := table, num_entries := num_entries mt + 1\<rparr>))"

text \<open>The three results are the return value, \<open>*value\<close> and \<open>*s\<close>.\<close>

definition MemTable_Get ::
    "(bytes \<Rightarrow> bytes \<Rightarrow> int) \<Rightarrow> (bytes \<Rightarrow> u64) \<Rightarrow> MemTable \<Rightarrow> LookupKey \<Rightarrow> bytes \<Rightarrow> Status
      \<Rightarrow> (bool \<times> bytes \<times> Status) option" where
  "MemTable_Get ucmp unum mt key value s =
    (case Iter_Seek (KeyComparator ucmp) (KeyExtractor unum) (mt_table mt) (memtable_key key) of
       None \<Rightarrow> None
     | Some None \<Rightarrow> Some (False, value, s)
     | Some (Some node) \<Rightarrow>
         let entry = n_key (sl_nodes (mt_table mt) ! node)
         in case GetVarint32Ptr entry of
              None \<Rightarrow> None
            | Some (key_length, key_ptr) \<Rightarrow>
                if ucmp (take (unat (key_length - 8)) key_ptr) (lookup_user_key key) = 0
                then let tag = DecodeFixed64 (drop (unat key_length - 8) key_ptr);
                         t = ucast (tag AND 0xff) :: ValueType
                     in if t = kTypeValue
                        then Some (True, fst (mem_GetLengthPrefixedSlice (drop (unat key_length) key_ptr)), s)
                        else if t = kTypeDeletion then Some (True, value, NotFound [] [])
                        else Some (False, value, s)
                else Some (False, value, s))"

section \<open>The iterator\<close>

text \<open>The position of a \<open>MemTableIterator\<close> is that of its list iterator; \<open>None\<close> is not valid.\<close>

definition MemIter_Seek ::
    "(bytes \<Rightarrow> bytes \<Rightarrow> int) \<Rightarrow> (bytes \<Rightarrow> u64) \<Rightarrow> MemTable \<Rightarrow> bytes \<Rightarrow> nat option option" where
  "MemIter_Seek ucmp unum mt k =
    Iter_Seek (KeyComparator ucmp) (KeyExtractor unum) (mt_table mt) (EncodeKey k)"

definition MemIter_SeekToFirst :: "MemTable \<Rightarrow> nat option" where
  "MemIter_SeekToFirst mt = Iter_SeekToFirst (mt_table mt)"

definition MemIter_SeekToLast :: "MemTable \<Rightarrow> nat option option" where
  "MemIter_SeekToLast mt = Iter_SeekToLast (mt_table mt)"

definition MemIter_Next :: "MemTable \<Rightarrow> nat \<Rightarrow> nat option" where
  "MemIter_Next mt node = Iter_Next (mt_table mt) node"

definition MemIter_Prev :: "(bytes \<Rightarrow> bytes \<Rightarrow> int) \<Rightarrow> MemTable \<Rightarrow> nat \<Rightarrow> nat option option" where
  "MemIter_Prev ucmp mt node = Iter_Prev (KeyComparator ucmp) (mt_table mt) node"

definition MemIter_key :: "MemTable \<Rightarrow> nat \<Rightarrow> bytes" where
  "MemIter_key mt node = fst (mem_GetLengthPrefixedSlice (n_key (sl_nodes (mt_table mt) ! node)))"

definition MemIter_value :: "MemTable \<Rightarrow> nat \<Rightarrow> bytes" where
  "MemIter_value mt node =
    fst (mem_GetLengthPrefixedSlice (snd (mem_GetLengthPrefixedSlice (n_key (sl_nodes (mt_table mt) ! node)))))"

section \<open>Reading entries back\<close>

text \<open>Encoded keys: a length-prefixed internal key followed by anything.\<close>

definition mem_valid :: "bytes \<Rightarrow> bool" where
  "mem_valid k \<longleftrightarrow> (\<exists>ikey rest. k = PutLengthPrefixedSlice [] ikey @ rest \<and> 8 \<le> length ikey \<and> length ikey < 2 ^ 32)"

lemma GetVarint32Ptr_Put:
  "length v < 2 ^ 32 \<Longrightarrow>
   GetVarint32Ptr (PutLengthPrefixedSlice [] v @ rest) = Some (of_nat (length v), v @ rest)"
  using GetVarint32_Encode [of "of_nat (length v)" "v @ rest"]
  by (simp add: PutLengthPrefixedSlice_def PutVarint32_def GetVarint32_def)

lemma mem_slice [simp]:
  "length v < 2 ^ 32 \<Longrightarrow> mem_GetLengthPrefixedSlice (PutLengthPrefixedSlice [] v @ rest) = (v, rest)"
  by (simp add: mem_GetLengthPrefixedSlice_def GetVarint32Ptr_Put)

lemma mem_slice_end [simp]:
  "length v < 2 ^ 32 \<Longrightarrow> mem_GetLengthPrefixedSlice (PutLengthPrefixedSlice [] v) = (v, [])"
  using mem_slice [of v "[]"] by simp

lemma Put_not_Nil [simp]: "PutLengthPrefixedSlice [] v @ rest \<noteq> []" "PutLengthPrefixedSlice [] v \<noteq> []"
  by (simp_all add: PutLengthPrefixedSlice_def PutVarint32_def EncodeVarint32_def)

lemma KeyExtractor_entry:
  assumes "8 \<le> length ikey" "length ikey < 2 ^ 32"
  shows "KeyExtractor unum (PutLengthPrefixedSlice [] ikey @ rest) = unum (ExtractUserKey ikey)"
proof -
  have "unat (of_nat (length ikey) - 8 :: u32) = length ikey - 8"
    using assms by (subst unat_sub) (simp_all add: word_le_nat_alt)
  then show ?thesis using assms
    by (simp add: KeyExtractor_def GetVarint32Ptr_Put ExtractUserKey_def)
qed

lemma KeyComparator_entry:
  "length x < 2 ^ 32 \<Longrightarrow> length y < 2 ^ 32 \<Longrightarrow>
   KeyComparator ucmp (PutLengthPrefixedSlice [] x @ p) (PutLengthPrefixedSlice [] y @ q) =
   InternalKey_Compare ucmp x y"
  by (simp add: KeyComparator_def)

lemma mem_entry_eq:
  "mem_entry s t u v = PutLengthPrefixedSlice [] (InternalKey u s t) @ PutLengthPrefixedSlice [] v"
  by (simp add: mem_entry_def PutLengthPrefixedSlice_def PutVarint32_def InternalKey_PutFixed64 PutFixed64_def
      PackSequenceAndType_def)

lemma EncodeKey_eq: "EncodeKey k = PutLengthPrefixedSlice [] k"
  by (simp add: EncodeKey_def PutLengthPrefixedSlice_def)

interpretation mem: skiplist_keys "KeyComparator Slice_compare" "KeyExtractor KeyNum" mem_valid
proof
  fix a b c assume a: "mem_valid a" and b: "mem_valid b"
  then obtain x p y q where ab: "a = PutLengthPrefixedSlice [] x @ p" "8 \<le> length x" "length x < 2 ^ 32"
    "b = PutLengthPrefixedSlice [] y @ q" "8 \<le> length y" "length y < 2 ^ 32"
    by (auto simp: mem_valid_def)
  show "sgn (KeyComparator Slice_compare a b) = - sgn (KeyComparator Slice_compare b a)"
    unfolding KeyComparator_def by (rule ikey.internal_flip)
  show "KeyComparator Slice_compare a c \<le> 0" if "mem_valid c"
    "KeyComparator Slice_compare a b \<le> 0" "KeyComparator Slice_compare b c \<le> 0"
    using that ikey.internal_trans by (auto simp: KeyComparator_def)
  show "KeyExtractor KeyNum a \<le> KeyExtractor KeyNum b" if "KeyComparator Slice_compare a b \<le> 0"
  proof -
    have "Slice_compare (ExtractUserKey x) (ExtractUserKey y) \<le> 0"
      using that ab by (auto simp: KeyComparator_entry ikey.internal_le_iff)
    then show ?thesis using ab by (auto simp: KeyExtractor_entry Slice_compare_lex split: if_splits intro: KeyNum_mono)
  qed
qed


section \<open>The memtable as a multi-version map\<close>

text \<open>What the table stands for: items of user key, sequence number, type and value.\<close>

type_synonym mem_item = "bytes \<times> SequenceNumber \<times> ValueType \<times> bytes"

fun item_entry :: "mem_item \<Rightarrow> bytes" where
  "item_entry (u, s, t, v) = mem_entry s t u v"

fun item_ok :: "mem_item \<Rightarrow> bool" where
  "item_ok (u, s, t, v) \<longleftrightarrow> length u + 8 < 2 ^ 32 \<and> length v < 2 ^ 32 \<and> PackSequenceAndType_pre s t"

fun item_key :: "mem_item \<Rightarrow> bytes \<times> SequenceNumber \<times> ValueType" where
  "item_key (u, s, t, v) = (u, s, t)"

fun visible :: "bytes \<Rightarrow> SequenceNumber \<Rightarrow> mem_item \<Rightarrow> bool" where
  "visible u snap (u', s, t, v) \<longleftrightarrow> u' = u \<and> s \<le> snap"

fun later :: "mem_item \<Rightarrow> mem_item \<Rightarrow> bool" where
  "later (u, s, t, v) (u', s', t', v') \<longleftrightarrow> s' < s \<or> (s' = s \<and> t' < t)"

text \<open>The newest item of a user key that a snapshot sees.\<close>

fun newest :: "mem_item list \<Rightarrow> bytes \<Rightarrow> SequenceNumber \<Rightarrow> mem_item option" where
  "newest [] u snap = None"
| "newest (e # es) u snap =
    (case newest es u snap of
       None \<Rightarrow> if visible u snap e then Some e else None
     | Some b \<Rightarrow> if visible u snap e \<and> later e b then Some e else Some b)"

definition mem_answer :: "mem_item option \<Rightarrow> bytes \<Rightarrow> Status \<Rightarrow> bool \<times> bytes \<times> Status" where
  "mem_answer r value s =
    (case r of
       None \<Rightarrow> (False, value, s)
     | Some (_, _, t, v) \<Rightarrow> if t = kTypeValue then (True, v, s) else (True, value, NotFound [] []))"

definition mt_rep :: "MemTable \<Rightarrow> mem_item list \<Rightarrow> bool" where
  "mt_rep mt es \<longleftrightarrow> (\<forall>e \<in> set es. item_ok e) \<and>
    (\<exists>ks. sl_rep (KeyComparator Slice_compare) (KeyExtractor KeyNum) mem_valid (mt_table mt) ks \<and>
       set ks = item_entry ` set es)"

lemma newest_in: "newest es u snap = Some e \<Longrightarrow> e \<in> set es \<and> visible u snap e"
  by (induction es arbitrary: e) (auto split: option.splits if_splits)

lemma newest_None: "newest es u snap = None \<longleftrightarrow> (\<forall>e \<in> set es. \<not> visible u snap e)"
  by (induction es) (auto split: option.splits if_splits)

lemma later_asym: "later e e' \<Longrightarrow> \<not> later e' e"
  by (cases e; cases e') auto

lemma newest_maximal:
  assumes "e \<in> set es" and "visible u snap e"
    and "\<And>e'. e' \<in> set es \<Longrightarrow> visible u snap e' \<Longrightarrow> e' \<noteq> e \<Longrightarrow> later e e'"
  shows "newest es u snap = Some e"
  using assms
proof (induction es)
  case (Cons x es)
  show ?case
  proof (cases "e \<in> set es")
    case True
    then have "newest es u snap = Some e" using Cons by auto
    then show ?thesis using Cons.prems(3) [of x] later_asym by fastforce
  next
    case False
    then have x: "x = e" using Cons.prems(1) by simp
    have "later e b" if "newest es u snap = Some b" for b
      using newest_in [OF that] Cons.prems(3) [of b] False by auto
    then show ?thesis using x Cons.prems(2) by (auto split: option.splits)
  qed
qed simp

lemma item_entry_valid: "item_ok e \<Longrightarrow> mem_valid (item_entry e)"
  by (cases e) (fastforce simp: mem_entry_eq mem_valid_def)

lemma item_compare:
  assumes "item_ok (u, s, t, v)" and "item_ok (u', s', t', v')"
  shows "KeyComparator Slice_compare (item_entry (u, s, t, v)) (item_entry (u', s', t', v')) < 0 \<longleftrightarrow>
    u < u' \<or> (u = u' \<and> (s' < s \<or> (s' = s \<and> t' < t)))"
  using assms by (simp add: KeyComparator_def mem_entry_eq InternalKey_Compare_eq PackSequenceAndType_pre_def)

lemma lookup_compare:
  assumes "item_ok (u', s', t', v')" and "length u + 8 < 2 ^ 32" and "snap \<le> kMaxSequenceNumber"
  shows "KeyComparator Slice_compare (item_entry (u', s', t', v')) (memtable_key (mk_LookupKey u snap)) < 0
    \<longleftrightarrow> u' < u \<or> (u' = u \<and> snap < s')"
  using assms
  by (auto simp: KeyComparator_def mem_entry_eq LookupKey_views InternalKey_Compare_eq PackSequenceAndType_pre_def
      kValueTypeForSeek_def)

lemma item_entry_inj:
  assumes "item_ok e" and "item_ok e'" and "item_entry e = item_entry e'"
  shows "e = e'"
proof -
  obtain u s t v u' s' t' v' where [simp]: "e = (u, s, t, v)" "e' = (u', s', t', v')"
    by (cases e; cases e')
  from arg_cong [OF assms(3), of mem_GetLengthPrefixedSlice] assms(1,2)
  have ik: "InternalKey u s t = InternalKey u' s' t'"
    and "PutLengthPrefixedSlice [] v = PutLengthPrefixedSlice [] v'"
    by (simp_all add: mem_entry_eq)
  from arg_cong [OF this(2), of mem_GetLengthPrefixedSlice] assms(1,2) have "v = v'" by simp
  moreover have "(u, s, t) = (u', s', t')"
    using arg_cong [OF ik, of ParseInternalKey] assms(1,2) by (simp add: Parse_InternalKey)
  ultimately show ?thesis by simp
qed


lemma mt_rep_order:
  assumes "mt_rep mt es" and "e \<in> set es" and "e' \<in> set es" and "item_key e = item_key e'"
  shows "e = e'"
proof -
  obtain ks xs where ks: "set ks = item_entry ` set es" "map (key_at (sl_nodes (mt_table mt))) xs = ks"
    "sl_ok (KeyComparator Slice_compare) (KeyExtractor KeyNum) mem_valid (sl_nodes (mt_table mt)) xs"
    using assms(1) by (auto simp: mt_rep_def sl_rep_def)
  then have sw: "sorted_wrt (\<lambda>a b. KeyComparator Slice_compare a b < 0) ks"
    by (auto simp: sl_ok_def sorted_wrt_map)
  have ok: "item_ok e" "item_ok e'" using assms(1-3) by (auto simp: mt_rep_def)
  have "\<not> KeyComparator Slice_compare (item_entry e) (item_entry e') < 0"
    "\<not> KeyComparator Slice_compare (item_entry e') (item_entry e) < 0"
    using ok assms(4) item_compare by (cases e; cases e'; auto)+
  moreover have "item_entry e \<in> set ks" "item_entry e' \<in> set ks" using ks(1) assms(2,3) by auto
  ultimately have "item_entry e = item_entry e'"
    using sw by (metis in_set_conv_nth linorder_neqE_nat sorted_wrt_iff_nth_less)
  then show ?thesis using item_entry_inj ok by blast
qed

lemma mk_MemTable_rep: "mt_rep (mk_MemTable unum) []"
  by (simp add: mt_rep_def mk_MemTable_def mk_SkipList_rep)

lemma Add_rep:
  assumes "mt_rep mt es" and "item_ok (u, s, t, v)" and "(u, s, t) \<notin> item_key ` set es"
  shows "\<exists>mt'. MemTable_Add Slice_compare KeyNum mt s t u v = Some mt' \<and> mt_rep mt' ((u, s, t, v) # es) \<and>
    num_entries mt' = num_entries mt + 1"
proof -
  let ?c = "KeyComparator Slice_compare" and ?k = "item_entry (u, s, t, v)"
  obtain ks where ks: "sl_rep ?c (KeyExtractor KeyNum) mem_valid (mt_table mt) ks" "set ks = item_entry ` set es"
    using assms(1) by (auto simp: mt_rep_def)
  have "?c k ?k \<noteq> 0" if "k \<in> set ks" for k
  proof -
    from that obtain e where e: "e \<in> set es" "k = item_entry e" unfolding ks(2) by (rule imageE)
    then have "item_ok e" using assms(1) by (simp add: mt_rep_def)
    have "item_key e \<noteq> (u, s, t)" using assms(3) imageI [OF e(1), of item_key] by metis
    then have "?c k ?k < 0 \<or> ?c ?k k < 0"
      unfolding e(2) using assms(2) \<open>item_ok e\<close> item_compare by (cases e) (auto simp: neq_iff)
    then show ?thesis
      using mem.flip [of k ?k] item_entry_valid [OF assms(2)] item_entry_valid [OF \<open>item_ok e\<close>] e(2)
      by auto
  qed
  from mem.Insert_refines [OF ks(1) item_entry_valid [OF assms(2)]] this obtain sl where
    "Insert ?c (KeyExtractor KeyNum) (mt_table mt) ?k = Some sl"
    "sl_rep ?c (KeyExtractor KeyNum) mem_valid sl (insert_before ?c ?k ks)" by blast
  moreover have "set (insert_before ?c ?k ks) = insert ?k (set ks)"
    unfolding insert_before_def set_append list.set Un_insert_right
    by (simp only: takeWhile_dropWhile_id flip: set_append)
  ultimately show ?thesis using ks(2) assms(1,2)
    by (auto simp: MemTable_Add_def mt_rep_def)
qed

lemma MemTable_Get_entry:
  assumes "Iter_Seek (KeyComparator Slice_compare) (KeyExtractor KeyNum) (mt_table mt)
      (memtable_key (mk_LookupKey u snap)) = Some (Some node)"
    and "n_key (sl_nodes (mt_table mt) ! node) = item_entry (u', s', t', v')" and "item_ok (u', s', t', v')"
  shows "MemTable_Get Slice_compare KeyNum mt (mk_LookupKey u snap) value st =
    Some (if u' = u then mem_answer (Some (u', s', t', v')) value st else (False, value, st))"
proof -
  let ?ik = "InternalKey u' s' t'"
  have l: "length ?ik < 2 ^ 32" "length v' < 2 ^ 32" "PackSequenceAndType_pre s' t'" using assms(3) by simp_all
  have n2: "unat (of_nat (length ?ik) :: u32) = length ?ik"
    using l(1) by (intro unat_of_nat_small) simp
  have n: "unat (of_nat (length ?ik) - 8 :: u32) = length u'"
    using n2 by (subst unat_sub) (simp_all add: word_le_nat_alt)
  have T: "take (length u') (?ik @ r) = u'" for r
    by (simp add: InternalKey_PutFixed64 PutFixed64_def)
  have D: "DecodeFixed64 (drop (length ?ik - 8) (?ik @ r)) = PackSequenceAndType s' t'" for r
    by (simp add: InternalKey_PutFixed64 PutFixed64_def)
  have ty: "t' = kTypeValue \<or> t' = kTypeDeletion"
  proof -
    have "unat t' \<le> 1" using l(3) by (simp add: PackSequenceAndType_pre_def constants word_le_nat_alt)
    then have "unat t' = unat (0 :: byte) \<or> unat t' = unat (1 :: byte)" by auto
    then show ?thesis by (auto simp: constants word_unat_eq_iff)
  qed
  have C: "Slice_compare a b = 0 \<longleftrightarrow> a = b" for a b by (auto simp: Slice_compare_lex)
  show ?thesis
    unfolding MemTable_Get_def assms(1) Let_def assms(2) item_entry.simps mem_entry_eq
      GetVarint32Ptr_Put [OF l(1)] option.case prod.case n n2 T D low_byte_Pack LookupKey_views(2) C mem_answer_def
    using ty l(2) by (auto simp: constants)
qed


lemma Get_rep:
  assumes "mt_rep mt es" and "length u + 8 < 2 ^ 32" and "snap \<le> kMaxSequenceNumber"
  shows "MemTable_Get Slice_compare KeyNum mt (mk_LookupKey u snap) value st =
    Some (mem_answer (newest es u snap) value st)"
proof -
  let ?c = "KeyComparator Slice_compare" and ?x = "KeyExtractor KeyNum" and ?n = "sl_nodes (mt_table mt)"
    and ?k = "memtable_key (mk_LookupKey u snap)"
  obtain xs where xs: "sl_ok ?c ?x mem_valid ?n xs" "key_at ?n ` set xs = item_entry ` set es"
    and ok: "\<forall>e \<in> set es. item_ok e"
    using assms(1) by (auto simp: mt_rep_def sl_rep_def)
  have vk: "mem_valid ?k"
    using assms(2) unfolding mem_valid_def LookupKey_views
    by (intro exI [of _ "InternalKey u snap kValueTypeForSeek"] exI [of _ "[]"]) simp
  obtain as bs where sp: "xs = as @ bs" "\<forall>i \<in> set as. ?c (key_at ?n i) ?k < 0"
    "\<forall>i \<in> set bs. \<not> ?c (key_at ?n i) ?k < 0"
    using mem.split_at_key [OF xs(1) vk] by blast
  have S: "Iter_Seek ?c ?x (mt_table mt) ?k = Some (first bs)"
    using mem.Seek_correct [OF _ vk sp(2,3)] xs(1) sp(1) by simp
  have vis: "\<exists>i \<in> set bs. key_at ?n i = item_entry e" if "e \<in> set es" "visible u snap e" for e
  proof -
    have "item_entry e \<in> key_at ?n ` set xs" using that(1) xs(2) by simp
    then obtain i where i: "i \<in> set xs" "item_entry e = key_at ?n i" by (rule imageE)
    moreover have "\<not> ?c (item_entry e) ?k < 0"
    proof -
      obtain u' s' t' v' where E: "e = (u', s', t', v')" by (cases e)
      show ?thesis using lookup_compare [of u' s' t' v', OF _ assms(2,3)] that ok unfolding E by auto
    qed
    ultimately show ?thesis using sp(1,2) by auto
  qed
  show ?thesis
  proof (cases bs)
    case Nil
    then have "newest es u snap = None" using vis by (auto simp: newest_None)
    then show ?thesis using S Nil by (simp add: MemTable_Get_def first_def mem_answer_def)
  next
    case (Cons b bs')
    then have "key_at ?n b \<in> item_entry ` set es" using sp(1) xs(2) by (metis imageI in_set_conv_decomp)
    then obtain e where e: "e \<in> set es" "key_at ?n b = item_entry e" by blast
    have next_: "?c (item_entry e) (item_entry e') < 0"
      if "e' \<in> set es" "visible u snap e'" "e' \<noteq> e" for e'
    proof -
      from vis [OF that(1,2)] obtain i where i: "i \<in> set bs" "key_at ?n i = item_entry e'" by blast
      have "item_entry e \<noteq> item_entry e'" using item_entry_inj that e(1) ok by metis
      then have "i \<in> set bs'" using i e(2) Cons by auto
      then show ?thesis using xs(1) sp(1) Cons e(2) i(2) by (auto simp: sl_ok_def sorted_wrt_append)
    qed
    obtain u' s' t' v' where E: "e = (u', s', t', v')" by (cases e)
    have oke: "item_ok (u', s', t', v')" using e(1) ok E by blast
    have nb: "\<not> (u' < u \<or> (u' = u \<and> snap < s'))"
      using lookup_compare [OF oke assms(2,3)] sp(3) Cons e(2) E by auto
    have "newest es u snap = (if u' = u then Some e else None)"
    proof (cases "u' = u")
      case True
      have "later e e'" if "e' \<in> set es" "visible u snap e'" "e' \<noteq> e" for e'
        using next_ [OF that] that ok oke item_compare E True by (cases e') auto
      then show ?thesis using newest_maximal [OF e(1), of u snap] nb E True by auto
    next
      case False
      have "\<not> visible u snap e'" if "e' \<in> set es" for e'
      proof
        assume v: "visible u snap e'"
        then have "e' \<noteq> e" using E False by auto
        from next_ [OF that v this] show False
          using v that ok oke item_compare E False nb by (cases e') auto
      qed
      then show ?thesis using False by (simp add: newest_None)
    qed
    moreover have "Iter_Seek ?c ?x (mt_table mt) ?k = Some (Some b)" using S Cons by (simp add: first_def)
    ultimately show ?thesis
      using MemTable_Get_entry [OF _ _ oke, of mt u snap b] e(2) E by (simp add: key_at_def mem_answer_def)
  qed
qed


fun MemTable_Adds ::
    "(bytes \<Rightarrow> bytes \<Rightarrow> int) \<Rightarrow> (bytes \<Rightarrow> u64) \<Rightarrow> MemTable \<Rightarrow> mem_item list \<Rightarrow> MemTable option" where
  "MemTable_Adds ucmp unum mt [] = Some mt"
| "MemTable_Adds ucmp unum mt ((u, s, t, v) # es) =
    (case MemTable_Add ucmp unum mt s t u v of
       None \<Rightarrow> None
     | Some mt' \<Rightarrow> MemTable_Adds ucmp unum mt' es)"

lemma mt_rep_set: "set es = set es' \<Longrightarrow> mt_rep mt es = mt_rep mt es'"
  by (simp add: mt_rep_def)

lemma Adds_rep:
  assumes "mt_rep mt es" and "\<forall>e \<in> set new. item_ok e" and "distinct (map item_key new)"
    and "item_key ` set new \<inter> item_key ` set es = {}"
  shows "\<exists>mt'. MemTable_Adds Slice_compare KeyNum mt new = Some mt' \<and> mt_rep mt' (es @ new) \<and>
    num_entries mt' = num_entries mt + int (length new)"
  using assms
proof (induction new arbitrary: mt es)
  case (Cons e new)
  obtain u s t v where e: "e = (u, s, t, v)" by (cases e)
  from Cons.prems(2,4) e have "item_ok (u, s, t, v)" "(u, s, t) \<notin> item_key ` set es" by auto
  from Add_rep [OF Cons.prems(1) this] obtain mt1 where
    mt1: "MemTable_Add Slice_compare KeyNum mt s t u v = Some mt1" "mt_rep mt1 (e # es)"
      "num_entries mt1 = num_entries mt + 1" using e by blast
  have "item_key ` set new \<inter> item_key ` set (e # es) = {}" using Cons.prems(3,4) by auto
  from Cons.IH [OF mt1(2) _ _ this] Cons.prems(2,3) obtain mt2 where
    mt2: "MemTable_Adds Slice_compare KeyNum mt1 new = Some mt2" "mt_rep mt2 ((e # es) @ new)"
      "num_entries mt2 = num_entries mt1 + int (length new)" by auto
  moreover have "mt_rep mt2 (es @ e # new)" using mt2(2) mt_rep_set [of "(e # es) @ new" "es @ e # new" mt2] by simp
  ultimately show ?case using mt1 e by simp
qed simp

text \<open>The walk of an iterator from a position to the end.\<close>

fun MemIter_walk :: "nat \<Rightarrow> MemTable \<Rightarrow> nat option \<Rightarrow> (bytes \<times> bytes) list" where
  "MemIter_walk 0 mt pos = []"
| "MemIter_walk (Suc fuel) mt pos =
    (case pos of
       None \<Rightarrow> []
     | Some node \<Rightarrow> (MemIter_key mt node, MemIter_value mt node) # MemIter_walk fuel mt (MemIter_Next mt node))"

fun item_pair :: "mem_item \<Rightarrow> bytes \<times> bytes" where
  "item_pair (u, s, t, v) = (InternalKey u s t, v)"

lemma MemIter_pair:
  assumes "key_at (sl_nodes (mt_table mt)) a = item_entry e" and "item_ok e"
  shows "(MemIter_key mt a, MemIter_value mt a) = item_pair e"
  using assms by (cases e) (simp add: MemIter_key_def MemIter_value_def mem_entry_eq flip: key_at_def)

lemma item_compare_pair:
  "item_ok a \<Longrightarrow> item_ok b \<Longrightarrow> KeyComparator ucmp (item_entry a) (item_entry b) =
   InternalKey_Compare ucmp (fst (item_pair a)) (fst (item_pair b))"
  by (cases a; cases b) (simp add: mem_entry_eq KeyComparator_entry)

lemma MemIter_walk_suffix:
  assumes "sl_ok (KeyComparator Slice_compare) (KeyExtractor KeyNum) mem_valid (sl_nodes (mt_table mt)) (xs @ ys)"
    and "map (key_at (sl_nodes (mt_table mt))) ys = map item_entry es" and "\<forall>e \<in> set es. item_ok e"
    and "length ys < fuel"
  shows "MemIter_walk fuel mt (first ys) = map item_pair es"
  using assms
proof (induction ys arbitrary: xs es fuel)
  case (Cons y ys)
  obtain e es' f where [simp]: "es = e # es'" "fuel = Suc f"
    using Cons.prems(2,4) by (cases es; cases fuel) auto
  have "MemIter_Next mt y = first ys"
    using mem.Next_correct [OF Cons.prems(1)] by (simp add: MemIter_Next_def)
  moreover have "MemIter_walk f mt (first ys) = map item_pair es'"
    using Cons.IH [of "xs @ [y]" es' f] Cons.prems by simp
  moreover have "(MemIter_key mt y, MemIter_value mt y) = item_pair e"
    using Cons.prems(2,3) by (intro MemIter_pair) auto
  ultimately show ?case by (simp add: first_def)
next
  case Nil
  then show ?case by (cases fuel) (simp_all add: first_def)
qed

lemma mt_rep_sorted:
  assumes "mt_rep mt es"
  obtains xs ss where "sl_ok (KeyComparator Slice_compare) (KeyExtractor KeyNum) mem_valid (sl_nodes (mt_table mt)) xs"
    and "map (key_at (sl_nodes (mt_table mt))) xs = map item_entry ss" and "set ss = set es"
    and "distinct ss" and "sorted_wrt (\<lambda>a b. KeyComparator Slice_compare (item_entry a) (item_entry b) < 0) ss"
proof -
  obtain ks xs where ks: "set ks = item_entry ` set es" "map (key_at (sl_nodes (mt_table mt))) xs = ks"
    "sl_ok (KeyComparator Slice_compare) (KeyExtractor KeyNum) mem_valid (sl_nodes (mt_table mt)) xs"
    and ok: "\<forall>e \<in> set es. item_ok e"
    using assms(1) by (auto simp: mt_rep_def sl_rep_def)
  have inj: "inj_on item_entry (set es)" using ok by (meson inj_onI item_entry_inj)
  define ss where "ss = map (the_inv_into (set es) item_entry) ks"
  have inv: "map item_entry ss = ks"
    using ks(1) by (auto simp: ss_def intro!: map_idI f_the_inv_into_f [OF inj])
  have "set ss = set es"
    using ks(1) inj by (auto simp: ss_def image_image the_inv_into_f_f cong: image_cong)
  moreover have sw: "sorted_wrt (\<lambda>a b. KeyComparator Slice_compare a b < 0) ks"
    using ks(2,3) by (auto simp: sl_ok_def sorted_wrt_map)
  moreover have "sorted_wrt (\<lambda>a b. KeyComparator Slice_compare (item_entry a) (item_entry b) < 0) ss"
    using sw inv sorted_wrt_map [of _ item_entry ss] by simp
  moreover have "distinct ss"
  proof -
    have "KeyComparator Slice_compare (item_entry a) (item_entry a) = 0" for a
      using ikey.internal_flip [of "fst (mem_GetLengthPrefixedSlice (item_entry a))"
          "fst (mem_GetLengthPrefixedSlice (item_entry a))"] by (auto simp: KeyComparator_def sgn_if split: if_splits)
    then show ?thesis using calculation(3) by (induction ss) auto
  qed
  ultimately show ?thesis by (intro that [OF ks(3), of ss]) (simp_all add: ks(2) inv)
qed

section \<open>Properties\<close>

text \<open>C7: the memtable is a multi-version map.  After any sequence of additions with distinct
  internal keys, in any order, every insertion and the lookup return, and \<open>Get\<close> finds the
  newest entry of the user key that the snapshot sees: its value when the entry is a value,
  \<open>NotFound\<close> when it is a deletion, and no result when the snapshot sees no entry.\<close>

theorem memtable_get_newest:
  assumes "\<forall>e \<in> set es. item_ok e" and "distinct (map item_key es)"
    and "length u + 8 < 2 ^ 32" and "snap \<le> kMaxSequenceNumber"
  shows "\<exists>mt. MemTable_Adds Slice_compare KeyNum (mk_MemTable KeyNum) es = Some mt \<and>
    num_entries mt = int (length es) \<and>
    MemTable_Get Slice_compare KeyNum mt (mk_LookupKey u snap) value st =
      Some (mem_answer (newest es u snap) value st)"
  using Adds_rep [OF mk_MemTable_rep assms(1,2), of KeyNum] Get_rep [OF _ assms(3,4)]
  by (auto simp: mk_MemTable_def)

theorem memtable_get_newest_witness:
  "\<exists>mt. MemTable_Adds Slice_compare KeyNum (mk_MemTable KeyNum)
      [([5], 1, kTypeValue, [10]), ([5], 3, kTypeDeletion, []), ([5], 2, kTypeValue, [20])] = Some mt \<and>
    num_entries mt = 3 \<and>
    MemTable_Get Slice_compare KeyNum mt (mk_LookupKey [5] 2) [] OK = Some (True, [20], OK)"
  using memtable_get_newest
    [of "[([5], 1, kTypeValue, [10]), ([5], 3, kTypeDeletion, []), ([5], 2, kTypeValue, [20])]" "[5]" 2 "[]" OK]
  by (simp add: PackSequenceAndType_pre_def constants mem_answer_def)

text \<open>C29: iterating over a memtable from the first position visits each entry exactly once,
  in strictly increasing internal-key order, with the key and value that were added.\<close>

theorem memtable_iteration:
  assumes "\<forall>e \<in> set es. item_ok e" and "distinct (map item_key es)"
  shows "\<exists>mt ss. MemTable_Adds Slice_compare KeyNum (mk_MemTable KeyNum) es = Some mt \<and>
    MemIter_walk (length es + 1) mt (MemIter_SeekToFirst mt) = map item_pair ss \<and>
    set ss = set es \<and> distinct ss \<and>
    sorted_wrt (\<lambda>a b. InternalKey_Compare Slice_compare (fst a) (fst b) < 0) (map item_pair ss)"
proof -
  obtain mt where mt: "MemTable_Adds Slice_compare KeyNum (mk_MemTable KeyNum) es = Some mt" "mt_rep mt es"
    using Adds_rep [OF mk_MemTable_rep assms, of KeyNum] by auto
  obtain xs ss where
    x: "sl_ok (KeyComparator Slice_compare) (KeyExtractor KeyNum) mem_valid (sl_nodes (mt_table mt)) xs"
    and ss: "map (key_at (sl_nodes (mt_table mt))) xs = map item_entry ss" "set ss = set es" "distinct ss"
      "sorted_wrt (\<lambda>a b. KeyComparator Slice_compare (item_entry a) (item_entry b) < 0) ss"
    by (rule mt_rep_sorted [OF mt(2)])
  have ok: "\<forall>e \<in> set ss. item_ok e" using assms(1) ss(2) by simp
  have "length xs = length es"
    using map_eq_imp_length_eq [OF ss(1)] ss(2,3) assms(2) by (metis distinct_card distinct_map)
  then have "MemIter_walk (length es + 1) mt (first xs) = map item_pair ss"
    using MemIter_walk_suffix [of mt "[]" xs ss "length es + 1"] x ss(1) ok by simp
  moreover have "MemIter_SeekToFirst mt = first xs"
    using mem.SeekToFirst_correct [OF x] by (simp add: MemIter_SeekToFirst_def)
  moreover have "sorted_wrt (\<lambda>a b. InternalKey_Compare Slice_compare (fst (item_pair a)) (fst (item_pair b)) < 0) ss"
  proof (rule sorted_wrt_mono_rel [OF _ ss(4)])
    fix a b assume "a \<in> set ss" "b \<in> set ss"
      "KeyComparator Slice_compare (item_entry a) (item_entry b) < 0"
    moreover have "item_ok a" "item_ok b" using ok calculation(1,2) by blast+
    ultimately show "InternalKey_Compare Slice_compare (fst (item_pair a)) (fst (item_pair b)) < 0"
      by (simp add: item_compare_pair)
  qed
  ultimately show ?thesis using mt(1) ss(2,3) by (auto simp: sorted_wrt_map)
qed

theorem memtable_iteration_witness:
  "\<exists>mt ss. MemTable_Adds Slice_compare KeyNum (mk_MemTable KeyNum)
      [([5], 1, kTypeValue, [10]), ([4], 3, kTypeDeletion, [])] = Some mt \<and>
    MemIter_walk 3 mt (MemIter_SeekToFirst mt) = map item_pair ss \<and>
    set ss = {([5], 1, kTypeValue, [10]), ([4], 3, kTypeDeletion, [])} \<and> distinct ss \<and>
    sorted_wrt (\<lambda>a b. InternalKey_Compare Slice_compare (fst a) (fst b) < 0) (map item_pair ss)"
  using memtable_iteration [of "[([5], 1, kTypeValue, [10]), ([4], 3, kTypeDeletion, [])]"]
  by (simp add: PackSequenceAndType_pre_def constants numeral_3_eq_3)

end
