(* ===== verification/Hash.thy ===== *)
theory Hash
  imports Coding
begin

text \<open>
  The two hash functions: \<open>Hash\<close> of \<^verbatim>\<open>util/hash.cc\<close>, used by the Bloom filter and the cache,
  and \<open>MurmurHash3_x86_32\<close> of \<^verbatim>\<open>db/murmurhash3.cc\<close>, which selects the guards.  Arithmetic is on
  32-bit words, as in the code.
\<close>

unbundle bit_operations_syntax

section \<open>Hash\<close>

text \<open>\<open>char\<close> is signed: the remaining bytes are sign-extended before they are shifted.\<close>

definition hash_m :: u32 where "hash_m = 0xc6a4a793"

fun Hash_loop :: "u32 \<Rightarrow> bytes \<Rightarrow> u32 \<times> bytes" where
  "Hash_loop h (b0 # b1 # b2 # b3 # data) =
    (let h = h + DecodeFixed32 [b0, b1, b2, b3];
         h = h * hash_m;
         h = h XOR drop_bit 16 h
     in Hash_loop h data)"
| "Hash_loop h data = (h, data)"

definition Hash_tail :: "u32 \<Rightarrow> bytes \<Rightarrow> u32" where
  "Hash_tail h data =
    (let n = length data;
         h = (if n \<ge> 3 then h + push_bit 16 (scast (data ! 2)) else h);
         h = (if n \<ge> 2 then h + push_bit 8 (scast (data ! 1)) else h)
     in if n \<ge> 1
        then let h = h + scast (data ! 0); h = h * hash_m in h XOR drop_bit 24 h
        else h)"

definition Hash :: "bytes \<Rightarrow> u32 \<Rightarrow> u32" where
  "Hash data seed =
    (let h = seed XOR (of_nat (length data) * hash_m);
         (h, rest) = Hash_loop h data
     in Hash_tail h rest)"

section \<open>MurmurHash3\<close>

definition rotl32 :: "u32 \<Rightarrow> nat \<Rightarrow> u32" where
  "rotl32 x r = push_bit r x OR drop_bit (32 - r) x"

definition fmix32 :: "u32 \<Rightarrow> u32" where
  "fmix32 h =
    (let h = h XOR drop_bit 16 h;
         h = h * 0x85ebca6b;
         h = h XOR drop_bit 13 h;
         h = h * 0xc2b2ae35
     in h XOR drop_bit 16 h)"

definition murmur_k1 :: "u32 \<Rightarrow> u32" where
  "murmur_k1 k1 =
    (let k1 = k1 * 0xcc9e2d51;
         k1 = rotl32 k1 15
     in k1 * 0x1b873593)"

fun murmur_body :: "u32 \<Rightarrow> bytes \<Rightarrow> u32 \<times> bytes" where
  "murmur_body h1 (b0 # b1 # b2 # b3 # data) =
    (let k1 = murmur_k1 (DecodeFixed32 [b0, b1, b2, b3]);
         h1 = h1 XOR k1;
         h1 = rotl32 h1 13;
         h1 = h1 * 5 + 0xe6546b64
     in murmur_body h1 data)"
| "murmur_body h1 data = (h1, data)"

definition murmur_tail :: "u32 \<Rightarrow> bytes \<Rightarrow> u32" where
  "murmur_tail h1 tail =
    (let n = length tail;
         k1 = 0;
         k1 = (if n \<ge> 3 then k1 XOR push_bit 16 (ucast (tail ! 2)) else k1);
         k1 = (if n \<ge> 2 then k1 XOR push_bit 8 (ucast (tail ! 1)) else k1)
     in if n \<ge> 1
        then let k1 = k1 XOR ucast (tail ! 0) in h1 XOR murmur_k1 k1
        else h1)"

definition MurmurHash3_x86_32 :: "bytes \<Rightarrow> u32 \<Rightarrow> u32" where
  "MurmurHash3_x86_32 key seed =
    (let (h1, tail) = murmur_body seed key;
         h1 = murmur_tail h1 tail;
         h1 = h1 XOR of_nat (length key)
     in fmix32 h1)"

end
