(* ===== verification/Bloom.thy ===== *)
theory Bloom
  imports Hash
begin

text \<open>
  The Bloom filter policy of \<^verbatim>\<open>util/bloom.cc\<close>.  The counters \<open>byte_size\<close> and \<open>filter_count\<close>,
  which no code reads back into a filter, are left out.
\<close>

unbundle bit_operations_syntax

definition BloomHash :: "bytes \<Rightarrow> u32" where
  "BloomHash key = Hash key 0xbc9f1d34"

record BloomFilterPolicy =
  bf_bits_per_key :: nat
  bf_k :: nat

text \<open>\<open>bits_per_key * 0.69\<close> rounded down, then clamped to 1..30.  The product is an integer only
  for multiples of 100, where it is clamped, so the decimal fraction may be taken exactly.\<close>

definition mk_BloomFilterPolicy :: "nat \<Rightarrow> BloomFilterPolicy" where
  "mk_BloomFilterPolicy bits_per_key =
    (let k = bits_per_key * 69 div 100;
         k = (if k < 1 then 1 else k);
         k = (if k > 30 then 30 else k)
     in \<lparr>bf_bits_per_key = bits_per_key, bf_k = k\<rparr>)"

definition bloom_delta :: "u32 \<Rightarrow> u32" where
  "bloom_delta h = drop_bit 17 h OR push_bit 15 h"

definition set_filter_bit :: "bytes \<Rightarrow> nat \<Rightarrow> bytes" where
  "set_filter_bit array bitpos =
    array[bitpos div 8 := (array ! (bitpos div 8)) OR push_bit (bitpos mod 8) 1]"

fun bloom_set :: "nat \<Rightarrow> nat \<Rightarrow> u32 \<Rightarrow> u32 \<Rightarrow> bytes \<Rightarrow> bytes" where
  "bloom_set 0 bits h delta array = array"
| "bloom_set (Suc j) bits h delta array =
    bloom_set j bits (h + delta) delta (set_filter_bit array (unat h mod bits))"

fun bloom_set_keys :: "nat \<Rightarrow> nat \<Rightarrow> bytes list \<Rightarrow> bytes \<Rightarrow> bytes" where
  "bloom_set_keys k bits [] array = array"
| "bloom_set_keys k bits (key # keys) array =
    (let h = BloomHash key
     in bloom_set_keys k bits keys (bloom_set k bits h (bloom_delta h) array))"

definition Bloom_CreateFilter :: "BloomFilterPolicy \<Rightarrow> bytes list \<Rightarrow> bytes \<Rightarrow> bytes" where
  "Bloom_CreateFilter policy keys dst =
    (let bits = length keys * bf_bits_per_key policy;
         bits = (if bits < 64 then 64 else bits);
         bytes = (bits + 7) div 8;
         bits = bytes * 8;
         init_size = length dst;
         dst = dst @ replicate bytes 0;
         dst = dst @ [of_nat (bf_k policy)]
     in take init_size dst @ bloom_set_keys (bf_k policy) bits keys (drop init_size dst))"

fun bloom_test :: "nat \<Rightarrow> nat \<Rightarrow> u32 \<Rightarrow> u32 \<Rightarrow> bytes \<Rightarrow> bool" where
  "bloom_test 0 bits h delta array = True"
| "bloom_test (Suc j) bits h delta array =
    (let bitpos = unat h mod bits
     in if (array ! (bitpos div 8)) AND push_bit (bitpos mod 8) 1 = 0 then False
        else bloom_test j bits (h + delta) delta array)"

text \<open>The last byte is a signed \<open>char\<close>: a negative one is converted to a number above 30.\<close>

definition Bloom_KeyMayMatch :: "bytes \<Rightarrow> bytes \<Rightarrow> bool" where
  "Bloom_KeyMayMatch key bloom_filter =
    (let len = length bloom_filter
     in if len < 2 then False
        else let bits = (len - 1) * 8;
                 k = unat (scast (bloom_filter ! (len - 1)) :: u64)
             in if k > 30 then True
                else let h = BloomHash key in bloom_test k bits h (bloom_delta h) bloom_filter)"

section \<open>No false negatives\<close>

lemma and_one_bit_eq_0: "b AND 2 ^ i = 0 \<longleftrightarrow> \<not> bit b i" for b :: byte
  by (rule and_exp_eq_0_iff_not_bit)

text \<open>A bit of the filter, and the order in which filters only gain bits.\<close>

definition filter_bit :: "bytes \<Rightarrow> nat \<Rightarrow> bool" where
  "filter_bit array p = bit (array ! (p div 8)) (p mod 8)"

definition gains :: "nat \<Rightarrow> bytes \<Rightarrow> bytes \<Rightarrow> bool" where
  "gains bits a b \<longleftrightarrow> length b = length a \<and> (\<forall>p < bits. filter_bit a p \<longrightarrow> filter_bit b p) \<and>
     (\<forall>i. bits \<le> 8 * i \<longrightarrow> b ! i = a ! i)"

lemma gains_refl: "gains bits a a" by (simp add: gains_def)

lemma gains_trans: "gains bits a b \<Longrightarrow> gains bits b c \<Longrightarrow> gains bits a c"
  by (simp add: gains_def)

lemma gains_set_filter_bit: "p < bits \<Longrightarrow> gains bits a (set_filter_bit a p)"
proof (cases "p div 8 < length a")
  case False
  then have "set_filter_bit a p = a" by (simp add: set_filter_bit_def list_update_beyond)
  then show ?thesis by (simp add: gains_refl)
qed (auto simp: gains_def set_filter_bit_def filter_bit_def nth_list_update bit_simps)

lemma set_filter_bit_sets: "p div 8 < length a \<Longrightarrow> filter_bit (set_filter_bit a p) p"
  by (simp add: set_filter_bit_def filter_bit_def bit_simps)

lemma gains_bloom_set: "0 < bits \<Longrightarrow> gains bits a (bloom_set j bits h d a)"
proof (induction j arbitrary: h a)
  case (Suc j)
  show ?case
    using gains_trans [OF gains_set_filter_bit Suc.IH [OF Suc.prems]] Suc.prems by simp
qed (simp add: gains_refl)

lemma gains_bloom_set_keys: "0 < bits \<Longrightarrow> gains bits a (bloom_set_keys k bits keys a)"
proof (induction keys arbitrary: a)
  case (Cons key keys)
  show ?case using gains_trans [OF gains_bloom_set Cons.IH [OF Cons.prems]] Cons.prems by (simp add: Let_def)
qed (simp add: gains_refl)

lemma bloom_test_set:
  assumes "gains bits (bloom_set j bits h d a) b" and "0 < bits" and "bits \<le> 8 * length a"
  shows "bloom_test j bits h d b"
  using assms
proof (induction j arbitrary: h a)
  case (Suc j)
  let ?p = "unat h mod bits" and ?a = "set_filter_bit a (unat h mod bits)"
  have p: "?p < bits" using Suc.prems(2) by simp
  have "gains bits ?a b"
    using Suc.prems gains_trans [OF gains_bloom_set [OF Suc.prems(2)]] by simp
  moreover have "?p div 8 < length a" using p Suc.prems(3) by linarith
  ultimately have "filter_bit b ?p" using set_filter_bit_sets p by (auto simp: gains_def)
  then have "b ! (?p div 8) AND push_bit (?p mod 8) 1 \<noteq> 0"
    by (simp add: and_one_bit_eq_0 filter_bit_def)
  moreover have "bloom_test j bits (h + d) d b"
    using Suc.IH [of "h + d" ?a] Suc.prems by (simp add: set_filter_bit_def)
  ultimately show ?case by (simp add: Let_def)
qed simp

lemma bloom_test_set_keys:
  assumes "key \<in> set keys" and "0 < bits" and "bits \<le> 8 * length a"
  shows "bloom_test k bits (BloomHash key) (bloom_delta (BloomHash key)) (bloom_set_keys k bits keys a)"
  using assms
proof (induction keys arbitrary: a)
  case (Cons x keys)
  let ?a = "bloom_set k bits (BloomHash x) (bloom_delta (BloomHash x)) a"
  have "length ?a = length a" using gains_bloom_set Cons.prems(2) by (simp add: gains_def)
  then show ?case
    using Cons bloom_test_set [OF gains_bloom_set_keys] by (auto simp: Let_def)
qed simp

lemma scast_small_byte: "n \<le> 30 \<Longrightarrow> unat (scast (of_nat n :: byte) :: u64) = n"
proof -
  assume n: "n \<le> 30"
  have "sint (of_nat n :: byte) = int n"
    using n by (simp add: signed_of_nat signed_take_bit_int_eq_self)
  then have "(scast (of_nat n :: byte) :: u64) = of_nat n" by (simp add: scast_eq)
  then show ?thesis using n by simp
qed

lemma mk_policy_k: "1 \<le> bf_k (mk_BloomFilterPolicy n)" "bf_k (mk_BloomFilterPolicy n) \<le> 30"
  by (simp_all add: mk_BloomFilterPolicy_def Let_def)

lemma Bloom_filter_matches:
  "\<exists>filter. Bloom_CreateFilter (mk_BloomFilterPolicy n) keys dst = dst @ filter \<and>
     (\<forall>key \<in> set keys. Bloom_KeyMayMatch key filter)"
proof -
  let ?p = "mk_BloomFilterPolicy n"
  define bits where "bits = (let b = length keys * bf_bits_per_key ?p in if b < 64 then 64 else b)"
  define nb where "nb = (bits + 7) div 8"
  define arr where "arr = replicate nb 0 @ [of_nat (bf_k ?p) :: byte]"
  define f where "f = bloom_set_keys (bf_k ?p) (nb * 8) keys arr"
  have nb: "8 \<le> nb" by (auto simp: nb_def bits_def Let_def)
  have C: "Bloom_CreateFilter ?p keys dst = dst @ f"
    by (simp add: Bloom_CreateFilter_def f_def arr_def nb_def bits_def Let_def)
  have g: "gains (nb * 8) arr f" unfolding f_def using nb by (intro gains_bloom_set_keys) simp
  have len: "length f = nb + 1" using g by (simp add: gains_def arr_def)
  have "f ! nb = arr ! nb" using g by (simp add: gains_def)
  then have last: "f ! nb = of_nat (bf_k ?p)" by (simp add: arr_def nth_append)
  have "Bloom_KeyMayMatch key f" if "key \<in> set keys" for key
    using bloom_test_set_keys [OF that, of "nb * 8" arr "bf_k ?p"] nb len last mk_policy_k [of n]
      scast_small_byte [of "bf_k ?p"]
    by (simp add: Bloom_KeyMayMatch_def Let_def f_def [symmetric]) (simp add: arr_def)
  then show ?thesis using C by blast
qed

section \<open>Properties\<close>

text \<open>C13: a Bloom filter has no false negatives.  The filter built for a list of keys is
  appended to the destination, and \<open>KeyMayMatch\<close> accepts every key of the list.\<close>

theorem bloom_no_false_negatives:
  "\<exists>filter. Bloom_CreateFilter (mk_BloomFilterPolicy n) keys dst = dst @ filter \<and>
     (\<forall>key \<in> set keys. Bloom_KeyMayMatch key filter)"
  by (rule Bloom_filter_matches)

theorem bloom_no_false_negatives_witness:
  "\<exists>filter. Bloom_CreateFilter (mk_BloomFilterPolicy 10) [[1, 2], [3]] [] = filter \<and>
     Bloom_KeyMayMatch [3] filter"
  using bloom_no_false_negatives [of 10 "[[1, 2], [3]]" "[]"] by simp

end
