(* ===== verification/MetaData.thy ===== *)
theory MetaData
  imports DbFormat Status
begin

text \<open>
  File and guard descriptors, \<^verbatim>\<open>db/version_edit.h\<close>.  An \<open>InternalKey\<close> is its bytes.  The
  back pointer \<open>guard\<close> of a file is assigned and never read, and is left out; the pointers of
  \<open>file_metas\<close> are the descriptors they point to.  Arrays indexed by level are lists of
  \<open>kNumLevels\<close> entries.
\<close>

record FileMetaData =
  f_refs :: int
  f_allowed_seeks :: int
  f_number :: u64
  f_file_size :: u64
  f_smallest :: bytes
  f_largest :: bytes

definition mk_FileMetaData :: FileMetaData where
  "mk_FileMetaData =
    \<lparr>f_refs = 0, f_allowed_seeks = 2 ^ 30, f_number = 0, f_file_size = 0, f_smallest = [], f_largest = []\<rparr>"

record GuardMetaData =
  g_refs :: int
  g_level :: int
  g_number_segments :: u64
  g_guard_key :: bytes
  g_smallest :: bytes
  g_largest :: bytes
  g_files :: "u64 list"
  g_file_metas :: "FileMetaData list"

definition mk_GuardMetaData :: GuardMetaData where
  "mk_GuardMetaData =
    \<lparr>g_refs = 0, g_level = -1, g_number_segments = 0, g_guard_key = [], g_smallest = [], g_largest = [],
     g_files = [], g_file_metas = []\<rparr>"

text \<open>Appending to the vector of one level.\<close>

definition push_level :: "nat \<Rightarrow> 'a \<Rightarrow> 'a list list \<Rightarrow> 'a list list" where
  "push_level level x xss = xss[level := xss ! level @ [x]]"

lemma length_push_level [simp]: "length (push_level level x xss) = length xss"
  by (simp add: push_level_def)

lemma nth_push_level:
  "l < length xss \<Longrightarrow> push_level level x xss ! l = (if l = level then xss ! l @ [x] else xss ! l)"
  by (simp add: push_level_def nth_list_update)

end
