(* ===== verification/WriteBatch.thy ===== *)
theory WriteBatch
  imports Hash MetaData MemTable
begin

text \<open>
  Write batches, \<^verbatim>\<open>db/write_batch.cc\<close>.  A batch is its representation \<open>rep_\<close>: eight bytes of
  sequence number, four of count, then the records.  A \<open>Handler\<close> is a record of three
  functions on a handler state; \<open>None\<close> is a failed assertion or a memtable operation that does
  not return.  The version that receives guards is represented by \<open>complete_guards_\<close>, the only
  part of it that an inserter changes.
\<close>

unbundle bit_operations_syntax

section \<open>Batches\<close>

definition kHeader :: nat where [constants]: "kHeader = 12"

definition WB_Clear :: bytes where
  "WB_Clear = replicate kHeader 0"

definition WB_Count :: "bytes \<Rightarrow> int" where
  "WB_Count rep = sint (DecodeFixed32 (drop 8 rep))"

definition WB_SetCount :: "bytes \<Rightarrow> int \<Rightarrow> bytes" where
  "WB_SetCount rep n = take 8 rep @ EncodeFixed32 (of_int n) @ drop 12 rep"

definition WB_Sequence :: "bytes \<Rightarrow> SequenceNumber" where
  "WB_Sequence rep = DecodeFixed64 rep"

definition WB_SetSequence :: "bytes \<Rightarrow> SequenceNumber \<Rightarrow> bytes" where
  "WB_SetSequence rep seq = EncodeFixed64 seq @ drop 8 rep"

definition WB_Put :: "bytes \<Rightarrow> bytes \<Rightarrow> bytes \<Rightarrow> bytes" where
  "WB_Put rep key value =
    (let rep = WB_SetCount rep (WB_Count rep + 1);
         rep = rep @ [kTypeValue];
         rep = PutLengthPrefixedSlice rep key
     in PutLengthPrefixedSlice rep value)"

definition WB_PutGuard :: "bytes \<Rightarrow> bytes \<Rightarrow> u32 \<Rightarrow> bytes" where
  "WB_PutGuard rep key level =
    (let rep = WB_SetCount rep (WB_Count rep + 1);
         rep = rep @ [kTypeGuard];
         rep = PutLengthPrefixedSlice rep key
     in PutVarint32 rep level)"

definition WB_Delete :: "bytes \<Rightarrow> bytes \<Rightarrow> bytes" where
  "WB_Delete rep key =
    (let rep = WB_SetCount rep (WB_Count rep + 1);
         rep = rep @ [kTypeDeletion]
     in PutLengthPrefixedSlice rep key)"

text \<open>\<open>SetContents\<close> and \<open>Append\<close> assert that the contents have a header.\<close>

definition WB_SetContents :: "bytes \<Rightarrow> bytes option" where
  "WB_SetContents contents = (if length contents \<ge> kHeader then Some contents else None)"

definition WB_Append :: "bytes \<Rightarrow> bytes \<Rightarrow> bytes option" where
  "WB_Append dst src =
    (let dst = WB_SetCount dst (WB_Count dst + WB_Count src)
     in if length src \<ge> kHeader then Some (dst @ drop kHeader src) else None)"

section \<open>Iteration\<close>

record 'h Handler =
  h_Put :: "bytes \<Rightarrow> bytes \<Rightarrow> 'h \<Rightarrow> 'h option"
  h_Delete :: "bytes \<Rightarrow> 'h \<Rightarrow> 'h option"
  h_HandleGuard :: "bytes \<Rightarrow> u32 \<Rightarrow> 'h \<Rightarrow> 'h option"

function Iterate_loop :: "'h Handler \<Rightarrow> int \<Rightarrow> bytes \<Rightarrow> 'h \<Rightarrow> int \<Rightarrow> (Status \<times> 'h) option" where
  "Iterate_loop handler count [] h found =
    (if found \<noteq> count then Some (Corruption (str ''WriteBatch has wrong count'') [], h) else Some (OK, h))"
| "Iterate_loop handler count (tag # input) h found =
    (if tag = kTypeValue then
       (case GetLengthPrefixedSlice input of
          None \<Rightarrow> Some (Corruption (str ''bad WriteBatch Put'') [], h)
        | Some (key, input) \<Rightarrow>
            (case GetLengthPrefixedSlice input of
               None \<Rightarrow> Some (Corruption (str ''bad WriteBatch Put'') [], h)
             | Some (value, input) \<Rightarrow>
                 (case h_Put handler key value h of
                    None \<Rightarrow> None
                  | Some h \<Rightarrow> Iterate_loop handler count input h (found + 1))))
     else if tag = kTypeDeletion then
       (case GetLengthPrefixedSlice input of
          None \<Rightarrow> Some (Corruption (str ''bad WriteBatch Delete'') [], h)
        | Some (key, input) \<Rightarrow>
            (case h_Delete handler key h of
               None \<Rightarrow> None
             | Some h \<Rightarrow> Iterate_loop handler count input h (found + 1)))
     else if tag = kTypeGuard then
       (case GetLengthPrefixedSlice input of
          None \<Rightarrow> Some (Corruption (str ''bad WriteBatch Guard'') [], h)
        | Some (key, input) \<Rightarrow>
            (case GetVarint32 input of
               None \<Rightarrow> Some (Corruption (str ''bad WriteBatch Guard'') [], h)
             | Some (level, input) \<Rightarrow>
                 (case h_HandleGuard handler key level h of
                    None \<Rightarrow> None
                  | Some h \<Rightarrow> Iterate_loop handler count input h (found + 1))))
     else Some (Corruption (str ''unknown WriteBatch tag'') [], h))"
  by pat_completeness auto
termination
  by (relation "measure (\<lambda>(_, _, input, _, _). length input)")
    (auto dest!: GetLengthPrefixedSlice_shorter GetVarint32_shorter)

definition WB_Iterate :: "'h Handler \<Rightarrow> bytes \<Rightarrow> 'h \<Rightarrow> (Status \<times> 'h) option" where
  "WB_Iterate handler rep h =
    (if length rep < kHeader then Some (Corruption (str ''malformed WriteBatch (too small)'') [], h)
     else Iterate_loop handler (WB_Count rep) (drop kHeader rep) h 0)"

section \<open>Inserting into a memtable\<close>

record MemTableInserter =
  mi_sequence :: SequenceNumber
  mi_mem :: MemTable
  mi_version :: "GuardMetaData list list option"

definition MemTableInserter_Put ::
    "(bytes \<Rightarrow> bytes \<Rightarrow> int) \<Rightarrow> (bytes \<Rightarrow> u64) \<Rightarrow> bytes \<Rightarrow> bytes \<Rightarrow> MemTableInserter \<Rightarrow> MemTableInserter option" where
  "MemTableInserter_Put ucmp unum key value i =
    (case MemTable_Add ucmp unum (mi_mem i) (mi_sequence i) kTypeValue key value of
       None \<Rightarrow> None
     | Some mem \<Rightarrow> Some (i\<lparr>mi_mem := mem, mi_sequence := mi_sequence i + 1\<rparr>))"

definition MemTableInserter_Delete ::
    "(bytes \<Rightarrow> bytes \<Rightarrow> int) \<Rightarrow> (bytes \<Rightarrow> u64) \<Rightarrow> bytes \<Rightarrow> MemTableInserter \<Rightarrow> MemTableInserter option" where
  "MemTableInserter_Delete ucmp unum key i =
    (case MemTable_Add ucmp unum (mi_mem i) (mi_sequence i) kTypeDeletion key [] of
       None \<Rightarrow> None
     | Some mem \<Rightarrow> Some (i\<lparr>mi_mem := mem, mi_sequence := mi_sequence i + 1\<rparr>))"

definition MemTableInserter_HandleGuard :: "bytes \<Rightarrow> u32 \<Rightarrow> MemTableInserter \<Rightarrow> MemTableInserter option" where
  "MemTableInserter_HandleGuard key level i =
    (case mi_version i of
       None \<Rightarrow> Some i
     | Some guards \<Rightarrow>
         if \<not> unat level < kNumLevels then None
         else let g = mk_GuardMetaData\<lparr>g_guard_key := InternalKey key (mi_sequence i) kTypeValue,
                        g_level := int (unat level), g_number_segments := 0, g_refs := 1\<rparr>
              in Some (i\<lparr>mi_version := Some (push_level (unat level) g guards),
                         mi_sequence := mi_sequence i + 1\<rparr>))"

definition MemTableInserter_Handler ::
    "(bytes \<Rightarrow> bytes \<Rightarrow> int) \<Rightarrow> (bytes \<Rightarrow> u64) \<Rightarrow> MemTableInserter Handler" where
  "MemTableInserter_Handler ucmp unum =
    \<lparr>h_Put = MemTableInserter_Put ucmp unum, h_Delete = MemTableInserter_Delete ucmp unum,
     h_HandleGuard = MemTableInserter_HandleGuard\<rparr>"

definition InsertIntoVersion ::
    "(bytes \<Rightarrow> bytes \<Rightarrow> int) \<Rightarrow> (bytes \<Rightarrow> u64) \<Rightarrow> bytes \<Rightarrow> MemTable \<Rightarrow> GuardMetaData list list option
      \<Rightarrow> (Status \<times> MemTableInserter) option" where
  "InsertIntoVersion ucmp unum b memtable version =
    WB_Iterate (MemTableInserter_Handler ucmp unum) b
      \<lparr>mi_sequence = WB_Sequence b, mi_mem = memtable, mi_version = version\<rparr>"

definition InsertInto ::
    "(bytes \<Rightarrow> bytes \<Rightarrow> int) \<Rightarrow> (bytes \<Rightarrow> u64) \<Rightarrow> bytes \<Rightarrow> MemTable \<Rightarrow> (Status \<times> MemTableInserter) option" where
  "InsertInto ucmp unum b memtable =
    WB_Iterate (MemTableInserter_Handler ucmp unum) b
      \<lparr>mi_sequence = WB_Sequence b, mi_mem = memtable, mi_version = None\<rparr>"

section \<open>Choosing guards\<close>

definition top_level_bits :: nat where [constants]: "top_level_bits = 27"
definition bit_decrement :: nat where [constants]: "bit_decrement = 2"

record GuardInserter =
  gi_new_batch :: bytes
  gi_sequence :: SequenceNumber
  gi_num_guards :: "int list"

definition set_mask :: "nat \<Rightarrow> u32" where
  "set_mask num_bits = push_bit num_bits 1 - 1"

fun put_guards :: "bytes \<Rightarrow> nat list \<Rightarrow> GuardInserter \<Rightarrow> GuardInserter" where
  "put_guards key [] i = i"
| "put_guards key (j # js) i =
    put_guards key js
      (i\<lparr>gi_new_batch := WB_PutGuard (gi_new_batch i) key (of_nat j),
         gi_num_guards := (gi_num_guards i)[j := gi_num_guards i ! j + 1]\<rparr>)"

text \<open>The levels still to be checked, and the bits for the first of them.\<close>

fun guard_levels :: "bytes \<Rightarrow> u32 \<Rightarrow> nat list \<Rightarrow> nat \<Rightarrow> GuardInserter \<Rightarrow> GuardInserter" where
  "guard_levels key hash_result [] num_bits i = i"
| "guard_levels key hash_result (l # ls) num_bits i =
    (let bit_mask = set_mask num_bits
     in if hash_result AND bit_mask = bit_mask
        then put_guards key [l..<kNumLevels] i
        else guard_levels key hash_result ls (num_bits - bit_decrement) i)"

definition GuardInserter_Put :: "bytes \<Rightarrow> bytes \<Rightarrow> GuardInserter \<Rightarrow> GuardInserter option" where
  "GuardInserter_Put key value i =
    (let hash_result = MurmurHash3_x86_32 key 42;
         i = guard_levels key hash_result [0..<kNumLevels] top_level_bits i
     in Some (i\<lparr>gi_sequence := gi_sequence i + 1\<rparr>))"

definition GuardInserter_Delete :: "bytes \<Rightarrow> GuardInserter \<Rightarrow> GuardInserter option" where
  "GuardInserter_Delete key i = Some (i\<lparr>gi_sequence := gi_sequence i + 1\<rparr>)"

text \<open>\<open>assert(0)\<close>.\<close>

definition GuardInserter_HandleGuard :: "bytes \<Rightarrow> u32 \<Rightarrow> GuardInserter \<Rightarrow> GuardInserter option" where
  "GuardInserter_HandleGuard key level i = None"

definition GuardInserter_Handler :: "GuardInserter Handler" where
  "GuardInserter_Handler =
    \<lparr>h_Put = GuardInserter_Put, h_Delete = GuardInserter_Delete, h_HandleGuard = GuardInserter_HandleGuard\<rparr>"

definition SetGuards :: "bytes \<Rightarrow> bytes \<Rightarrow> (Status \<times> GuardInserter) option" where
  "SetGuards b new_b =
    WB_Iterate GuardInserter_Handler b
      \<lparr>gi_new_batch = new_b, gi_sequence = WB_Sequence b, gi_num_guards = replicate kNumLevels 0\<rparr>"


section \<open>The format of a batch\<close>

datatype batch_op = OpPut bytes bytes | OpDelete bytes | OpGuard bytes u32

fun op_bytes :: "batch_op \<Rightarrow> bytes" where
  "op_bytes (OpPut k v) = kTypeValue # PutLengthPrefixedSlice [] k @ PutLengthPrefixedSlice [] v"
| "op_bytes (OpDelete k) = kTypeDeletion # PutLengthPrefixedSlice [] k"
| "op_bytes (OpGuard k l) = kTypeGuard # PutLengthPrefixedSlice [] k @ PutVarint32 [] l"

fun op_ok :: "batch_op \<Rightarrow> bool" where
  "op_ok (OpPut k v) \<longleftrightarrow> length k + 8 < 2 ^ 32 \<and> length v < 2 ^ 32"
| "op_ok (OpDelete k) \<longleftrightarrow> length k + 8 < 2 ^ 32"
| "op_ok (OpGuard k l) \<longleftrightarrow> length k + 8 < 2 ^ 32"

fun add_op :: "bytes \<Rightarrow> batch_op \<Rightarrow> bytes" where
  "add_op rep (OpPut k v) = WB_Put rep k v"
| "add_op rep (OpDelete k) = WB_Delete rep k"
| "add_op rep (OpGuard k l) = WB_PutGuard rep k l"

fun run_ops :: "'h Handler \<Rightarrow> batch_op list \<Rightarrow> 'h \<Rightarrow> 'h option" where
  "run_ops handler [] h = Some h"
| "run_ops handler (op # ops) h =
    (case (case op of OpPut k v \<Rightarrow> h_Put handler k v h | OpDelete k \<Rightarrow> h_Delete handler k h
                    | OpGuard k l \<Rightarrow> h_HandleGuard handler k l h) of
       None \<Rightarrow> None
     | Some h' \<Rightarrow> run_ops handler ops h')"

definition batch_rep :: "SequenceNumber \<Rightarrow> batch_op list \<Rightarrow> bytes" where
  "batch_rep seq ops = EncodeFixed64 seq @ EncodeFixed32 (of_nat (length ops)) @ concat (map op_bytes ops)"

lemma length_batch_rep: "kHeader \<le> length (batch_rep seq ops)"
  by (simp add: batch_rep_def constants)

lemma drop_batch_rep [simp]:
  "drop kHeader (batch_rep seq ops) = concat (map op_bytes ops)"
  "drop 8 (batch_rep seq ops) = EncodeFixed32 (of_nat (length ops)) @ concat (map op_bytes ops)"
  "take 8 (batch_rep seq ops) = EncodeFixed64 seq" "drop 12 (batch_rep seq ops) = concat (map op_bytes ops)"
  by (simp_all add: batch_rep_def constants)

lemma WB_Sequence_batch [simp]: "WB_Sequence (batch_rep seq ops) = seq"
  by (simp add: WB_Sequence_def batch_rep_def)

lemma WB_Count_batch [simp]: "length ops < 2 ^ 31 \<Longrightarrow> WB_Count (batch_rep seq ops) = int (length ops)"
  by (simp add: WB_Count_def signed_of_nat signed_take_bit_int_eq_self)

lemma WB_Count_batch_word: "of_int (WB_Count (batch_rep seq ops)) = (of_nat (length ops) :: u32)"
  by (simp add: WB_Count_def)

lemma WB_SetSequence_batch [simp]: "WB_SetSequence (batch_rep seq ops) seq' = batch_rep seq' ops"
  by (simp add: WB_SetSequence_def) (simp add: batch_rep_def)

lemma WB_Clear_batch: "WB_Clear = batch_rep 0 []"
  by (simp add: WB_Clear_def batch_rep_def EncodeFixed64_def EncodeFixed32_def constants numeral_eq_Suc)

lemma WB_SetCount_batch:
  "WB_SetCount (batch_rep seq ops) (WB_Count (batch_rep seq ops) + int n) =
    EncodeFixed64 seq @ EncodeFixed32 (of_nat (length ops + n)) @ concat (map op_bytes ops)"
  unfolding WB_SetCount_def drop_batch_rep of_int_add WB_Count_batch_word by (simp add: add.commute)

lemma add_op_batch: "add_op (batch_rep seq ops) op = batch_rep seq (ops @ [op])"
  using WB_SetCount_batch [of seq ops 1]
  by (cases op) (simp_all add: WB_Put_def WB_Delete_def WB_PutGuard_def Put_append [of "_ @ _"] batch_rep_def)

lemma add_ops_batch: "foldl add_op (batch_rep seq ops) ops' = batch_rep seq (ops @ ops')"
  by (induction ops' arbitrary: ops) (simp_all add: add_op_batch)

lemma WB_Append_batch: "WB_Append (batch_rep seq ops) (batch_rep seq' ops') = Some (batch_rep seq (ops @ ops'))"
proof -
  have "WB_SetCount (batch_rep seq ops) (WB_Count (batch_rep seq ops) + WB_Count (batch_rep seq' ops')) =
    EncodeFixed64 seq @ EncodeFixed32 (of_nat (length ops + length ops')) @ concat (map op_bytes ops)"
    unfolding WB_SetCount_def drop_batch_rep of_int_add WB_Count_batch_word by simp
  then show ?thesis using length_batch_rep by (simp add: WB_Append_def) (simp add: batch_rep_def)
qed

lemma Iterate_loop_ops:
  assumes "\<forall>op \<in> set ops. op_ok op"
  shows "Iterate_loop handler count (concat (map op_bytes ops)) h found =
    (case run_ops handler ops h of
       None \<Rightarrow> None
     | Some h' \<Rightarrow> Iterate_loop handler count [] h' (found + int (length ops)))"
  using assms
proof (induction ops arbitrary: h found)
  case (Cons op ops)
  have IH: "Iterate_loop handler count (concat (map op_bytes ops)) h' (found + 1) =
    (case run_ops handler ops h' of
       None \<Rightarrow> None
     | Some h'' \<Rightarrow> Iterate_loop handler count [] h'' (found + int (length (op # ops))))" for h'
  proof -
    have "found + int (length (op # ops)) = found + 1 + int (length ops)" by simp
    moreover have "\<forall>op \<in> set ops. op_ok op" using Cons.prems by simp
    ultimately show ?thesis using Cons.IH [of h' "found + 1"] by (simp only:)
  qed
  show ?case
    using Cons.prems
    by (cases op) (simp_all add: IH constants PutVarint32_def del: Iterate_loop.simps(1) split: option.split)
qed simp

lemma WB_Iterate_batch:
  assumes "\<forall>op \<in> set ops. op_ok op" and "length ops < 2 ^ 31"
  shows "WB_Iterate handler (batch_rep seq ops) h = map_option (Pair OK) (run_ops handler ops h)"
proof -
  have "\<not> length (batch_rep seq ops) < kHeader" using length_batch_rep not_less by blast
  then show ?thesis
    unfolding WB_Iterate_def drop_batch_rep Iterate_loop_ops [OF assms(1)] WB_Count_batch [OF assms(2)]
    by (simp split: option.split)
qed

section \<open>Inserting a batch\<close>

fun op_item :: "SequenceNumber \<Rightarrow> batch_op \<Rightarrow> mem_item" where
  "op_item s (OpPut k v) = (k, s, kTypeValue, v)"
| "op_item s (OpDelete k) = (k, s, kTypeDeletion, [])"
| "op_item s (OpGuard k l) = (k, s, kTypeGuard, [])"

fun is_write :: "batch_op \<Rightarrow> bool" where
  "is_write (OpGuard k l) = False"
| "is_write _ = True"

fun numbered :: "SequenceNumber \<Rightarrow> batch_op list \<Rightarrow> mem_item list" where
  "numbered s [] = []"
| "numbered s (op # ops) = op_item s op # numbered (s + 1) ops"

lemma run_inserter:
  assumes "\<forall>op \<in> set ops. is_write op"
  shows "run_ops (MemTableInserter_Handler ucmp unum) ops i =
    map_option (\<lambda>mt. i\<lparr>mi_mem := mt, mi_sequence := mi_sequence i + of_nat (length ops)\<rparr>)
      (MemTable_Adds ucmp unum (mi_mem i) (numbered (mi_sequence i) ops))"
  using assms
proof (induction ops arbitrary: i)
  case (Cons op ops)
  show ?case
  proof (cases op)
    case (OpPut k v)
    show ?thesis
      using Cons by (cases "MemTable_Add ucmp unum (mi_mem i) (mi_sequence i) kTypeValue k v")
        (simp_all add: OpPut MemTableInserter_Handler_def MemTableInserter_Put_def add_ac)
  next
    case (OpDelete k)
    show ?thesis
      using Cons by (cases "MemTable_Add ucmp unum (mi_mem i) (mi_sequence i) kTypeDeletion k []")
        (simp_all add: OpDelete MemTableInserter_Handler_def MemTableInserter_Delete_def add_ac)
  next
    case (OpGuard k l)
    then show ?thesis using Cons.prems by simp
  qed
qed simp

lemma numbered_seq:
  assumes "unat s + length ops \<le> 2 ^ 56" and "(u, q, t, v) \<in> set (numbered s ops)"
  shows "unat s \<le> unat q \<and> unat q < unat s + length ops"
  using assms
proof (induction ops arbitrary: s)
  case (Cons op ops)
  have s1: "ops = [] \<or> unat (s + 1) = unat s + 1" using Cons.prems(1)
    by (cases ops) (simp_all add: unat_word_ariths)
  show ?case
  proof (cases "(u, q, t, v) = op_item s op")
    case True
    then have "q = s" by (cases op) auto
    then show ?thesis by simp
  next
    case False
    then have m: "(u, q, t, v) \<in> set (numbered (s + 1) ops)" using Cons.prems(2) by simp
    then have s2: "unat (s + 1) = unat s + 1" using s1 by auto
    have "unat (s + 1) + length ops \<le> 2 ^ 56" using Cons.prems(1) unfolding s2 by simp
    from Cons.IH [OF this m] show ?thesis unfolding s2 by simp
  qed
qed simp


lemma numbered_distinct:
  assumes "unat s + length ops \<le> 2 ^ 56"
  shows "distinct (map item_key (numbered s ops))"
  using assms
proof (induction ops arbitrary: s)
  case (Cons op ops)
  show ?case
  proof (cases "ops = []")
    case False
    then have s1: "unat (s + 1) = unat s + 1" using Cons.prems by (cases ops) (simp_all add: unat_word_ariths)
    then have le: "unat (s + 1) + length ops \<le> 2 ^ 56" using Cons.prems by simp
    have "item_key (op_item s op) \<notin> item_key ` set (numbered (s + 1) ops)"
    proof
      assume "item_key (op_item s op) \<in> item_key ` set (numbered (s + 1) ops)"
      then obtain e where e: "item_key (op_item s op) = item_key e" "e \<in> set (numbered (s + 1) ops)"
        by (rule imageE)
      obtain u q t v where E: "e = (u, q, t, v)" by (cases e)
      have "q = s" using e(1) E by (cases op) auto
      then show False using numbered_seq [OF le, of u q t v] e(2) E s1 by simp
    qed
    then show ?thesis using Cons.IH [OF le] by simp
  qed simp
qed simp

lemma numbered_ok:
  assumes "\<forall>op \<in> set ops. op_ok op \<and> is_write op" and "unat s + length ops \<le> 2 ^ 56"
  shows "\<forall>e \<in> set (numbered s ops). item_ok e"
  using assms
proof (induction ops arbitrary: s)
  case (Cons op ops)
  have "unat s < 2 ^ 56" using Cons.prems(2) by simp
  then have "s \<le> kMaxSequenceNumber" by (simp add: constants word_le_nat_alt)
  then have "item_ok (op_item s op)"
    using Cons.prems(1) by (cases op) (auto simp: PackSequenceAndType_pre_def constants)
  moreover have "\<forall>e \<in> set (numbered (s + 1) ops). item_ok e"
  proof (cases "ops = []")
    case False
    then have "unat (s + 1) = unat s + 1" using Cons.prems by (cases ops) (simp_all add: unat_word_ariths)
    then show ?thesis using Cons.IH [of "s + 1"] Cons.prems by simp
  qed simp
  ultimately show ?case by simp
qed simp

fun op_key :: "batch_op \<Rightarrow> bytes" where
  "op_key (OpPut k v) = k"
| "op_key (OpDelete k) = k"
| "op_key (OpGuard k l) = k"

text \<open>The last operation of a batch on a key decides what a later read sees.\<close>

fun last_op :: "bytes \<Rightarrow> batch_op list \<Rightarrow> batch_op option" where
  "last_op u [] = None"
| "last_op u (op # ops) =
    (case last_op u ops of Some op' \<Rightarrow> Some op' | None \<Rightarrow> if op_key op = u then Some op else None)"

definition op_answer :: "batch_op option \<Rightarrow> bytes \<Rightarrow> Status \<Rightarrow> bool \<times> bytes \<times> Status" where
  "op_answer r value st =
    (case r of
       None \<Rightarrow> (False, value, st)
     | Some (OpPut k v) \<Rightarrow> (True, v, st)
     | Some _ \<Rightarrow> (True, value, NotFound [] []))"

lemma visible_op_item: "visible u snap (op_item s op) \<longleftrightarrow> op_key op = u \<and> s \<le> snap"
  by (cases op) auto

lemma newest_numbered:
  assumes "unat s + length ops \<le> 2 ^ 56" and "unat s + length ops \<le> unat snap + 1"
  shows "mem_answer (newest (numbered s ops) u snap) value st = op_answer (last_op u ops) value st \<and>
    (newest (numbered s ops) u snap = None \<longleftrightarrow> last_op u ops = None)"
  using assms
proof (induction ops arbitrary: s)
  case (Cons op ops)
  show ?case
  proof (cases "newest (numbered (s + 1) ops) u snap")
    case None
    have "last_op u ops = None"
    proof (cases "ops = []")
      case False
      then have "unat (s + 1) = unat s + 1" using Cons.prems by (cases ops) (simp_all add: unat_word_ariths)
      then show ?thesis using Cons None by simp
    qed simp
    moreover have "s \<le> snap" using Cons.prems(2) by (simp add: word_le_nat_alt)
    ultimately show ?thesis using None
      by (cases op) (simp_all add: mem_answer_def op_answer_def constants)
  next
    case (Some b)
    then have b: "b \<in> set (numbered (s + 1) ops)" using newest_in by blast
    then have "ops \<noteq> []" by auto
    then have s1: "unat (s + 1) = unat s + 1" using Cons.prems by (cases ops) (simp_all add: unat_word_ariths)
    have "mem_answer (Some b) value st = op_answer (last_op u ops) value st \<and> last_op u ops \<noteq> None"
      using Cons.IH [of "s + 1"] Cons.prems s1 Some by simp
    moreover have "\<not> later (op_item s op) b"
    proof -
      obtain u' q t v where E: "b = (u', q, t, v)" by (cases b)
      have "unat s < unat q" using numbered_seq [of "s + 1" ops u' q t v] b E Cons.prems s1 by simp
      then show ?thesis using E by (cases op) (auto simp: word_less_nat_alt)
    qed
    ultimately show ?thesis using Some by auto
  qed
qed (simp add: mem_answer_def op_answer_def)

section \<open>The levels of a guard\<close>

definition guard_at :: "u32 \<Rightarrow> nat \<Rightarrow> bool" where
  "guard_at hash_result level \<longleftrightarrow> hash_result AND mask (27 - 2 * level) = mask (27 - 2 * level)"

lemma set_mask_eq: "set_mask n = mask n"
  by (simp add: set_mask_def mask_eq_decr_exp)

lemma mask_match_mono:
  fixes h :: u32
  assumes "h AND mask m = mask m" and "n \<le> m"
  shows "h AND mask n = mask n"
proof (rule bit_word_eqI)
  fix i assume "i < LENGTH(32)"
  have "bit h i" if "i < m" "i < 32"
    using arg_cong [OF assms(1), of "\<lambda>w. bit w i"] that by (simp add: bit_simps)
  then show "bit (h AND mask n) i = bit (mask n :: u32) i"
    using assms(2) \<open>i < LENGTH(32)\<close> by (auto simp: bit_simps)
qed

lemma guard_at_mono: "guard_at h l \<Longrightarrow> l \<le> l' \<Longrightarrow> guard_at h l'"
  unfolding guard_at_def by (erule mask_match_mono) simp

lemma guard_levels_filter:
  assumes "l \<le> 7"
  shows "guard_levels key h [l..<7] (27 - 2 * l) i = put_guards key (filter (guard_at h) [l..<7]) i"
  using assms
proof (induction "7 - l" arbitrary: l)
  case (Suc k)
  then have l: "l < 7" by simp
  show ?case
  proof (cases "guard_at h l")
    case True
    then have "filter (guard_at h) [l..<7] = [l..<7]"
      by (auto simp: filter_id_conv intro: guard_at_mono)
    moreover have "guard_levels key h [l..<7] (27 - 2 * l) i = put_guards key [l..<7] i"
      using True l by (simp add: upt_conv_Cons guard_at_def set_mask_eq constants)
    ultimately show ?thesis by simp
  next
    case False
    then have "guard_levels key h [l..<7] (27 - 2 * l) i = guard_levels key h [Suc l..<7] (27 - 2 * Suc l) i"
      using l by (simp add: upt_conv_Cons guard_at_def set_mask_eq constants)
    then show ?thesis using Suc.hyps(1) [of "Suc l"] Suc.hyps(2) l False by (simp add: upt_conv_Cons)
  qed
qed simp

lemma put_guards_batch:
  "gi_new_batch (put_guards key js i) = foldl add_op (gi_new_batch i) (map (\<lambda>j. OpGuard key (of_nat j)) js)"
  "gi_sequence (put_guards key js i) = gi_sequence i"
  by (induction js arbitrary: i) simp_all

fun op_guards :: "batch_op \<Rightarrow> batch_op list" where
  "op_guards (OpPut k v) =
    map (\<lambda>j. OpGuard k (of_nat j)) (filter (guard_at (MurmurHash3_x86_32 k 42)) [0..<kNumLevels])"
| "op_guards _ = []"

lemma run_guards:
  assumes "\<forall>op \<in> set ops. is_write op"
  shows "\<exists>i'. run_ops GuardInserter_Handler ops i = Some i' \<and>
    gi_new_batch i' = foldl add_op (gi_new_batch i) (concat (map op_guards ops)) \<and>
    gi_sequence i' = gi_sequence i + of_nat (length ops)"
  using assms
proof (induction ops arbitrary: i)
  case (Cons op ops)
  show ?case
  proof (cases op)
    case (OpPut k v)
    let ?i = "put_guards k (filter (guard_at (MurmurHash3_x86_32 k 42)) [0..<7]) i"
    have "GuardInserter_Put k v i = Some (?i\<lparr>gi_sequence := gi_sequence ?i + 1\<rparr>)"
      using guard_levels_filter [of 0 k "MurmurHash3_x86_32 k 42" i]
      by (simp add: GuardInserter_Put_def constants Let_def)
    then show ?thesis
      using Cons.IH [of "?i\<lparr>gi_sequence := gi_sequence ?i + 1\<rparr>"] Cons.prems
      by (simp add: OpPut GuardInserter_Handler_def put_guards_batch kNumLevels_def add_ac del: upt_rec_numeral)
  next
    case (OpDelete k)
    then show ?thesis
      using Cons.IH [of "i\<lparr>gi_sequence := gi_sequence i + 1\<rparr>"] Cons.prems
      by (simp add: GuardInserter_Handler_def GuardInserter_Delete_def add_ac)
  next
    case (OpGuard k l)
    then show ?thesis using Cons.prems by simp
  qed
qed simp


section \<open>Properties\<close>

text \<open>C28: a batch built by \<open>Put\<close>, \<open>Delete\<close> and \<open>PutGuard\<close> keeps its operations.  Iterating over
  it gives the handler exactly these operations in order and returns OK (unless the handler
  itself fails), the count and sequence number read back as set, and \<open>Append\<close> concatenates two
  batches, keeping the sequence number of the first.\<close>

theorem write_batch_roundtrip:
  assumes "\<forall>op \<in> set (ops @ ops'). op_ok op" and "length (ops @ ops') < 2 ^ 31"
  shows "let b = WB_SetSequence (foldl add_op WB_Clear ops) s;
      b' = WB_SetSequence (foldl add_op WB_Clear ops') s'
    in WB_Iterate handler b h = map_option (Pair OK) (run_ops handler ops h) \<and>
       WB_Count b = int (length ops) \<and> WB_Sequence b = s \<and>
       (\<exists>b''. WB_Append b b' = Some b'' \<and> WB_Sequence b'' = s \<and> WB_Count b'' = int (length (ops @ ops')) \<and>
          WB_Iterate handler b'' h = map_option (Pair OK) (run_ops handler (ops @ ops') h))"
  using assms
  by (simp add: WB_Clear_batch add_ops_batch WB_Iterate_batch WB_Append_batch del: map_option_case)

theorem write_batch_roundtrip_witness:
  "let b = WB_SetSequence (foldl add_op WB_Clear [OpPut [1] [2], OpDelete [3], OpGuard [1] 5]) 9
   in WB_Count b = 3 \<and> WB_Sequence b = 9"
  using write_batch_roundtrip [of "[OpPut [1] [2], OpDelete [3], OpGuard [1] 5]" "[]" 9 0 GuardInserter_Handler
      "\<lparr>gi_new_batch = [], gi_sequence = 0, gi_num_guards = []\<rparr>"]
  by (simp add: Let_def)

text \<open>C10: a batch of puts and deletes is applied atomically and in order.  Inserting it into an
  empty memtable succeeds, its operations take consecutive sequence numbers from that of the
  batch, and a read at any snapshot past them sees, for every key, the last operation of the
  batch on that key.\<close>

theorem write_batch_insert:
  assumes "\<forall>op \<in> set ops. op_ok op \<and> is_write op" and "unat s + length ops \<le> 2 ^ 56"
    and "length ops < 2 ^ 31" and "length u + 8 < 2 ^ 32"
    and "snap \<le> kMaxSequenceNumber" and "unat s + length ops \<le> unat snap + 1"
  shows "\<exists>i. InsertInto Slice_compare KeyNum (WB_SetSequence (foldl add_op WB_Clear ops) s) (mk_MemTable KeyNum)
      = Some (OK, i) \<and> mi_sequence i = s + of_nat (length ops) \<and>
    MemTable_Get Slice_compare KeyNum (mi_mem i) (mk_LookupKey u snap) value st =
      Some (op_answer (last_op u ops) value st)"
proof -
  let ?i = "\<lparr>mi_sequence = s, mi_mem = mk_MemTable KeyNum, mi_version = None\<rparr>"
  obtain mt where mt: "MemTable_Adds Slice_compare KeyNum (mk_MemTable KeyNum) (numbered s ops) = Some mt"
    "mt_rep mt (numbered s ops)"
    using Adds_rep [OF mk_MemTable_rep numbered_ok [OF assms(1,2)] numbered_distinct [OF assms(2)], of KeyNum] by auto
  have "\<forall>op \<in> set ops. op_ok op" "\<forall>op \<in> set ops. is_write op" using assms(1) by auto
  then have "InsertInto Slice_compare KeyNum (batch_rep s ops) (mk_MemTable KeyNum) =
      Some (OK, ?i\<lparr>mi_mem := mt, mi_sequence := s + of_nat (length ops)\<rparr>)"
    using mt(1) assms(3) by (simp add: InsertInto_def WB_Iterate_batch run_inserter)
  moreover have "WB_SetSequence (foldl add_op WB_Clear ops) s = batch_rep s ops"
    by (simp add: WB_Clear_batch add_ops_batch)
  ultimately show ?thesis
    using Get_rep [OF mt(2) assms(4,5)] newest_numbered [OF assms(2,6)] by simp
qed

theorem write_batch_insert_witness:
  "\<exists>i. InsertInto Slice_compare KeyNum
      (WB_SetSequence (foldl add_op WB_Clear [OpPut [7] [1], OpPut [8] [2], OpDelete [7]]) 100) (mk_MemTable KeyNum)
      = Some (OK, i) \<and> mi_sequence i = 103 \<and>
    MemTable_Get Slice_compare KeyNum (mi_mem i) (mk_LookupKey [7] 102) [] OK = Some (True, [], NotFound [] [])"
  using write_batch_insert [of "[OpPut [7] [1], OpPut [8] [2], OpDelete [7]]" 100 "[7]" 102 "[]" OK]
  by (simp add: op_answer_def constants word_le_nat_alt)



end
