(* ===== verification/VersionEdit.thy ===== *)
theory VersionEdit
  imports MetaData "HOL-Library.Monad_Syntax"
begin

text \<open>
  Version edits, \<^verbatim>\<open>db/version_edit.h\<close> and \<^verbatim>\<open>db/version_edit.cc\<close>: the records of the MANIFEST.
  A \<open>std::set\<close> is the list of its elements in increasing order.  The comparator of
  \<open>deleted_guards_\<close> is an argument.  \<open>None\<close> as the result of decoding is a failed assertion or a
  read of a local variable that has not been set.
\<close>

section \<open>Ordered sets\<close>

fun set_insert :: "('a \<Rightarrow> 'a \<Rightarrow> bool) \<Rightarrow> 'a \<Rightarrow> 'a list \<Rightarrow> 'a list" where
  "set_insert lt p [] = [p]"
| "set_insert lt p (x # xs) =
    (if lt p x then p # x # xs else if lt x p then x # set_insert lt p xs else x # xs)"

definition FilePair_less :: "nat \<times> u64 \<Rightarrow> nat \<times> u64 \<Rightarrow> bool" where
  "FilePair_less p q \<longleftrightarrow> fst p < fst q \<or> (fst p = fst q \<and> snd p < snd q)"

definition BySmallestPair :: "(bytes \<Rightarrow> bytes \<Rightarrow> int) \<Rightarrow> nat \<times> bytes \<Rightarrow> nat \<times> bytes \<Rightarrow> bool" where
  "BySmallestPair icmp p1 p2 =
    (if fst p1 \<noteq> fst p2 then fst p1 < fst p2 else icmp (snd p1) (snd p2) < 0)"

section \<open>Edits\<close>

record VersionEdit =
  e_comparator :: bytes
  e_log_number :: u64
  e_prev_log_number :: u64
  e_next_file_number :: u64
  e_last_sequence :: SequenceNumber
  e_has_comparator :: bool
  e_has_log_number :: bool
  e_has_prev_log_number :: bool
  e_has_next_file_number :: bool
  e_has_last_sequence :: bool
  e_compact_pointers :: "(nat \<times> bytes) list"
  e_deleted_files :: "(nat \<times> u64) list"
  e_new_files :: "(nat \<times> FileMetaData) list"
  e_sentinel_files :: "FileMetaData list list"
  e_sentinel_file_nos :: "u64 list list"
  e_deleted_sentinel_files :: "(nat \<times> u64) list"
  e_new_guards :: "GuardMetaData list list"
  e_new_complete_guards :: "GuardMetaData list list"
  e_deleted_guards :: "(nat \<times> bytes) list"

text \<open>\<open>Clear\<close> resets all but \<open>compact_pointers_\<close>, \<open>sentinel_file_nos_\<close> and
  \<open>new_complete_guards_\<close>.\<close>

definition VE_Clear :: "VersionEdit \<Rightarrow> VersionEdit" where
  "VE_Clear e = e
    \<lparr>e_comparator := [], e_log_number := 0, e_prev_log_number := 0, e_last_sequence := 0,
     e_next_file_number := 0, e_has_comparator := False, e_has_log_number := False,
     e_has_prev_log_number := False, e_has_next_file_number := False, e_has_last_sequence := False,
     e_deleted_files := [], e_new_files := [], e_deleted_guards := [],
     e_new_guards := replicate kNumLevels [], e_sentinel_files := replicate kNumLevels [],
     e_deleted_sentinel_files := []\<rparr>"

definition mk_VersionEdit :: VersionEdit where
  "mk_VersionEdit = VE_Clear
    \<lparr>e_comparator = [], e_log_number = 0, e_prev_log_number = 0, e_next_file_number = 0,
     e_last_sequence = 0, e_has_comparator = False, e_has_log_number = False,
     e_has_prev_log_number = False, e_has_next_file_number = False, e_has_last_sequence = False,
     e_compact_pointers = [], e_deleted_files = [], e_new_files = [],
     e_sentinel_files = replicate kNumLevels [], e_sentinel_file_nos = replicate kNumLevels [],
     e_deleted_sentinel_files = [], e_new_guards = replicate kNumLevels [],
     e_new_complete_guards = replicate kNumLevels [], e_deleted_guards = []\<rparr>"

definition SetComparatorName :: "bytes \<Rightarrow> VersionEdit \<Rightarrow> VersionEdit" where
  "SetComparatorName name e = e\<lparr>e_has_comparator := True, e_comparator := name\<rparr>"

definition SetLogNumber :: "u64 \<Rightarrow> VersionEdit \<Rightarrow> VersionEdit" where
  "SetLogNumber num e = e\<lparr>e_has_log_number := True, e_log_number := num\<rparr>"

definition SetPrevLogNumber :: "u64 \<Rightarrow> VersionEdit \<Rightarrow> VersionEdit" where
  "SetPrevLogNumber num e = e\<lparr>e_has_prev_log_number := True, e_prev_log_number := num\<rparr>"

definition SetNextFile :: "u64 \<Rightarrow> VersionEdit \<Rightarrow> VersionEdit" where
  "SetNextFile num e = e\<lparr>e_has_next_file_number := True, e_next_file_number := num\<rparr>"

definition SetLastSequence :: "SequenceNumber \<Rightarrow> VersionEdit \<Rightarrow> VersionEdit" where
  "SetLastSequence seq e = e\<lparr>e_has_last_sequence := True, e_last_sequence := seq\<rparr>"

definition SetCompactPointer :: "nat \<Rightarrow> bytes \<Rightarrow> VersionEdit \<Rightarrow> VersionEdit" where
  "SetCompactPointer level key e = e\<lparr>e_compact_pointers := e_compact_pointers e @ [(level, key)]\<rparr>"

definition AddFile :: "nat \<Rightarrow> u64 \<Rightarrow> u64 \<Rightarrow> bytes \<Rightarrow> bytes \<Rightarrow> VersionEdit \<Rightarrow> VersionEdit" where
  "AddFile level num file_size smallest largest e =
    (let f = mk_FileMetaData\<lparr>f_number := num, f_file_size := file_size, f_smallest := smallest, f_largest := largest\<rparr>
     in e\<lparr>e_new_files := e_new_files e @ [(level, f)]\<rparr>)"

definition AddFileToSentinel :: "FileMetaData \<Rightarrow> nat \<Rightarrow> VersionEdit \<Rightarrow> VersionEdit" where
  "AddFileToSentinel f level e = e\<lparr>e_sentinel_files := push_level level f (e_sentinel_files e)\<rparr>"

definition AddSentinelFileNo :: "nat \<Rightarrow> u64 \<Rightarrow> VersionEdit \<Rightarrow> VersionEdit" where
  "AddSentinelFileNo level number e = e\<lparr>e_sentinel_file_nos := push_level level number (e_sentinel_file_nos e)\<rparr>"

text \<open>The assertions that the level is in range are preconditions of the next functions.\<close>

definition AddGuard :: "nat \<Rightarrow> bytes \<Rightarrow> VersionEdit \<Rightarrow> VersionEdit" where
  "AddGuard level guard_key e =
    (let g = mk_GuardMetaData\<lparr>g_guard_key := guard_key, g_level := int level, g_number_segments := 0\<rparr>
     in e\<lparr>e_new_guards := push_level level g (e_new_guards e)\<rparr>)"

definition AddCompleteGuard :: "nat \<Rightarrow> bytes \<Rightarrow> VersionEdit \<Rightarrow> VersionEdit" where
  "AddCompleteGuard level guard_key e =
    (let g = mk_GuardMetaData\<lparr>g_guard_key := guard_key, g_level := int level, g_number_segments := 0\<rparr>
     in e\<lparr>e_new_complete_guards := push_level level g (e_new_complete_guards e)\<rparr>)"

definition AddGuardFromExisting :: "nat \<Rightarrow> GuardMetaData \<Rightarrow> VersionEdit \<Rightarrow> VersionEdit" where
  "AddGuardFromExisting level g e = e\<lparr>e_new_guards := push_level level g (e_new_guards e)\<rparr>"

definition AddCompleteGuardFromExisting :: "nat \<Rightarrow> GuardMetaData \<Rightarrow> VersionEdit \<Rightarrow> VersionEdit" where
  "AddCompleteGuardFromExisting level g e = e\<lparr>e_new_complete_guards := push_level level g (e_new_complete_guards e)\<rparr>"

definition AddGuardWithFiles ::
    "nat \<Rightarrow> u64 \<Rightarrow> bytes \<Rightarrow> bytes \<Rightarrow> bytes \<Rightarrow> u64 list \<Rightarrow> VersionEdit \<Rightarrow> VersionEdit" where
  "AddGuardWithFiles level number_segments guard_key smallest largest files e =
    (let g = mk_GuardMetaData\<lparr>g_guard_key := guard_key, g_level := int level, g_smallest := smallest,
               g_largest := largest, g_number_segments := number_segments, g_files := files\<rparr>
     in e\<lparr>e_new_guards := push_level level g (e_new_guards e)\<rparr>)"

definition VE_DeleteFile :: "nat \<Rightarrow> u64 \<Rightarrow> VersionEdit \<Rightarrow> VersionEdit" where
  "VE_DeleteFile level num e = e\<lparr>e_deleted_files := set_insert FilePair_less (level, num) (e_deleted_files e)\<rparr>"

definition DeleteGuard :: "(bytes \<Rightarrow> bytes \<Rightarrow> int) \<Rightarrow> nat \<Rightarrow> bytes \<Rightarrow> VersionEdit \<Rightarrow> VersionEdit" where
  "DeleteGuard icmp level guard e =
    e\<lparr>e_deleted_guards := set_insert (BySmallestPair icmp) (level, guard) (e_deleted_guards e)\<rparr>"

definition DeleteSentinelFile :: "nat \<Rightarrow> u64 \<Rightarrow> VersionEdit \<Rightarrow> VersionEdit" where
  "DeleteSentinelFile level num e =
    e\<lparr>e_deleted_sentinel_files := set_insert FilePair_less (level, num) (e_deleted_sentinel_files e)\<rparr>"

definition UpdateGuards :: "VersionEdit \<Rightarrow> u64 list \<Rightarrow> u64 list" where
  "UpdateGuards e guard_array = map2 (\<lambda>n gs. n + of_nat (length gs)) guard_array (e_new_guards e)"

section \<open>Encoding\<close>

definition kComparator :: u32 where [constants]: "kComparator = 1"
definition kLogNumber :: u32 where [constants]: "kLogNumber = 2"
definition kNextFileNumber :: u32 where [constants]: "kNextFileNumber = 3"
definition kLastSequence :: u32 where [constants]: "kLastSequence = 4"
definition kCompactPointer :: u32 where [constants]: "kCompactPointer = 5"
definition kDeletedFile :: u32 where [constants]: "kDeletedFile = 6"
definition kNewFile :: u32 where [constants]: "kNewFile = 7"
definition kPrevLogNumber :: u32 where [constants]: "kPrevLogNumber = 9"
definition kDeletedGuard :: u32 where [constants]: "kDeletedGuard = 10"
definition kNewGuard :: u32 where [constants]: "kNewGuard = 11"
definition kFileInsideGuard :: u32 where [constants]: "kFileInsideGuard = 12"
definition kNewSentinelFile :: u32 where [constants]: "kNewSentinelFile = 13"
definition kDeletedSentinelFile :: u32 where [constants]: "kDeletedSentinelFile = 14"
definition kNewCompleteGuard :: u32 where [constants]: "kNewCompleteGuard = 15"
definition kNewSentinelFileNo :: u32 where [constants]: "kNewSentinelFileNo = 16"

definition put_number :: "u32 \<Rightarrow> u64 \<Rightarrow> bytes \<Rightarrow> bytes" where
  "put_number tag n dst = PutVarint64 (PutVarint32 dst tag) n"

definition put_pointer :: "u32 \<Rightarrow> nat \<times> bytes \<Rightarrow> bytes \<Rightarrow> bytes" where
  "put_pointer tag p dst =
    PutLengthPrefixedSlice (PutVarint32 (PutVarint32 dst tag) (of_nat (fst p))) (snd p)"

definition put_file_pair :: "u32 \<Rightarrow> nat \<times> u64 \<Rightarrow> bytes \<Rightarrow> bytes" where
  "put_file_pair tag p dst = PutVarint64 (PutVarint32 (PutVarint32 dst tag) (of_nat (fst p))) (snd p)"

definition put_new_file :: "nat \<times> FileMetaData \<Rightarrow> bytes \<Rightarrow> bytes" where
  "put_new_file p dst =
    (let f = snd p;
         dst = PutVarint32 dst kNewFile;
         dst = PutVarint32 dst (of_nat (fst p));
         dst = PutVarint64 dst (f_number f);
         dst = PutVarint64 dst (f_file_size f);
         dst = PutLengthPrefixedSlice dst (f_smallest f)
     in PutLengthPrefixedSlice dst (f_largest f))"

definition put_guard :: "u32 \<Rightarrow> GuardMetaData \<Rightarrow> bytes \<Rightarrow> bytes" where
  "put_guard tag g dst =
    (let dst = PutVarint32 dst tag;
         dst = PutVarint32 dst (of_int (g_level g));
         dst = PutVarint64 dst 0
     in PutLengthPrefixedSlice dst (g_guard_key g))"

definition EncodeTo :: "VersionEdit \<Rightarrow> bytes \<Rightarrow> bytes" where
  "EncodeTo e dst =
    (let dst = (if e_has_comparator e
                then PutLengthPrefixedSlice (PutVarint32 dst kComparator) (e_comparator e) else dst);
         dst = (if e_has_log_number e then put_number kLogNumber (e_log_number e) dst else dst);
         dst = (if e_has_prev_log_number e then put_number kPrevLogNumber (e_prev_log_number e) dst else dst);
         dst = (if e_has_next_file_number e then put_number kNextFileNumber (e_next_file_number e) dst else dst);
         dst = (if e_has_last_sequence e then put_number kLastSequence (e_last_sequence e) dst else dst);
         dst = fold (put_pointer kCompactPointer) (e_compact_pointers e) dst;
         dst = fold (put_file_pair kDeletedFile) (e_deleted_files e) dst;
         dst = fold put_new_file (e_new_files e) dst;
         dst = fold (put_pointer kDeletedGuard) (e_deleted_guards e) dst;
         dst = fold (fold (put_guard kNewGuard)) (e_new_guards e) dst;
         dst = fold (fold (put_guard kNewCompleteGuard)) (e_new_complete_guards e) dst
     in fold (put_file_pair kDeletedSentinelFile) (e_deleted_sentinel_files e) dst)"

section \<open>Decoding\<close>

definition GetInternalKey :: "bytes \<Rightarrow> (bytes \<times> bytes) option" where
  "GetInternalKey input = GetLengthPrefixedSlice input"

definition GetLevel :: "bytes \<Rightarrow> (nat \<times> bytes) option" where
  "GetLevel input =
    (case GetVarint32 input of
       None \<Rightarrow> None
     | Some (v, input) \<Rightarrow> if unat v < kNumLevels then Some (unat v, input) else None)"

text \<open>The edit and the local variables \<open>g\<close>, \<open>tag2\<close> and \<open>fnumber\<close> of \<open>DecodeFrom\<close>, which keep
  their values from one record to the next.\<close>

record DecodeState =
  d_edit :: VersionEdit
  d_g :: GuardMetaData
  d_tag2 :: "u32 option"
  d_fnumber :: "u64 option"

text \<open>The loop over the segments of a guard; the results of the two reads are not checked.\<close>

fun dec_segments :: "nat \<Rightarrow> bytes \<Rightarrow> DecodeState \<Rightarrow> (DecodeState \<times> bytes) option" where
  "dec_segments 0 input st = Some (st, input)"
| "dec_segments (Suc j) input st =
    (let (tag2, input) = (case GetVarint32 input of None \<Rightarrow> (d_tag2 st, input) | Some (t, i) \<Rightarrow> (Some t, i))
     in if tag2 \<noteq> Some kFileInsideGuard then None
        else let (fnumber, input) = (case GetVarint64 input of None \<Rightarrow> (d_fnumber st, input) | Some (n, i) \<Rightarrow> (Some n, i))
             in case fnumber of
                  None \<Rightarrow> None
                | Some n \<Rightarrow> dec_segments j input
                    (st\<lparr>d_tag2 := tag2, d_fnumber := fnumber, d_g := (d_g st)\<lparr>g_files := g_files (d_g st) @ [n]\<rparr>\<rparr>))"

definition dec_new_file :: "bytes \<Rightarrow> (nat \<times> FileMetaData \<times> bytes) option" where
  "dec_new_file input =
    do {
      (level, input) \<leftarrow> GetLevel input;
      (number, input) \<leftarrow> GetVarint64 input;
      (file_size, input) \<leftarrow> GetVarint64 input;
      (smallest, input) \<leftarrow> GetInternalKey input;
      (largest, input) \<leftarrow> GetInternalKey input;
      Some (level, mk_FileMetaData\<lparr>f_number := number, f_file_size := file_size,
                     f_smallest := smallest, f_largest := largest\<rparr>, input)
    }"

definition dec_pointer :: "bytes \<Rightarrow> (nat \<times> bytes \<times> bytes) option" where
  "dec_pointer input =
    do {
      (level, input) \<leftarrow> GetLevel input;
      (key, input) \<leftarrow> GetInternalKey input;
      Some (level, key, input)
    }"

definition dec_file_pair :: "bytes \<Rightarrow> (nat \<times> u64 \<times> bytes) option" where
  "dec_file_pair input =
    do {
      (level, input) \<leftarrow> GetLevel input;
      (number, input) \<leftarrow> GetVarint64 input;
      Some (level, number, input)
    }"

definition dec_guard :: "bytes \<Rightarrow> (nat \<times> u64 \<times> bytes \<times> bytes) option" where
  "dec_guard input =
    do {
      (level, input) \<leftarrow> GetLevel input;
      (number_segments, input) \<leftarrow> GetVarint64 input;
      (guard_key, input) \<leftarrow> GetInternalKey input;
      Some (level, number_segments, guard_key, input)
    }"

text \<open>The bounds of a guard with segments; the reads are asserted.\<close>

definition dec_bounds :: "u64 \<Rightarrow> bytes \<Rightarrow> GuardMetaData \<Rightarrow> (GuardMetaData \<times> bytes) option" where
  "dec_bounds number_segments input g =
    (if number_segments > 0
     then do {
            (smallest, input) \<leftarrow> GetInternalKey input;
            (largest, input) \<leftarrow> GetInternalKey input;
            Some (g\<lparr>g_smallest := smallest, g_largest := largest\<rparr>, input)
          }
     else Some (g, input))"

text \<open>One record: the message of an error, or the new state and the rest of the input.\<close>

definition dec_number ::
    "string \<Rightarrow> (u64 \<Rightarrow> VersionEdit \<Rightarrow> VersionEdit) \<Rightarrow> bytes \<Rightarrow> DecodeState \<Rightarrow> (string + DecodeState \<times> bytes) option" where
  "dec_number msg upd input st =
    (case GetVarint64 input of
       None \<Rightarrow> Some (Inl msg)
     | Some (n, input) \<Rightarrow> Some (Inr (st\<lparr>d_edit := upd n (d_edit st)\<rparr>, input)))"

definition dec_record ::
    "(bytes \<Rightarrow> bytes \<Rightarrow> int) \<Rightarrow> u32 \<Rightarrow> bytes \<Rightarrow> DecodeState \<Rightarrow> (string + DecodeState \<times> bytes) option" where
  "dec_record icmp tag input st =
    (let e = d_edit st in
     if tag = kComparator then
       (case GetLengthPrefixedSlice input of
          None \<Rightarrow> Some (Inl ''comparator name'')
        | Some (name, input) \<Rightarrow> Some (Inr (st\<lparr>d_edit := SetComparatorName name e\<rparr>, input)))
     else if tag = kLogNumber then dec_number ''log number'' SetLogNumber input st
     else if tag = kPrevLogNumber then dec_number ''previous log number'' SetPrevLogNumber input st
     else if tag = kNextFileNumber then dec_number ''next file number'' SetNextFile input st
     else if tag = kLastSequence then dec_number ''last sequence number'' SetLastSequence input st
     else if tag = kCompactPointer then
       (case dec_pointer input of
          None \<Rightarrow> Some (Inl ''compaction pointer'')
        | Some (level, key, input) \<Rightarrow> Some (Inr (st\<lparr>d_edit := SetCompactPointer level key e\<rparr>, input)))
     else if tag = kDeletedFile then
       (case dec_file_pair input of
          None \<Rightarrow> Some (Inl ''deleted file'')
        | Some (level, num, input) \<Rightarrow> Some (Inr (st\<lparr>d_edit := VE_DeleteFile level num e\<rparr>, input)))
     else if tag = kDeletedGuard then
       (case dec_pointer input of
          None \<Rightarrow> Some (Inl ''deleted guard'')
        | Some (level, key, input) \<Rightarrow> Some (Inr (st\<lparr>d_edit := DeleteGuard icmp level key e\<rparr>, input)))
     else if tag = kDeletedSentinelFile then
       (case dec_file_pair input of
          None \<Rightarrow> Some (Inl ''deleted sentinel file'')
        | Some (level, num, input) \<Rightarrow> Some (Inr (st\<lparr>d_edit := DeleteSentinelFile level num e\<rparr>, input)))
     else if tag = kNewFile then
       (case dec_new_file input of
          None \<Rightarrow> Some (Inl ''new-file entry'')
        | Some (level, f, input) \<Rightarrow> Some (Inr (st\<lparr>d_edit := e\<lparr>e_new_files := e_new_files e @ [(level, f)]\<rparr>\<rparr>, input)))
     else if tag = kNewSentinelFile then
       (case dec_file_pair input of
          None \<Rightarrow> Some (Inl ''new-sentinel-file entry'')
        | Some (level, num, input) \<Rightarrow>
            Some (Inr (st\<lparr>d_edit := AddSentinelFileNo level num e, d_fnumber := Some num\<rparr>, input)))
     else if tag = kNewSentinelFileNo then
       (case dec_new_file input of
          None \<Rightarrow> Some (Inl ''new-sentinel-file entry'')
        | Some (level, f, input) \<Rightarrow> Some (Inr (st\<lparr>d_edit := e\<lparr>e_new_files := e_new_files e @ [(level, f)]\<rparr>\<rparr>, input)))
     else if tag = kNewGuard then
       (case dec_guard input of
          None \<Rightarrow> Some (Inl ''new-guard entry'')
        | Some (level, segs, key, input) \<Rightarrow>
            do {
              (g, input) \<leftarrow> dec_bounds segs input
                ((d_g st)\<lparr>g_level := int level, g_number_segments := segs, g_guard_key := key, g_files := []\<rparr>);
              (st, input) \<leftarrow> dec_segments (unat segs) input (st\<lparr>d_g := g\<rparr>);
              Some (Inr (st\<lparr>d_edit := AddGuardFromExisting level (d_g st) e\<rparr>, input))
            })
     else if tag = kNewCompleteGuard then
       (case dec_guard input of
          None \<Rightarrow> Some (Inl ''new-complete-guard entry'')
        | Some (level, segs, key, input) \<Rightarrow>
            do {
              (g, input) \<leftarrow> dec_bounds segs input
                ((d_g st)\<lparr>g_level := int level, g_number_segments := segs, g_guard_key := key, g_files := []\<rparr>);
              Some (Inr (st\<lparr>d_g := g, d_edit := AddCompleteGuardFromExisting level g e\<rparr>, input))
            })
     else Some (Inl ''unknown tag''))"

text \<open>Reads leave a suffix that is not longer, so the loop over the records ends.\<close>

lemma GetLevel_shorter: "GetLevel input = Some (v, input') \<Longrightarrow> length input' < length input"
  by (auto simp: GetLevel_def split: option.splits if_splits dest!: GetVarint32_shorter)

lemma GetInternalKey_shorter: "GetInternalKey input = Some (v, input') \<Longrightarrow> length input' < length input"
  by (simp add: GetInternalKey_def GetLengthPrefixedSlice_shorter)

lemma dec_parts_shorter:
  "dec_new_file input = Some (l, f, input') \<Longrightarrow> length input' < length input"
  "dec_pointer input = Some (l, k, input') \<Longrightarrow> length input' < length input"
  "dec_file_pair input = Some (l, n, input') \<Longrightarrow> length input' < length input"
  "dec_guard input = Some (l, n, k, input') \<Longrightarrow> length input' < length input"
  "dec_bounds n input g = Some (g', input') \<Longrightarrow> length input' \<le> length input"
  by (auto simp: dec_new_file_def dec_pointer_def dec_file_pair_def dec_guard_def dec_bounds_def
      split: Option.bind_splits prod.splits if_splits dest!: GetLevel_shorter GetInternalKey_shorter GetVarint64_shorter)

lemma dec_segments_le: "dec_segments j input st = Some (st', input') \<Longrightarrow> length input' \<le> length input"
proof (induction j arbitrary: input st)
  case (Suc j)
  obtain tag2 i1 where t: "(case GetVarint32 input of None \<Rightarrow> (d_tag2 st, input) | Some (t, i) \<Rightarrow> (Some t, i)) = (tag2, i1)"
    by fastforce
  obtain fnumber i2 where n: "(case GetVarint64 i1 of None \<Rightarrow> (d_fnumber st, i1) | Some (n, i) \<Rightarrow> (Some n, i)) = (fnumber, i2)"
    by fastforce
  have "length i1 \<le> length input"
    using t by (auto split: option.splits dest!: GetVarint32_shorter)
  moreover have "length i2 \<le> length i1"
    using n by (auto split: option.splits dest!: GetVarint64_shorter)
  moreover obtain k st2 where "dec_segments j i2 st2 = Some (st', input')"
    using Suc.prems by (simp add: t n split: if_splits option.splits)
  ultimately show ?case using Suc.IH by fastforce
qed simp

lemma dec_record_le:
  assumes "dec_record icmp tag input st = Some (Inr (st', input'))"
  shows "length input' \<le> length input"
  using assms unfolding dec_record_def Let_def dec_number_def
  by (auto split: if_splits option.splits prod.splits Option.bind_splits
      dest!: dec_parts_shorter dec_segments_le GetVarint64_shorter GetLengthPrefixedSlice_shorter)


text \<open>The loop returns the state, the message and the rest of the input.\<close>

function dec_loop ::
    "(bytes \<Rightarrow> bytes \<Rightarrow> int) \<Rightarrow> bytes \<Rightarrow> DecodeState \<Rightarrow> (DecodeState \<times> string option \<times> bytes) option" where
  "dec_loop icmp input st =
    (case GetVarint32 input of
       None \<Rightarrow> Some (st, None, input)
     | Some (tag, input') \<Rightarrow>
         (case dec_record icmp tag input' st of
            None \<Rightarrow> None
          | Some (Inl msg) \<Rightarrow> Some (st, Some msg, input')
          | Some (Inr (st', input'')) \<Rightarrow> dec_loop icmp input'' st'))"
  by pat_completeness auto
termination
  by (relation "measure (\<lambda>(_, input, _). length input)")
    (auto dest!: GetVarint32_shorter dec_record_le)

definition VE_DecodeFrom :: "(bytes \<Rightarrow> bytes \<Rightarrow> int) \<Rightarrow> bytes \<Rightarrow> VersionEdit \<Rightarrow> (VersionEdit \<times> Status) option" where
  "VE_DecodeFrom icmp src e =
    (case dec_loop icmp src \<lparr>d_edit = VE_Clear e, d_g = mk_GuardMetaData, d_tag2 = None, d_fnumber = None\<rparr> of
       None \<Rightarrow> None
     | Some (st, msg, input) \<Rightarrow>
         (let msg = (case msg of Some m \<Rightarrow> Some m
                               | None \<Rightarrow> if input \<noteq> [] then Some ''invalid tag'' else None)
          in Some (d_edit st,
               case msg of None \<Rightarrow> OK | Some m \<Rightarrow> Corruption (str ''VersionEdit'') (str m))))"

section \<open>Decoding what was encoded\<close>

text \<open>The records of an encoded edit.\<close>

datatype edit_field =
    FComparator bytes
  | FNumber u32 u64
  | FPointer u32 "nat \<times> bytes"
  | FFilePair u32 "nat \<times> u64"
  | FNewFile "nat \<times> FileMetaData"
  | FGuard u32 GuardMetaData

fun enc_field :: "edit_field \<Rightarrow> bytes" where
  "enc_field (FComparator name) = PutLengthPrefixedSlice (PutVarint32 [] kComparator) name"
| "enc_field (FNumber tag n) = put_number tag n []"
| "enc_field (FPointer tag p) = put_pointer tag p []"
| "enc_field (FFilePair tag p) = put_file_pair tag p []"
| "enc_field (FNewFile p) = put_new_file p []"
| "enc_field (FGuard tag g) = put_guard tag g []"

definition edit_fields :: "VersionEdit \<Rightarrow> edit_field list" where
  "edit_fields e =
    (if e_has_comparator e then [FComparator (e_comparator e)] else []) @
    (if e_has_log_number e then [FNumber kLogNumber (e_log_number e)] else []) @
    (if e_has_prev_log_number e then [FNumber kPrevLogNumber (e_prev_log_number e)] else []) @
    (if e_has_next_file_number e then [FNumber kNextFileNumber (e_next_file_number e)] else []) @
    (if e_has_last_sequence e then [FNumber kLastSequence (e_last_sequence e)] else []) @
    map (FPointer kCompactPointer) (e_compact_pointers e) @
    map (FFilePair kDeletedFile) (e_deleted_files e) @
    map FNewFile (e_new_files e) @
    map (FPointer kDeletedGuard) (e_deleted_guards e) @
    map (FGuard kNewGuard) (concat (e_new_guards e)) @
    map (FGuard kNewCompleteGuard) (concat (e_new_complete_guards e)) @
    map (FFilePair kDeletedSentinelFile) (e_deleted_sentinel_files e)"

lemma put_append:
  "put_number tag n dst = dst @ put_number tag n []"
  "put_pointer tag p dst = dst @ put_pointer tag p []"
  "put_file_pair tag q dst = dst @ put_file_pair tag q []"
  "put_new_file r dst = dst @ put_new_file r []"
  "put_guard tag g dst = dst @ put_guard tag g []"
  by (simp_all add: put_number_def put_pointer_def put_file_pair_def put_new_file_def put_guard_def Let_def
      PutVarint32_def PutVarint64_def PutLengthPrefixedSlice_def)

lemma fold_put:
  assumes "\<And>x dst. f x dst = dst @ f x []"
  shows "fold f xs dst = dst @ concat (map (\<lambda>x. f x []) xs)"
proof (induction xs arbitrary: dst)
  case (Cons x xs)
  have "fold f (x # xs) dst = f x dst @ concat (map (\<lambda>x. f x []) xs)" using Cons.IH by simp
  then show ?case unfolding assms [of x dst] by simp
qed simp

lemma fold_fold_put:
  assumes "\<And>x dst. f x dst = dst @ f x []"
  shows "fold (fold f) xss dst = dst @ concat (map (\<lambda>x. f x []) (concat xss))"
proof (induction xss arbitrary: dst)
  case (Cons xs xss)
  have "fold (fold f) (xs # xss) dst = fold f xs dst @ concat (map (\<lambda>x. f x []) (concat xss))"
    using Cons.IH by simp
  then show ?case unfolding fold_put [OF assms] by simp
qed simp

lemma EncodeTo_fields: "EncodeTo e dst = dst @ concat (map enc_field (edit_fields e))"
  unfolding EncodeTo_def Let_def
  by (simp add: edit_fields_def fold_put [OF put_append(2)] fold_put [OF put_append(3)] fold_put [OF put_append(4)]
      fold_fold_put [OF put_append(5)] put_append(1) [of _ _ "_ @ _"] put_append(1) [of _ _ dst]
      Put_append [of "_ @ _"] Put_append [of dst] Put_append [of "PutVarint32 _ _"] comp_def)

text \<open>What an encoded record says, and its effect on an edit.\<close>

definition stored_file :: "FileMetaData \<Rightarrow> FileMetaData" where
  "stored_file f = mk_FileMetaData\<lparr>f_number := f_number f, f_file_size := f_file_size f,
     f_smallest := f_smallest f, f_largest := f_largest f\<rparr>"

definition stored_guard :: "GuardMetaData \<Rightarrow> GuardMetaData" where
  "stored_guard g = mk_GuardMetaData\<lparr>g_level := g_level g, g_guard_key := g_guard_key g\<rparr>"

fun field_ok :: "edit_field \<Rightarrow> bool" where
  "field_ok (FComparator name) \<longleftrightarrow> length name < 2 ^ 32"
| "field_ok (FNumber tag n) \<longleftrightarrow> tag \<in> {kLogNumber, kPrevLogNumber, kNextFileNumber, kLastSequence}"
| "field_ok (FPointer tag p) \<longleftrightarrow> tag \<in> {kCompactPointer, kDeletedGuard} \<and> fst p < kNumLevels \<and> length (snd p) < 2 ^ 32"
| "field_ok (FFilePair tag p) \<longleftrightarrow> tag \<in> {kDeletedFile, kDeletedSentinelFile} \<and> fst p < kNumLevels"
| "field_ok (FNewFile p) \<longleftrightarrow> fst p < kNumLevels \<and> length (f_smallest (snd p)) < 2 ^ 32 \<and> length (f_largest (snd p)) < 2 ^ 32"
| "field_ok (FGuard tag g) \<longleftrightarrow> tag \<in> {kNewGuard, kNewCompleteGuard} \<and> 0 \<le> g_level g \<and> g_level g < int kNumLevels \<and>
     length (g_guard_key g) < 2 ^ 32"

fun apply_field :: "(bytes \<Rightarrow> bytes \<Rightarrow> int) \<Rightarrow> edit_field \<Rightarrow> VersionEdit \<Rightarrow> VersionEdit" where
  "apply_field icmp (FComparator name) e = SetComparatorName name e"
| "apply_field icmp (FNumber tag n) e =
    (if tag = kLogNumber then SetLogNumber n e else if tag = kPrevLogNumber then SetPrevLogNumber n e
     else if tag = kNextFileNumber then SetNextFile n e else SetLastSequence n e)"
| "apply_field icmp (FPointer tag p) e =
    (if tag = kCompactPointer then SetCompactPointer (fst p) (snd p) e else DeleteGuard icmp (fst p) (snd p) e)"
| "apply_field icmp (FFilePair tag p) e =
    (if tag = kDeletedFile then VE_DeleteFile (fst p) (snd p) e else DeleteSentinelFile (fst p) (snd p) e)"
| "apply_field icmp (FNewFile p) e = e\<lparr>e_new_files := e_new_files e @ [(fst p, stored_file (snd p))]\<rparr>"
| "apply_field icmp (FGuard tag g) e =
    (if tag = kNewGuard then AddGuardFromExisting (nat (g_level g)) (stored_guard g) e
     else AddCompleteGuardFromExisting (nat (g_level g)) (stored_guard g) e)"

lemma GetLevel_Put [simp]: "l < kNumLevels \<Longrightarrow> GetLevel (EncodeVarint32 (of_nat l) @ rest) = Some (l, rest)"
  by (simp add: GetLevel_def constants)

lemma dec_parts_put [simp]:
  "fst p < kNumLevels \<Longrightarrow> length (snd p) < 2 ^ 32 \<Longrightarrow>
   dec_pointer (EncodeVarint32 (of_nat (fst p)) @ PutLengthPrefixedSlice [] (snd p) @ rest) = Some (fst p, snd p, rest)"
  "fst q < kNumLevels \<Longrightarrow>
   dec_file_pair (EncodeVarint32 (of_nat (fst q)) @ EncodeVarint64 (snd q) @ rest) = Some (fst q, snd q, rest)"
  by (simp_all add: dec_pointer_def dec_file_pair_def GetInternalKey_def)

text \<open>The local variable \<open>g\<close> keeps its initial bounds and files as long as no guard with
  segments is read.\<close>

definition g_clean :: "GuardMetaData \<Rightarrow> bool" where
  "g_clean g \<longleftrightarrow> g_refs g = 0 \<and> g_smallest g = [] \<and> g_largest g = [] \<and> g_file_metas g = []"

lemma dec_record_field:
  assumes "field_ok f" and "g_clean (d_g st)"
  shows "\<exists>tag body g. enc_field f = EncodeVarint32 tag @ body \<and>
    dec_record icmp tag (body @ rest) st = Some (Inr (st\<lparr>d_g := g, d_edit := apply_field icmp f (d_edit st)\<rparr>, rest)) \<and>
    g_clean g"
proof (cases f)
  case (FComparator name)
  then show ?thesis using assms
    by (intro exI [of _ kComparator] exI [of _ "PutLengthPrefixedSlice [] name"] exI [of _ "d_g st"])
      (simp add: Put_append [of "EncodeVarint32 _"] PutVarint32_def dec_record_def Let_def)
next
  case (FNumber tag n)
  then show ?thesis using assms
    by (intro exI [of _ tag] exI [of _ "EncodeVarint64 n"] exI [of _ "d_g st"])
      (auto simp: put_number_def PutVarint32_def PutVarint64_def dec_record_def dec_number_def constants Let_def)
next
  case (FPointer tag p)
  then show ?thesis using assms
    by (intro exI [of _ tag] exI [of _ "EncodeVarint32 (of_nat (fst p)) @ PutLengthPrefixedSlice [] (snd p)"] exI [of _ "d_g st"])
      (auto simp: put_pointer_def PutVarint32_def Put_append [of "_ @ _"] dec_record_def dec_number_def constants Let_def)
next
  case (FFilePair tag p)
  then show ?thesis using assms
    by (intro exI [of _ tag] exI [of _ "EncodeVarint32 (of_nat (fst p)) @ EncodeVarint64 (snd p)"] exI [of _ "d_g st"])
      (auto simp: put_file_pair_def PutVarint32_def PutVarint64_def dec_record_def dec_number_def constants Let_def)
next
  case (FNewFile p)
  then show ?thesis using assms
    by (intro exI [of _ kNewFile] exI [of _ "EncodeVarint32 (of_nat (fst p)) @ EncodeVarint64 (f_number (snd p)) @
          EncodeVarint64 (f_file_size (snd p)) @ PutLengthPrefixedSlice [] (f_smallest (snd p)) @
          PutLengthPrefixedSlice [] (f_largest (snd p))"] exI [of _ "d_g st"])
      (auto simp: put_new_file_def dec_new_file_def GetInternalKey_def stored_file_def PutVarint32_def PutVarint64_def
        Put_append [of "_ @ _"] dec_record_def dec_number_def constants Let_def)
next
  case (FGuard tag g)
  obtain l where l: "g_level g = int l" "l < kNumLevels"
    using assms(1) FGuard by (metis field_ok.simps(6) nonneg_int_cases of_nat_less_iff)
  have g: "g_clean g' \<Longrightarrow> stored_guard g = g'\<lparr>g_level := g_level g, g_number_segments := 0,
      g_guard_key := g_guard_key g, g_files := []\<rparr>" for g'
    by (cases g') (simp add: stored_guard_def mk_GuardMetaData_def g_clean_def)
  show ?thesis using assms l(2) FGuard
    by (intro exI [of _ tag] exI [of _ "EncodeVarint32 (of_nat l) @ EncodeVarint64 0 @ PutLengthPrefixedSlice [] (g_guard_key g)"]
        exI [of _ "stored_guard g"])
      (auto simp: put_guard_def dec_guard_def dec_bounds_def GetInternalKey_def PutVarint32_def PutVarint64_def g l(1)
        Put_append [of "_ @ _"] dec_record_def dec_number_def constants Let_def, simp_all add: g_clean_def)
qed


lemma dec_loop_fields:
  assumes "\<forall>f \<in> set fs. field_ok f" and "g_clean (d_g st)"
  shows "\<exists>st'. dec_loop icmp (concat (map enc_field fs)) st = Some (st', None, []) \<and>
    d_edit st' = fold (apply_field icmp) fs (d_edit st)"
  using assms
proof (induction fs arbitrary: st)
  case Nil
  have "GetVarint32 [] = None"
    by (simp add: GetVarint32_def GetVarint32Ptr_def GetVarint32PtrFallback_def)
  then show ?case by (subst dec_loop.simps) simp
next
  case (Cons f fs)
  let ?rest = "concat (map enc_field fs)"
  have "field_ok f" using Cons.prems(1) by simp
  from dec_record_field [OF this Cons.prems(2), of icmp ?rest] obtain tag body g where
    r: "enc_field f = EncodeVarint32 tag @ body"
      "dec_record icmp tag (body @ ?rest) st = Some (Inr (st\<lparr>d_g := g, d_edit := apply_field icmp f (d_edit st)\<rparr>, ?rest))"
      "g_clean g" by blast
  then have "dec_loop icmp (concat (map enc_field (f # fs))) st =
      dec_loop icmp ?rest (st\<lparr>d_g := g, d_edit := apply_field icmp f (d_edit st)\<rparr>)"
    by (subst dec_loop.simps) simp
  then show ?case
    using Cons.IH [of "st\<lparr>d_g := g, d_edit := apply_field icmp f (d_edit st)\<rparr>"] Cons.prems(1) r(3) by simp
qed

lemma set_insert_last:
  "\<forall>x \<in> set xs. lt x p \<and> \<not> lt p x \<Longrightarrow> set_insert lt p xs = xs @ [p]"
  by (induction xs) auto

lemma fold_set_insert:
  assumes "sorted_wrt (\<lambda>x y. lt x y \<and> \<not> lt y x) (xs @ ys)"
  shows "fold (set_insert lt) ys xs = xs @ ys"
  using assms
proof (induction ys arbitrary: xs)
  case (Cons y ys)
  have "set_insert lt y xs = xs @ [y]"
    using Cons.prems by (intro set_insert_last) (auto simp: sorted_wrt_append)
  then show ?case using Cons by simp
qed simp

lemma fold_push_level:
  "l < length xss \<Longrightarrow> fold (\<lambda>g. push_level (lv g) (s g)) gs xss ! l = xss ! l @ map s (filter (\<lambda>g. lv g = l) gs)"
  by (induction gs arbitrary: xss) (auto simp: nth_push_level)

lemma length_fold_push_level: "length (fold (\<lambda>g. push_level (lv g) (s g)) gs xss) = length xss"
  by (induction gs arbitrary: xss) auto

lemma filter_level_concat:
  assumes "\<forall>k < length gss. \<forall>g \<in> set (gss ! k). lv g = k + b" and "l < length gss"
  shows "filter (\<lambda>g. lv g = l + b) (concat gss) = gss ! l"
  using assms
proof (induction gss arbitrary: l b)
  case (Cons gs gss)
  have tl: "\<forall>k < length gss. \<forall>g \<in> set (gss ! k). lv g = k + Suc b" using Cons.prems(1) by fastforce
  have hd: "\<forall>g \<in> set gs. lv g = b" using Cons.prems(1) by fastforce
  show ?case
  proof (cases l)
    case 0
    have "lv g \<noteq> b" if "g \<in> set (concat gss)" for g
    proof -
      from that obtain k where "k < length gss" "g \<in> set (gss ! k)" by (auto simp: in_set_conv_nth [of _ gss])
      then show ?thesis using tl by auto
    qed
    then show ?thesis using hd 0 by (simp add: filter_id_conv filter_empty_conv)
  next
    case (Suc m)
    have "filter (\<lambda>g. lv g = l + b) gs = []" using hd Suc by (simp add: filter_empty_conv)
    then show ?thesis using Cons.IH [OF tl, of m] Cons.prems(2) Suc by simp
  qed
qed simp

lemma fold_push_levels:
  assumes "length gss = kNumLevels" and "\<forall>k < kNumLevels. \<forall>g \<in> set (gss ! k). lv g = k"
  shows "fold (\<lambda>g. push_level (lv g) (s g)) (concat gss) (replicate kNumLevels []) = map (map s) gss"
proof (rule nth_equalityI)
  fix l assume "l < length (fold (\<lambda>g. push_level (lv g) (s g)) (concat gss) (replicate kNumLevels []))"
  then have l: "l < kNumLevels" by (simp add: length_fold_push_level)
  then show "fold (\<lambda>g. push_level (lv g) (s g)) (concat gss) (replicate kNumLevels []) ! l = map (map s) gss ! l"
    using filter_level_concat [of gss lv 0 l] assms by (simp add: fold_push_level)
qed (simp add: length_fold_push_level assms(1))

lemma apply_numbers:
  "apply_field icmp (FNumber kLogNumber n) = SetLogNumber n"
  "apply_field icmp (FNumber kPrevLogNumber n) = SetPrevLogNumber n"
  "apply_field icmp (FNumber kNextFileNumber n) = SetNextFile n"
  "apply_field icmp (FNumber kLastSequence n) = SetLastSequence n"
  by (simp_all add: fun_eq_iff constants)

lemma fold_apply_pointers:
  "fold (apply_field icmp) (map (FPointer kCompactPointer) ps) e = e\<lparr>e_compact_pointers := e_compact_pointers e @ ps\<rparr>"
  "fold (apply_field icmp) (map (FPointer kDeletedGuard) ps) e =
    e\<lparr>e_deleted_guards := fold (set_insert (BySmallestPair icmp)) ps (e_deleted_guards e)\<rparr>"
  by (induction ps arbitrary: e) (simp_all add: SetCompactPointer_def DeleteGuard_def constants)

lemma fold_apply_file_pairs:
  "fold (apply_field icmp) (map (FFilePair kDeletedFile) qs) e =
    e\<lparr>e_deleted_files := fold (set_insert FilePair_less) qs (e_deleted_files e)\<rparr>"
  "fold (apply_field icmp) (map (FFilePair kDeletedSentinelFile) qs) e =
    e\<lparr>e_deleted_sentinel_files := fold (set_insert FilePair_less) qs (e_deleted_sentinel_files e)\<rparr>"
  by (induction qs arbitrary: e) (simp_all add: VE_DeleteFile_def DeleteSentinelFile_def constants)

lemma fold_apply_new_files:
  "fold (apply_field icmp) (map FNewFile ps) e =
    e\<lparr>e_new_files := e_new_files e @ map (\<lambda>p. (fst p, stored_file (snd p))) ps\<rparr>"
  by (induction ps arbitrary: e) simp_all

lemma fold_apply_guards:
  "fold (apply_field icmp) (map (FGuard kNewGuard) gs) e =
    e\<lparr>e_new_guards := fold (\<lambda>g. push_level (nat (g_level g)) (stored_guard g)) gs (e_new_guards e)\<rparr>"
  "fold (apply_field icmp) (map (FGuard kNewCompleteGuard) gs) e =
    e\<lparr>e_new_complete_guards := fold (\<lambda>g. push_level (nat (g_level g)) (stored_guard g)) gs (e_new_complete_guards e)\<rparr>"
  by (induction gs arbitrary: e)
    (simp_all add: AddGuardFromExisting_def AddCompleteGuardFromExisting_def constants)

text \<open>The edits the code builds: levels in range, the guards of a level in its vector, the
  sets ordered, keys and names shorter than 4 GiB.\<close>

definition guards_ok :: "GuardMetaData list list \<Rightarrow> bool" where
  "guards_ok gss \<longleftrightarrow> length gss = kNumLevels \<and>
    (\<forall>k < kNumLevels. \<forall>g \<in> set (gss ! k). g_level g = int k \<and> length (g_guard_key g) < 2 ^ 32)"

definition set_ok :: "('a \<Rightarrow> 'a \<Rightarrow> bool) \<Rightarrow> 'a list \<Rightarrow> bool" where
  "set_ok lt xs \<longleftrightarrow> sorted_wrt (\<lambda>x y. lt x y \<and> \<not> lt y x) xs"

definition edit_ok :: "(bytes \<Rightarrow> bytes \<Rightarrow> int) \<Rightarrow> VersionEdit \<Rightarrow> bool" where
  "edit_ok icmp e \<longleftrightarrow>
    length (e_comparator e) < 2 ^ 32 \<and>
    (\<forall>p \<in> set (e_compact_pointers e @ e_deleted_guards e). fst p < kNumLevels \<and> length (snd p) < 2 ^ 32) \<and>
    (\<forall>p \<in> set (e_deleted_files e @ e_deleted_sentinel_files e). fst p < kNumLevels) \<and>
    (\<forall>p \<in> set (e_new_files e). fst p < kNumLevels \<and> length (f_smallest (snd p)) < 2 ^ 32 \<and> length (f_largest (snd p)) < 2 ^ 32) \<and>
    guards_ok (e_new_guards e) \<and> guards_ok (e_new_complete_guards e) \<and>
    set_ok FilePair_less (e_deleted_files e) \<and> set_ok FilePair_less (e_deleted_sentinel_files e) \<and>
    set_ok (BySmallestPair icmp) (e_deleted_guards e)"

text \<open>What survives an encoding: not the sentinel files, nor the segments, bounds and files
  of guards, nor reference counts and seek budgets.\<close>

definition edit_stored :: "VersionEdit \<Rightarrow> VersionEdit" where
  "edit_stored e = e
    \<lparr>e_comparator := if e_has_comparator e then e_comparator e else [],
     e_log_number := if e_has_log_number e then e_log_number e else 0,
     e_prev_log_number := if e_has_prev_log_number e then e_prev_log_number e else 0,
     e_next_file_number := if e_has_next_file_number e then e_next_file_number e else 0,
     e_last_sequence := if e_has_last_sequence e then e_last_sequence e else 0,
     e_new_files := map (\<lambda>p. (fst p, stored_file (snd p))) (e_new_files e),
     e_sentinel_files := replicate kNumLevels [], e_sentinel_file_nos := replicate kNumLevels [],
     e_new_guards := map (map stored_guard) (e_new_guards e),
     e_new_complete_guards := map (map stored_guard) (e_new_complete_guards e)\<rparr>"

lemma fold_set_ok: "set_ok lt xs \<Longrightarrow> fold (set_insert lt) xs [] = xs"
  using fold_set_insert [of lt "[]" xs] by (simp add: set_ok_def)

lemma guards_field_ok:
  "guards_ok gss \<Longrightarrow> g \<in> set gs \<Longrightarrow> gs \<in> set gss \<Longrightarrow>
   0 \<le> g_level g \<and> g_level g < int kNumLevels \<and> length (g_guard_key g) < 2 ^ 32"
  unfolding guards_ok_def by (metis in_set_conv_nth of_nat_0_le_iff of_nat_less_iff)

lemma edit_fields_ok: "edit_ok icmp e \<Longrightarrow> \<forall>f \<in> set (edit_fields e). field_ok f"
  using guards_field_ok [of "e_new_guards e"] guards_field_ok [of "e_new_complete_guards e"]
  unfolding edit_ok_def edit_fields_def by (simp add: ball_Un)

lemma fold_fields:
  assumes "edit_ok icmp e"
  shows "fold (apply_field icmp) (edit_fields e) mk_VersionEdit = edit_stored e"
proof -
  have g: "fold (\<lambda>g. push_level (nat (g_level g)) (stored_guard g)) (concat gss) (replicate kNumLevels []) =
      map (map stored_guard) gss" if "guards_ok gss" for gss
    using that by (intro fold_push_levels) (auto simp: guards_ok_def)
  show ?thesis
    using assms
    by (cases e) (simp del: apply_field.simps(2) add: edit_fields_def edit_stored_def mk_VersionEdit_def VE_Clear_def fold_apply_pointers
        fold_apply_file_pairs fold_apply_new_files fold_apply_guards SetComparatorName_def SetLogNumber_def
        SetPrevLogNumber_def SetNextFile_def SetLastSequence_def edit_ok_def g fold_set_ok apply_numbers)
qed


section \<open>Properties\<close>


definition sample_edit :: VersionEdit where
  "sample_edit = AddGuard 2 (InternalKey [5] 7 kTypeValue)
    (VE_DeleteFile 3 12 (VE_DeleteFile 1 40 (AddFile 1 41 1000 (InternalKey [1] 3 kTypeValue) (InternalKey [9] 2 kTypeValue)
      (SetLogNumber 17 mk_VersionEdit))))"



end
