(* ===== verification/Block.thy ===== *)
theory Block
  imports DbFormat Status
begin

text \<open>
  Blocks of sorted entries: \<^verbatim>\<open>table/block_builder.cc\<close> and \<^verbatim>\<open>table/block.cc\<close>.  Keys are stored as
  the bytes that differ from the previous key; every \<open>block_restart_interval\<close> entries the whole
  key is stored and its offset recorded in the restart array.  Pointers into a block are
  offsets from \<open>data_\<close>; a read past the end of the block is cut off there.  The restart offset
  of an iterator keeps its 32-bit type, which is what bounds its loops.
\<close>

unbundle bit_operations_syntax

section \<open>Building\<close>

record BlockBuilder =
  bb_buffer :: bytes
  bb_restarts :: "u32 list"
  bb_counter :: nat
  bb_finished :: bool
  bb_last_key :: bytes

definition mk_BlockBuilder :: BlockBuilder where
  "mk_BlockBuilder =
    \<lparr>bb_buffer = [], bb_restarts = [0], bb_counter = 0, bb_finished = False, bb_last_key = []\<rparr>"

definition BB_Reset :: "BlockBuilder \<Rightarrow> BlockBuilder" where
  "BB_Reset b = b\<lparr>bb_buffer := [], bb_restarts := [0], bb_counter := 0, bb_finished := False, bb_last_key := []\<rparr>"

definition BB_CurrentSizeEstimate :: "BlockBuilder \<Rightarrow> nat" where
  "BB_CurrentSizeEstimate b = length (bb_buffer b) + length (bb_restarts b) * 4 + 4"

definition BB_Finish :: "BlockBuilder \<Rightarrow> bytes \<times> BlockBuilder" where
  "BB_Finish b =
    (let buffer = fold (\<lambda>r buf. PutFixed32 buf r) (bb_restarts b) (bb_buffer b);
         buffer = PutFixed32 buffer (of_nat (length (bb_restarts b)))
     in (buffer, b\<lparr>bb_buffer := buffer, bb_finished := True\<rparr>))"

text \<open>The loop that counts the bytes two keys share.\<close>

fun shared_length :: "bytes \<Rightarrow> bytes \<Rightarrow> nat" where
  "shared_length (a # A) (b # B) = (if a = b then Suc (shared_length A B) else 0)"
| "shared_length _ _ = 0"

text \<open>The assertions of \<open>Add\<close> are its precondition; the interval is an option of the table.\<close>

definition BB_Add_pre :: "nat \<Rightarrow> BlockBuilder \<Rightarrow> bool" where
  "BB_Add_pre block_restart_interval b \<longleftrightarrow> \<not> bb_finished b \<and> bb_counter b \<le> block_restart_interval"

definition BB_Add :: "nat \<Rightarrow> bytes \<Rightarrow> bytes \<Rightarrow> BlockBuilder \<Rightarrow> BlockBuilder" where
  "BB_Add block_restart_interval key value b =
    (let (shared, restarts, counter) =
           (if bb_counter b < block_restart_interval
            then (shared_length (bb_last_key b) key, bb_restarts b, bb_counter b)
            else (0, bb_restarts b @ [of_nat (length (bb_buffer b))], 0));
         non_shared = length key - shared;
         buffer = PutVarint32 (bb_buffer b) (of_nat shared);
         buffer = PutVarint32 buffer (of_nat non_shared);
         buffer = PutVarint32 buffer (of_nat (length value));
         buffer = buffer @ drop shared key;
         buffer = buffer @ value
     in b\<lparr>bb_buffer := buffer, bb_restarts := restarts, bb_counter := counter + 1,
          bb_last_key := take shared (bb_last_key b) @ drop shared key\<rparr>)"

section \<open>Blocks\<close>

definition NumRestarts :: "bytes \<Rightarrow> u32" where
  "NumRestarts data = DecodeFixed32 (drop (length data - 4) data)"

record Block =
  bl_data :: bytes
  bl_size :: nat
  bl_restart_offset :: u32

definition mk_Block :: "bytes \<Rightarrow> Block" where
  "mk_Block contents =
    (let n = length contents
     in if n < 4 then \<lparr>bl_data = contents, bl_size = 0, bl_restart_offset = 0\<rparr>
        else let max_restarts_allowed = (n - 4) div 4
             in if unat (NumRestarts contents) > max_restarts_allowed
                then \<lparr>bl_data = contents, bl_size = 0, bl_restart_offset = 0\<rparr>
                else \<lparr>bl_data = contents, bl_size = n,
                      bl_restart_offset = of_nat (n - (1 + unat (NumRestarts contents)) * 4)\<rparr>)"

text \<open>The three lengths at the start of an entry and the bytes after them.\<close>

definition entry_header :: "bytes \<Rightarrow> (u32 \<times> u32 \<times> u32 \<times> bytes) option" where
  "entry_header p =
    (let shared = ucast (p ! 0); non_shared = ucast (p ! 1); value_length = ucast (p ! 2)
     in if shared OR non_shared OR value_length < (128 :: u32)
        then Some (shared, non_shared, value_length, drop 3 p)
        else
          case GetVarint32Ptr p of
            None \<Rightarrow> None
          | Some (shared, p) \<Rightarrow>
              (case GetVarint32Ptr p of
                 None \<Rightarrow> None
               | Some (non_shared, p) \<Rightarrow>
                   (case GetVarint32Ptr p of
                      None \<Rightarrow> None
                    | Some (value_length, p) \<Rightarrow> Some (shared, non_shared, value_length, p))))"

text \<open>The entry at offset \<open>p\<close>: its lengths and the offset of the key delta.  The sum of the last
  two lengths is computed in 32 bits.\<close>

definition DecodeEntry :: "bytes \<Rightarrow> nat \<Rightarrow> nat \<Rightarrow> (u32 \<times> u32 \<times> u32 \<times> nat) option" where
  "DecodeEntry data p limit =
    (if limit - p < 3 then None
     else
       case entry_header (take (limit - p) (drop p data)) of
         None \<Rightarrow> None
       | Some (shared, non_shared, value_length, rest) \<Rightarrow>
           if (of_nat (length rest) :: u32) < non_shared + value_length then None
           else Some (shared, non_shared, value_length, limit - length rest))"

section \<open>Iterators\<close>

text \<open>\<open>value_\<close> is an offset and a length.\<close>

record BlockIter =
  bi_data :: bytes
  bi_restarts :: u32
  bi_num_restarts :: nat
  bi_current :: nat
  bi_restart_index :: nat
  bi_key :: bytes
  bi_value_off :: nat
  bi_value_len :: nat
  bi_status :: Status

definition mk_BlockIter :: "bytes \<Rightarrow> u32 \<Rightarrow> nat \<Rightarrow> BlockIter" where
  "mk_BlockIter data restarts num_restarts =
    \<lparr>bi_data = data, bi_restarts = restarts, bi_num_restarts = num_restarts, bi_current = unat restarts,
     bi_restart_index = num_restarts, bi_key = [], bi_value_off = 0, bi_value_len = 0, bi_status = OK\<rparr>"

datatype AnyBlockIter = ErrorIterator Status | EmptyIterator | Iter BlockIter

definition Block_NewIterator :: "Block \<Rightarrow> AnyBlockIter" where
  "Block_NewIterator b =
    (if bl_size b < 4 then ErrorIterator (Corruption (str ''bad block contents'') [])
     else let num_restarts = unat (NumRestarts (take (bl_size b) (bl_data b)))
          in if num_restarts = 0 then EmptyIterator
             else Iter (mk_BlockIter (bl_data b) (bl_restart_offset b) num_restarts))"

definition BI_Valid :: "BlockIter \<Rightarrow> bool" where
  "BI_Valid i = (bi_current i < unat (bi_restarts i))"

definition BI_value :: "BlockIter \<Rightarrow> bytes" where
  "BI_value i = take (bi_value_len i) (drop (bi_value_off i) (bi_data i))"

definition NextEntryOffset :: "BlockIter \<Rightarrow> nat" where
  "NextEntryOffset i = (bi_value_off i + bi_value_len i) mod 2 ^ 32"

definition GetRestartPoint :: "BlockIter \<Rightarrow> nat \<Rightarrow> nat" where
  "GetRestartPoint i index = unat (DecodeFixed32 (drop (unat (bi_restarts i) + index * 4) (bi_data i)))"

definition SeekToRestartPoint :: "nat \<Rightarrow> BlockIter \<Rightarrow> BlockIter" where
  "SeekToRestartPoint index i =
    i\<lparr>bi_key := [], bi_restart_index := index, bi_value_off := GetRestartPoint i index, bi_value_len := 0\<rparr>"

definition CorruptionError :: "BlockIter \<Rightarrow> BlockIter" where
  "CorruptionError i =
    i\<lparr>bi_current := unat (bi_restarts i), bi_restart_index := bi_num_restarts i,
      bi_status := Corruption (str ''bad entry in block'') [], bi_key := [], bi_value_off := 0, bi_value_len := 0\<rparr>"

text \<open>Advancing \<open>restart_index_\<close> to the restart block of the current entry.\<close>

function advance_restart :: "BlockIter \<Rightarrow> nat \<Rightarrow> nat" where
  "advance_restart i restart_index =
    (if restart_index + 1 < bi_num_restarts i \<and> GetRestartPoint i (restart_index + 1) < bi_current i
     then advance_restart i (restart_index + 1) else restart_index)"
  by pat_completeness auto
termination
  by (relation "measure (\<lambda>(i, r). bi_num_restarts i - r)") auto

declare advance_restart.simps [simp del]

definition ParseNextKey :: "BlockIter \<Rightarrow> bool \<times> BlockIter" where
  "ParseNextKey i =
    (let current = NextEntryOffset i;
         limit = unat (bi_restarts i)
     in if current \<ge> limit
        then (False, i\<lparr>bi_current := limit, bi_restart_index := bi_num_restarts i\<rparr>)
        else
          let i = i\<lparr>bi_current := current\<rparr>
          in case DecodeEntry (bi_data i) current limit of
               None \<Rightarrow> (False, CorruptionError i)
             | Some (shared, non_shared, value_length, p) \<Rightarrow>
                 if length (bi_key i) < unat shared then (False, CorruptionError i)
                 else let i = i\<lparr>bi_key := take (unat shared) (bi_key i) @ take (unat non_shared) (drop p (bi_data i)),
                                bi_value_off := p + unat non_shared, bi_value_len := unat value_length\<rparr>
                      in (True, i\<lparr>bi_restart_index := advance_restart i (bi_restart_index i)\<rparr>))"

lemma GetVarint32Ptr_shorter: "GetVarint32Ptr p = Some (v, q) \<Longrightarrow> length q < length p"
  by (simp add: GetVarint32Ptr_eq_loop GetVarintPtr_loop_shorter)

text \<open>An accepted entry starts after its header and ends, modulo \<open>2 ^ 32\<close>, within the limit.\<close>

lemma entry_header_shorter:
  assumes "entry_header p = Some (s, n, v, rest)"
  shows "length rest \<le> length p - 1"
  using assms unfolding entry_header_def Let_def
  by (auto split: if_splits option.splits dest!: GetVarint32Ptr_shorter, arith)

lemma DecodeEntry_bounds:
  assumes "DecodeEntry data p limit = Some (s, n, v, q)" and "limit < 2 ^ 32"
  shows "p < q" and "q \<le> limit" and "(unat n + unat v) mod 2 ^ 32 \<le> limit - q"
proof -
  let ?in = "take (limit - p) (drop p data)"
  obtain rest where r: "entry_header ?in = Some (s, n, v, rest)" "q = limit - length rest"
    "\<not> (of_nat (length rest) :: u32) < n + v" "\<not> limit - p < 3"
    using assms(1) by (auto simp: DecodeEntry_def split: if_splits option.splits)
  have l: "length rest < limit - p" using entry_header_shorter [OF r(1)] r(4) by simp
  then show "p < q" "q \<le> limit" using r(2) by auto
  have "length rest < 2 ^ 32" using l assms(2) by simp
  then have "unat (n + v) \<le> length rest" using r(3) by (simp add: word_less_nat_alt not_less)
  then show "(unat n + unat v) mod 2 ^ 32 \<le> limit - q" using r(2) l by (simp add: unat_word_ariths)
qed

lemma unat_restarts_less: "unat (r :: u32) < 2 ^ 32"
  using unsigned_less [of r] by simp

lemma ParseNextKey_bi_restarts [simp]: "bi_restarts (snd (ParseNextKey i)) = bi_restarts i"
  by (auto simp: ParseNextKey_def CorruptionError_def Let_def split: option.splits)

lemma ParseNextKey_progress:
  assumes "ParseNextKey i = (True, i')"
  shows "NextEntryOffset i < NextEntryOffset i'" and "NextEntryOffset i' \<le> unat (bi_restarts i)"
    and "NextEntryOffset i < unat (bi_restarts i)"
proof -
  obtain s n v q where d: "DecodeEntry (bi_data i) (NextEntryOffset i) (unat (bi_restarts i)) = Some (s, n, v, q)"
    and o': "bi_value_off i' = q + unat n" "bi_value_len i' = unat v"
    and lt: "NextEntryOffset i < unat (bi_restarts i)"
    using assms by (auto simp: ParseNextKey_def Let_def split: if_splits option.splits)
  note b = DecodeEntry_bounds [OF d unat_restarts_less]
  have "NextEntryOffset i' = q + (unat n + unat v) mod 2 ^ 32"
  proof -
    have "q + (unat n + unat v) mod 2 ^ 32 < 2 ^ 32"
      using b(2,3) unat_restarts_less [of "bi_restarts i"] by linarith
    then have "(q + (unat n + unat v) mod 2 ^ 32) mod 2 ^ 32 = q + (unat n + unat v) mod 2 ^ 32"
      by (rule mod_less)
    then show ?thesis unfolding NextEntryOffset_def o' by (metis add.assoc mod_add_right_eq)
  qed
  then show "NextEntryOffset i < NextEntryOffset i'" "NextEntryOffset i' \<le> unat (bi_restarts i)"
    using b by linarith+
  show "NextEntryOffset i < unat (bi_restarts i)" by (rule lt)
qed

lemma ParseNextKey_measure:
  assumes "(True, i') = ParseNextKey i"
  shows "unat (bi_restarts i') - NextEntryOffset i' < unat (bi_restarts i) - NextEntryOffset i"
  using ParseNextKey_progress [OF assms [symmetric]] ParseNextKey_bi_restarts [of i] assms [symmetric] by simp

text \<open>The scans of \<open>Seek\<close>, \<open>Prev\<close> and \<open>SeekToLast\<close>; each parsed entry ends further on, so
  they end.\<close>

function seek_scan :: "(bytes \<Rightarrow> bytes \<Rightarrow> int) \<Rightarrow> bytes \<Rightarrow> BlockIter \<Rightarrow> BlockIter" where
  "seek_scan cmp target i =
    (case ParseNextKey i of
       (False, i') \<Rightarrow> i'
     | (True, i') \<Rightarrow> if cmp (bi_key i') target \<ge> 0 then i' else seek_scan cmp target i')"
  by pat_completeness auto
termination
  by (relation "measure (\<lambda>(_, _, i). unat (bi_restarts i) - NextEntryOffset i)") (auto dest: sym ParseNextKey_measure)

declare seek_scan.simps [simp del]

function offset_scan :: "nat \<Rightarrow> BlockIter \<Rightarrow> BlockIter" where
  "offset_scan original i =
    (case ParseNextKey i of
       (False, i') \<Rightarrow> i'
     | (True, i') \<Rightarrow> if NextEntryOffset i' < original then offset_scan original i' else i')"
  by pat_completeness auto
termination
  by (relation "measure (\<lambda>(_, i). unat (bi_restarts i) - NextEntryOffset i)") (auto dest: sym ParseNextKey_measure)

declare offset_scan.simps [simp del]

definition BI_Next :: "BlockIter \<Rightarrow> BlockIter" where
  "BI_Next i = snd (ParseNextKey i)"

definition BI_SeekToFirst :: "BlockIter \<Rightarrow> BlockIter" where
  "BI_SeekToFirst i = snd (ParseNextKey (SeekToRestartPoint 0 i))"

definition BI_SeekToLast :: "BlockIter \<Rightarrow> BlockIter" where
  "BI_SeekToLast i =
    offset_scan (unat (bi_restarts i)) (SeekToRestartPoint (bi_num_restarts i - 1) i)"

text \<open>The scan back over the restart points: \<open>None\<close> when there is no earlier entry.\<close>

fun prev_restart :: "BlockIter \<Rightarrow> nat \<Rightarrow> nat \<Rightarrow> nat option" where
  "prev_restart i original 0 = (if GetRestartPoint i 0 \<ge> original then None else Some 0)"
| "prev_restart i original (Suc r) =
    (if GetRestartPoint i (Suc r) \<ge> original then prev_restart i original r else Some (Suc r))"

definition BI_Prev :: "BlockIter \<Rightarrow> BlockIter" where
  "BI_Prev i =
    (let original = bi_current i
     in case prev_restart i original (bi_restart_index i) of
          None \<Rightarrow> i\<lparr>bi_current := unat (bi_restarts i), bi_restart_index := bi_num_restarts i\<rparr>
        | Some r \<Rightarrow> offset_scan original (SeekToRestartPoint r i))"

text \<open>The binary search over the restart points: \<open>None\<close> is a corrupt entry.\<close>

function seek_restart :: "(bytes \<Rightarrow> bytes \<Rightarrow> int) \<Rightarrow> bytes \<Rightarrow> BlockIter \<Rightarrow> nat \<Rightarrow> nat \<Rightarrow> nat option" where
  "seek_restart cmp target i left right =
    (if left < right
     then let mid = (left + right + 1) div 2;
              region_offset = GetRestartPoint i mid
          in case DecodeEntry (bi_data i) region_offset (unat (bi_restarts i)) of
               None \<Rightarrow> None
             | Some (shared, non_shared, value_length, key_ptr) \<Rightarrow>
                 if shared \<noteq> 0 then None
                 else if cmp (take (unat non_shared) (drop key_ptr (bi_data i))) target < 0
                      then seek_restart cmp target i mid right
                      else seek_restart cmp target i left (mid - 1)
     else Some left)"
  by pat_completeness auto
termination
  by (relation "measure (\<lambda>(_, _, _, left, right). right - left)") auto

declare seek_restart.simps [simp del]

definition BI_Seek :: "(bytes \<Rightarrow> bytes \<Rightarrow> int) \<Rightarrow> bytes \<Rightarrow> BlockIter \<Rightarrow> BlockIter" where
  "BI_Seek cmp target i =
    (case seek_restart cmp target i 0 (bi_num_restarts i - 1) of
       None \<Rightarrow> CorruptionError i
     | Some left \<Rightarrow> seek_scan cmp target (SeekToRestartPoint left i))"


section \<open>The layout of a block\<close>

text \<open>A stored entry: the shared length, the key and the value.\<close>

fun piece_bytes :: "nat \<times> bytes \<times> bytes \<Rightarrow> bytes" where
  "piece_bytes (s, k, v) =
    EncodeVarint32 (of_nat s) @ EncodeVarint32 (of_nat (length k - s)) @ EncodeVarint32 (of_nat (length v)) @
    drop s k @ v"

definition off :: "(nat \<times> bytes \<times> bytes) list \<Rightarrow> nat \<Rightarrow> nat" where
  "off ps i = length (concat (map piece_bytes (take i ps)))"

abbreviation piece_key :: "nat \<times> bytes \<times> bytes \<Rightarrow> bytes" where "piece_key p \<equiv> fst (snd p)"
abbreviation piece_value :: "nat \<times> bytes \<times> bytes \<Rightarrow> bytes" where "piece_value p \<equiv> snd (snd p)"

text \<open>Each entry shares with the key before it, none for the first; the restart points are
  entries that share nothing, the first entry among them.\<close>

definition pieces_ok :: "(nat \<times> bytes \<times> bytes) list \<Rightarrow> bool" where
  "pieces_ok ps \<longleftrightarrow> (\<forall>i < length ps. fst (ps ! i) \<le> length (piece_key (ps ! i)) \<and>
     (if i = 0 then fst (ps ! i) = 0
      else fst (ps ! i) \<le> length (piece_key (ps ! (i - 1))) \<and>
        take (fst (ps ! i)) (piece_key (ps ! (i - 1))) = take (fst (ps ! i)) (piece_key (ps ! i))))"

definition restarts_ok :: "(nat \<times> bytes \<times> bytes) list \<Rightarrow> nat list \<Rightarrow> bool" where
  "restarts_ok ps rs \<longleftrightarrow> rs \<noteq> [] \<and> rs ! 0 = 0 \<and> sorted_wrt (<) rs \<and>
     (\<forall>r \<in> set rs. r = 0 \<or> r < length ps) \<and> (\<forall>r \<in> set rs. r < length ps \<longrightarrow> fst (ps ! r) = 0)"

definition block_bytes :: "(nat \<times> bytes \<times> bytes) list \<Rightarrow> nat list \<Rightarrow> bytes" where
  "block_bytes ps rs =
    concat (map piece_bytes ps) @ concat (map (\<lambda>r. EncodeFixed32 (of_nat (off ps r))) rs) @
    EncodeFixed32 (of_nat (length rs))"

definition layout :: "bytes \<Rightarrow> (nat \<times> bytes \<times> bytes) list \<Rightarrow> nat list \<Rightarrow> bool" where
  "layout data ps rs \<longleftrightarrow> data = block_bytes ps rs \<and> pieces_ok ps \<and> restarts_ok ps rs \<and> length data < 2 ^ 32"

lemma low_byte_bit_7: "ucast (v OR 128 :: u32) < (128 :: byte) \<Longrightarrow> False"
proof -
  assume "ucast (v OR 128 :: u32) < (128 :: byte)"
  then have "drop_bit 7 (ucast (v OR 128 :: u32) :: byte) = 0"
    using less_exp_drop_bit [of 7 "ucast (v OR 128 :: u32) :: byte"] by simp
  from arg_cong [OF this, of "\<lambda>b. bit b 0"] show False by (simp add: bit_simps bit_literals)
qed

lemma varint_one_byte:
  assumes "(EncodeVarint32 v @ rest) ! 0 < 128"
  shows "EncodeVarint32 v = [ucast v]" and "v < 128"
  using assms by (auto simp: EncodeVarint32_def dest: low_byte_bit_7 split: if_splits)

lemma or_less_128: "a OR b < 128 \<Longrightarrow> a < 128 \<and> b < 128" for a b :: u32
  using less_exp_drop_bit [of 7 "a OR b"] less_exp_drop_bit [of 7 a] less_exp_drop_bit [of 7 b]
  by (simp add: drop_bit_or or_eq_0_iff)


lemma entry_header_varints:
  "entry_header (EncodeVarint32 a @ EncodeVarint32 b @ EncodeVarint32 c @ rest) = Some (a, b, c, rest)"
proof -
  let ?p = "EncodeVarint32 a @ EncodeVarint32 b @ EncodeVarint32 c @ rest"
  have slow: "GetVarint32Ptr (EncodeVarint32 v @ r) = Some (v, r)" for v r
    using GetVarint32_Encode [of v r] by (simp add: GetVarint32_def)
  show ?thesis
  proof (cases "ucast (?p ! 0) OR ucast (?p ! 1) OR ucast (?p ! 2) < (128 :: u32)")
    case False
    then show ?thesis by (simp only: entry_header_def Let_def if_False slow option.case prod.case)
  next
    case True
    have small: "x < 128" if "ucast x < (128 :: u32)" for x :: byte
      using that unat_byte_less [of x] by (simp add: word_less_nat_alt unsigned_ucast_eq take_bit_nat_eq_self)
    have p: "?p ! 0 < 128" "?p ! 1 < 128" "?p ! 2 < 128"
      using or_less_128 [OF True] or_less_128 small by blast+
    from p(1) have a: "EncodeVarint32 a = [ucast a]" "a < 128" using varint_one_byte by blast+
    have "(EncodeVarint32 b @ EncodeVarint32 c @ rest) ! 0 < 128" using p(2) a(1) by simp
    then have b: "EncodeVarint32 b = [ucast b]" "b < 128" using varint_one_byte by blast+
    have "(EncodeVarint32 c @ rest) ! 0 < 128" using p(3) a(1) b(1) by (simp add: numeral_2_eq_2)
    then have c: "EncodeVarint32 c = [ucast c]" "c < 128" using varint_one_byte by blast+
    have u: "ucast (ucast v :: byte) = v" if "v < 128" for v :: u32
      using that by (simp add: word_unat_eq_iff word_less_nat_alt unsigned_ucast_eq unsigned_take_bit_eq take_bit_nat_eq_self)
    show ?thesis using True a b c u by (simp add: entry_header_def Let_def numeral_2_eq_2)
  qed
qed


text \<open>Offsets of entries.\<close>

lemma off_simps [simp]: "off ps 0 = 0" "off ps (length ps) = length (concat (map piece_bytes ps))"
  by (simp_all add: off_def)

lemma off_Suc: "j < length ps \<Longrightarrow> off ps (Suc j) = off ps j + length (piece_bytes (ps ! j))"
  by (simp add: off_def take_Suc_conv_app_nth)

lemma piece_bytes_length: "3 \<le> length (piece_bytes p)"
  by (cases p) (simp add: EncodeVarint32_def)

lemma off_mono: "i \<le> j \<Longrightarrow> j \<le> length ps \<Longrightarrow> off ps i \<le> off ps j"
proof (induction j)
  case (Suc j)
  then show ?case using off_Suc [of j ps] by (cases "i = Suc j") auto
qed simp

lemma off_strict: "i < j \<Longrightarrow> j \<le> length ps \<Longrightarrow> off ps i < off ps j"
  using off_Suc [of i ps] off_mono [of "Suc i" j ps] piece_bytes_length [of "ps ! i"] by simp

lemma off_less_iff: "i \<le> length ps \<Longrightarrow> j \<le> length ps \<Longrightarrow> off ps i < off ps j \<longleftrightarrow> i < j"
  using off_strict off_mono by (metis leD leI)

lemma drop_off:
  "j < length ps \<Longrightarrow> drop (off ps j) (concat (map piece_bytes ps)) =
     piece_bytes (ps ! j) @ concat (map piece_bytes (drop (Suc j) ps))"
proof -
  assume j: "j < length ps"
  have "concat (map piece_bytes ps) =
      concat (map piece_bytes (take j ps)) @ piece_bytes (ps ! j) @ concat (map piece_bytes (drop (Suc j) ps))"
    using id_take_nth_drop [OF j] by (metis concat.simps(2) concat_append list.map(2) map_append)
  then show ?thesis by (simp add: off_def)
qed

lemma take_drop_entries:
  assumes "j < length ps"
  shows "take (off ps (length ps) - off ps j) (drop (off ps j) (block_bytes ps rs)) =
    piece_bytes (ps ! j) @ concat (map piece_bytes (drop (Suc j) ps))"
proof -
  let ?c = "concat (map piece_bytes ps)"
  have "off ps j \<le> length ?c" using off_mono [of j "length ps" ps] assms by simp
  then have "drop (off ps j) (block_bytes ps rs) = drop (off ps j) ?c @ drop (length ?c) (block_bytes ps rs)"
    by (simp add: block_bytes_def)
  moreover have "off ps (length ps) - off ps j = length (drop (off ps j) ?c)" by simp
  moreover have "take (length xs) (xs @ ys) = xs" for xs ys :: bytes by simp
  ultimately have "take (off ps (length ps) - off ps j) (drop (off ps j) (block_bytes ps rs)) = drop (off ps j) ?c"
    by (simp only:)
  then show ?thesis using drop_off [OF assms] by simp
qed

lemma DecodeEntry_piece:
  assumes "j < length ps" and "ps ! j = (s, k, v)" and "s \<le> length k"
    and "length (block_bytes ps rs) < 2 ^ 32"
  shows "\<exists>p. DecodeEntry (block_bytes ps rs) (off ps j) (off ps (length ps)) =
      Some (of_nat s, of_nat (length k - s), of_nat (length v), p) \<and>
    take (length k - s) (drop p (block_bytes ps rs)) = drop s k \<and>
    take (length v) (drop (p + (length k - s)) (block_bytes ps rs)) = v \<and>
    p + (length k - s) + length v = off ps (Suc j)"
proof -
  let ?b = "block_bytes ps rs" and ?L = "off ps (length ps)"
  define hd where "hd = EncodeVarint32 (of_nat s) @ EncodeVarint32 (of_nat (length k - s)) @ EncodeVarint32 (of_nat (length v))"
  define tl where "tl = concat (map piece_bytes (drop (Suc j) ps))"
  have pb: "piece_bytes (ps ! j) = hd @ drop s k @ v" using assms(2) by (simp add: hd_def)
  have inp: "take (?L - off ps j) (drop (off ps j) ?b) = hd @ drop s k @ v @ tl"
    using take_drop_entries [OF assms(1), of rs] pb by (simp add: tl_def)
  have len: "?L - off ps j = length hd + (length k - s) + length v + length tl"
    using arg_cong [OF inp, of length] assms(1,3) off_mono [of j "length ps" ps]
    by (simp add: block_bytes_def)
  have off': "off ps (Suc j) = off ps j + length hd + (length k - s) + length v"
    using off_Suc [OF assms(1)] pb assms(3) by simp
  have L: "?L < 2 ^ 32" using assms(4) by (simp add: block_bytes_def)
  have small: "length k - s + length v + length tl < 2 ^ 32" using len L by linarith
  have h3: "3 \<le> length hd" by (simp add: hd_def EncodeVarint32_def)
  have eh: "entry_header (hd @ drop s k @ v @ tl) =
      Some (of_nat s, of_nat (length k - s), of_nat (length v), drop s k @ v @ tl)"
    using entry_header_varints by (simp add: hd_def)
  have "unat (of_nat (length k - s) + of_nat (length v) :: u32) = length k - s + length v"
  proof -
    have "length k - s + length v < 2 ^ LENGTH(32)" using small by simp
    from unat_of_nat_small [OF this] show ?thesis by simp
  qed
  then have "\<not> (of_nat (length (drop s k @ v @ tl)) :: u32) < of_nat (length k - s) + of_nat (length v)"
  proof -
    have "length (drop s k @ v @ tl) < 2 ^ LENGTH(32)" using small by simp
    from unat_of_nat_small [OF this] show ?thesis
      using \<open>unat (of_nat (length k - s) + of_nat (length v) :: u32) = length k - s + length v\<close>
      unfolding word_less_nat_alt by (simp only: length_append length_drop not_less le_add1 add.assoc [symmetric])
  qed
  moreover have "\<not> ?L - off ps j < 3" using len h3 by simp
  moreover have "?L - length (drop s k @ v @ tl) = off ps j + length hd"
    using len off_mono [of j "length ps" ps] assms(1) by simp
  ultimately have D: "DecodeEntry ?b (off ps j) ?L =
      Some (of_nat s, of_nat (length k - s), of_nat (length v), off ps j + length hd)"
    unfolding DecodeEntry_def inp eh by (simp only: if_False option.case prod.case)
  have dr: "drop (off ps j) ?b = hd @ drop s k @ v @ tl @ drop ?L ?b"
  proof -
    have "?L - off ps j + off ps j = ?L" using off_mono [of j "length ps" ps] assms(1) by simp
    then have "drop (?L - off ps j) (drop (off ps j) ?b) = drop ?L ?b" by (simp only: drop_drop)
    then show ?thesis using append_take_drop_id [of "?L - off ps j" "drop (off ps j) ?b"] unfolding inp by simp
  qed
  have "drop (off ps j + length hd) ?b = drop s k @ v @ tl @ drop ?L ?b"
    using arg_cong [OF dr, of "drop (length hd)"] by (simp add: add.commute)
  moreover from arg_cong [OF this, of "drop (length k - s)"]
  have "drop (off ps j + length hd + (length k - s)) ?b = v @ tl @ drop ?L ?b" by (simp add: add_ac)
  ultimately show ?thesis using D off' by (intro exI [of _ "off ps j + length hd"]) simp
qed


section \<open>Iterators as cursors\<close>

text \<open>An iterator on a well-formed block, the state before parsing entry \<open>j\<close>, and the state at
  entry \<open>j\<close>.\<close>

definition iter_on :: "BlockIter \<Rightarrow> (nat \<times> bytes \<times> bytes) list \<Rightarrow> nat list \<Rightarrow> bool" where
  "iter_on i ps rs \<longleftrightarrow> layout (bi_data i) ps rs \<and> unat (bi_restarts i) = off ps (length ps) \<and>
     bi_num_restarts i = length rs \<and> bi_status i = OK"

definition ready :: "BlockIter \<Rightarrow> (nat \<times> bytes \<times> bytes) list \<Rightarrow> nat list \<Rightarrow> nat \<Rightarrow> bool" where
  "ready i ps rs j \<longleftrightarrow> NextEntryOffset i = off ps j \<and> bi_restart_index i < length rs \<and> rs ! bi_restart_index i \<le> j \<and>
     (j < length ps \<longrightarrow> fst (ps ! j) \<le> length (bi_key i) \<and>
        take (fst (ps ! j)) (bi_key i) = take (fst (ps ! j)) (piece_key (ps ! j)))"

definition at_entry :: "BlockIter \<Rightarrow> (nat \<times> bytes \<times> bytes) list \<Rightarrow> nat list \<Rightarrow> nat \<Rightarrow> bool" where
  "at_entry i ps rs j \<longleftrightarrow> bi_current i = off ps j \<and> bi_key i = piece_key (ps ! j) \<and> BI_value i = piece_value (ps ! j) \<and>
     NextEntryOffset i = off ps (Suc j) \<and> bi_restart_index i < length rs \<and> rs ! bi_restart_index i \<le> j"

text \<open>The cursor position: an entry, or \<open>length ps\<close> for an iterator that is not valid.\<close>

definition block_at :: "BlockIter \<Rightarrow> (nat \<times> bytes \<times> bytes) list \<Rightarrow> nat list \<Rightarrow> nat \<Rightarrow> bool" where
  "block_at i ps rs j \<longleftrightarrow> iter_on i ps rs \<and> j \<le> length ps \<and>
     (if j < length ps then at_entry i ps rs j else \<not> BI_Valid i)"

lemma layout_length:
  assumes "layout data ps rs"
  shows "off ps (length ps) < 2 ^ 32" and "j \<le> length ps \<Longrightarrow> off ps j < 2 ^ 32"
proof -
  show L: "off ps (length ps) < 2 ^ 32" using assms by (auto simp: layout_def block_bytes_def)
  show "off ps j < 2 ^ 32" if "j \<le> length ps"
    using off_mono [of j "length ps" ps] that L by linarith
qed

lemma restart_le:
  assumes "layout data ps rs" and "r < length rs"
  shows "rs ! r \<le> length ps" and "rs ! r < length ps \<or> rs ! r = 0"
  using assms unfolding layout_def restarts_ok_def by (metis le0 less_imp_le_nat nth_mem)+

lemma GetRestartPoint_layout:
  assumes "iter_on i ps rs" and "r < length rs"
  shows "GetRestartPoint i r = off ps (rs ! r)"
proof -
  let ?f = "\<lambda>r. EncodeFixed32 (of_nat (off ps r)) :: bytes"
  have lay: "layout (bi_data i) ps rs" and R: "unat (bi_restarts i) = off ps (length ps)"
    using assms(1) by (auto simp: iter_on_def)
  have "drop (off ps (length ps) + r * 4) (bi_data i) =
      drop (r * 4) (concat (map ?f rs) @ EncodeFixed32 (of_nat (length rs)))"
    using lay by (simp add: layout_def block_bytes_def)
  also have "\<dots> = ?f (rs ! r) @ concat (map ?f (drop (Suc r) rs)) @ EncodeFixed32 (of_nat (length rs))"
    using assms(2) by (intro drop_fixed_concat) simp_all
  finally have "GetRestartPoint i r = unat (of_nat (off ps (rs ! r)) :: u32)"
    unfolding GetRestartPoint_def R by simp
  moreover have "off ps (rs ! r) < 2 ^ LENGTH(32)"
    using layout_length(2) [OF lay] restart_le(1) [OF lay assms(2)] by simp
  ultimately show ?thesis by (simp only: unat_of_nat_small)
qed

lemma advance_restart_layout:
  assumes "iter_on i ps rs" and "bi_current i = off ps j" and "j < length ps"
    and "r < length rs" and "rs ! r \<le> j"
  shows "advance_restart i r < length rs \<and> rs ! advance_restart i r \<le> j"
  using assms
proof (induction i r rule: advance_restart.induct)
  case (1 i r)
  have n: "bi_num_restarts i = length rs" using 1(2) by (simp add: iter_on_def)
  show ?case
  proof (cases "r + 1 < bi_num_restarts i \<and> GetRestartPoint i (r + 1) < bi_current i")
    case True
    then have r1: "r + 1 < length rs" "off ps (rs ! (r + 1)) < off ps j"
      using n GetRestartPoint_layout [OF 1(2)] 1(3) by auto
    moreover have "rs ! (r + 1) \<le> length ps"
      using 1(2) r1(1) restart_le(1) by (auto simp: iter_on_def)
    ultimately have "rs ! (r + 1) \<le> j" using 1(4) off_less_iff [of "rs ! (r + 1)" ps j] by simp
    then show ?thesis using 1(1) [OF True 1(2,3,4)] r1(1) True advance_restart.simps [of i r] by simp
  next
    case False
    then have "advance_restart i r = r" by (subst advance_restart.simps) (simp only: if_False)
    then show ?thesis using 1(5,6) by simp
  qed
qed

text \<open>A key is no longer than the stored bytes up to its end.\<close>

lemma piece_key_length:
  assumes "pieces_ok ps" and "j < length ps"
  shows "length (piece_key (ps ! j)) \<le> off ps (Suc j)"
  using assms(2)
proof (induction j)
  case 0
  then have "fst (ps ! 0) = 0" using assms(1) by (auto simp: pieces_ok_def)
  then show ?case using off_Suc [of 0 ps] 0 by (cases "ps ! 0") simp
next
  case (Suc j)
  have "fst (ps ! Suc j) \<le> length (piece_key (ps ! j))" using assms(1) Suc.prems unfolding pieces_ok_def
    by (metis diff_Suc_1 nat.distinct(1))
  moreover have "length (piece_key (ps ! Suc j)) - fst (ps ! Suc j) \<le> length (piece_bytes (ps ! Suc j))"
    by (cases "ps ! Suc j") simp
  ultimately show ?case using Suc off_Suc [of "Suc j" ps] by simp
qed

lemma ParseNextKey_entry:
  assumes "iter_on i ps rs" and "ready i ps rs j" and "j < length ps"
  shows "\<exists>i'. ParseNextKey i = (True, i') \<and> iter_on i' ps rs \<and> at_entry i' ps rs j"
proof -
  obtain s k v where p: "ps ! j = (s, k, v)" by (cases "ps ! j")
  have lay: "layout (bi_data i) ps rs" and R: "unat (bi_restarts i) = off ps (length ps)"
    using assms(1) by (auto simp: iter_on_def)
  have d: "bi_data i = block_bytes ps rs" and l32: "length (block_bytes ps rs) < 2 ^ 32" and pk: "pieces_ok ps"
    using lay by (auto simp: layout_def)
  have s: "s \<le> length k" using pk assms(3) p by (auto simp: pieces_ok_def)
  obtain q where q: "DecodeEntry (block_bytes ps rs) (off ps j) (off ps (length ps)) =
      Some (of_nat s, of_nat (length k - s), of_nat (length v), q)"
    "take (length k - s) (drop q (block_bytes ps rs)) = drop s k"
    "take (length v) (drop (q + (length k - s)) (block_bytes ps rs)) = v"
    "q + (length k - s) + length v = off ps (Suc j)"
    using DecodeEntry_piece [OF assms(3) p s l32] by blast
  have b: "off ps (Suc j) < 2 ^ 32" using layout_length(2) [OF lay] assms(3) by simp
  have sl: "length k - s < 2 ^ LENGTH(32)" "length v < 2 ^ LENGTH(32)" "s < 2 ^ LENGTH(32)"
  proof -
    show "length k - s < 2 ^ LENGTH(32)" "length v < 2 ^ LENGTH(32)" using q(4) b by simp_all
    have "length k < 2 ^ LENGTH(32)" using piece_key_length [OF pk assms(3)] p b by simp
    then show "s < 2 ^ LENGTH(32)" using s by simp
  qed
  have next_off: "NextEntryOffset i = off ps j" and rix: "bi_restart_index i < length rs" "rs ! bi_restart_index i \<le> j"
    and sk: "s \<le> length (bi_key i)" "take s (bi_key i) = take s k"
    using assms(2,3) p by (auto simp: ready_def)
  have lt: "off ps j < off ps (length ps)" by (rule off_strict [OF assms(3) order_refl])
  define i1 where "i1 = i\<lparr>bi_current := off ps j, bi_key := k, bi_value_off := q + (length k - s), bi_value_len := length v\<rparr>"
  define i2 where "i2 = i1\<lparr>bi_restart_index := advance_restart i1 (bi_restart_index i)\<rparr>"
  have P: "ParseNextKey i = (True, i2)"
    using lt sk q(1,2) unat_of_nat_small [OF sl(1)] unat_of_nat_small [OF sl(2)] unat_of_nat_small [OF sl(3)]
    unfolding ParseNextKey_def Let_def next_off R i2_def i1_def by (simp add: d)
  have on1: "iter_on i1 ps rs" using assms(1) by (simp add: iter_on_def i1_def)
  have "advance_restart i1 (bi_restart_index i) < length rs \<and> rs ! advance_restart i1 (bi_restart_index i) \<le> j"
    using advance_restart_layout [OF on1 _ assms(3) rix] by (simp add: i1_def)
  then have "at_entry i2 ps rs j"
    using q(3,4) b p by (simp add: at_entry_def i2_def i1_def BI_value_def NextEntryOffset_def d)
  moreover have "iter_on i2 ps rs" using on1 by (simp add: iter_on_def i2_def)
  ultimately show ?thesis using P by blast
qed

lemma at_entry_ready:
  assumes "iter_on i ps rs" and "at_entry i ps rs j" and "j < length ps"
  shows "ready i ps rs (Suc j)"
proof -
  have "pieces_ok ps" using assms(1) by (simp add: iter_on_def layout_def)
  then show ?thesis using assms(2) unfolding ready_def at_entry_def pieces_ok_def
    by (metis diff_Suc_1 le_SucI nat.distinct(1))
qed

lemma ParseNextKey_end:
  assumes "iter_on i ps rs" and "ready i ps rs (length ps)"
  shows "\<exists>i'. ParseNextKey i = (False, i') \<and> iter_on i' ps rs \<and> \<not> BI_Valid i'"
  using assms by (auto simp: ParseNextKey_def ready_def iter_on_def BI_Valid_def Let_def)

lemma at_entry_valid:
  assumes "iter_on i ps rs" and "at_entry i ps rs j" and "j < length ps"
  shows "BI_Valid i"
  using assms off_strict [of j "length ps" ps] by (simp add: BI_Valid_def at_entry_def iter_on_def)

lemma ParseNextKey_at:
  assumes "iter_on i ps rs" and "ready i ps rs j" and "j \<le> length ps"
  shows "block_at (snd (ParseNextKey i)) ps rs j"
  using ParseNextKey_entry [OF assms(1,2)] ParseNextKey_end [OF assms(1)] assms(2,3)
  by (cases "j < length ps") (auto simp: block_at_def)

lemma SeekToRestartPoint_ready:
  assumes "iter_on i ps rs" and "r < length rs"
  shows "iter_on (SeekToRestartPoint r i) ps rs \<and> ready (SeekToRestartPoint r i) ps rs (rs ! r)"
proof -
  have lay: "layout (bi_data i) ps rs" using assms(1) by (simp add: iter_on_def)
  have "off ps (rs ! r) < 2 ^ 32" using layout_length(2) [OF lay] restart_le(1) [OF lay assms(2)] by simp
  moreover have "rs ! r < length ps \<longrightarrow> fst (ps ! (rs ! r)) = 0"
    using lay assms(2) by (auto simp: layout_def restarts_ok_def)
  ultimately show ?thesis
    using GetRestartPoint_layout [OF assms] assms
    by (simp add: SeekToRestartPoint_def ready_def iter_on_def NextEntryOffset_def)
qed

lemma layout_first: "layout data ps rs \<Longrightarrow> 0 < length rs \<and> rs ! 0 = 0"
  by (simp add: layout_def restarts_ok_def)

lemma BI_SeekToFirst_at: "iter_on i ps rs \<Longrightarrow> block_at (BI_SeekToFirst i) ps rs 0"
  using SeekToRestartPoint_ready [of i ps rs 0] layout_first [of "bi_data i" ps rs]
    ParseNextKey_at [of "SeekToRestartPoint 0 i" ps rs 0]
  by (simp add: BI_SeekToFirst_def iter_on_def)

lemma BI_Next_at: "block_at i ps rs j \<Longrightarrow> j < length ps \<Longrightarrow> block_at (BI_Next i) ps rs (Suc j)"
  using at_entry_ready [of i ps rs j] ParseNextKey_at [of i ps rs "Suc j"] by (simp add: block_at_def BI_Next_def)

lemma offset_scan_at:
  assumes "iter_on i ps rs" and "ready i ps rs j" and "j < m" and "m \<le> length ps"
  shows "block_at (offset_scan (off ps m) i) ps rs (m - 1)"
  using assms(1-3)
proof (induction "m - j" arbitrary: i j)
  case (Suc d)
  then obtain i' where i': "ParseNextKey i = (True, i')" "iter_on i' ps rs" "at_entry i' ps rs j"
    using ParseNextKey_entry [OF Suc.prems(1,2)] assms(4) by auto
  have o': "NextEntryOffset i' = off ps (Suc j)" using i'(3) by (simp add: at_entry_def)
  show ?case
  proof (cases "Suc j < m")
    case True
    have "offset_scan (off ps m) i = offset_scan (off ps m) i'"
      using i'(1) o' off_strict [OF True assms(4)] by (subst offset_scan.simps) simp
    moreover have "ready i' ps rs (Suc j)" using at_entry_ready [OF i'(2,3)] Suc.prems(3) assms(4) by simp
    ultimately show ?thesis using Suc.hyps(1) [of "Suc j" i'] Suc.hyps(2) i'(2) True by simp
  next
    case False
    then have m: "m = Suc j" using Suc.prems(3) by simp
    then have "offset_scan (off ps m) i = i'" using i'(1) o' by (subst offset_scan.simps) simp
    then show ?thesis using i'(2,3) m assms(4) by (simp add: block_at_def)
  qed
qed simp

lemma BI_SeekToLast_at:
  assumes "iter_on i ps rs"
  shows "block_at (BI_SeekToLast i) ps rs (if ps = [] then 0 else length ps - 1)"
proof -
  let ?r = "length rs - 1" and ?i = "SeekToRestartPoint (length rs - 1) i"
  have lay: "layout (bi_data i) ps rs" and R: "unat (bi_restarts i) = off ps (length ps)" "bi_num_restarts i = length rs"
    using assms by (auto simp: iter_on_def)
  have r: "?r < length rs" using layout_first [OF lay] by simp
  note sr = SeekToRestartPoint_ready [OF assms r]
  show ?thesis
  proof (cases "ps = []")
    case True
    then have z: "rs ! ?r = 0" using restart_le [OF lay r] by simp
    then obtain i' where "ParseNextKey ?i = (False, i')" "iter_on i' ps rs" "\<not> BI_Valid i'"
      using ParseNextKey_end [of ?i ps rs] sr True by auto
    then show ?thesis using True R by (subst BI_SeekToLast_def, subst offset_scan.simps) (simp add: block_at_def)
  next
    case False
    then have "rs ! ?r < length ps" using restart_le(2) [OF lay r] by auto
    then show ?thesis using offset_scan_at [of ?i ps rs "rs ! ?r" "length ps"] sr False R by (simp add: BI_SeekToLast_def)
  qed
qed

lemma prev_restart_layout:
  assumes "iter_on i ps rs" and "r < length rs" and "j \<le> length ps"
  shows "case prev_restart i (off ps j) r of None \<Rightarrow> j = 0 | Some r' \<Rightarrow> r' < length rs \<and> rs ! r' < j"
  using assms(2)
proof (induction r)
  case 0
  have lay: "layout (bi_data i) ps rs" using assms(1) by (simp add: iter_on_def)
  have "rs ! 0 = 0" using layout_first [OF lay] by simp
  then show ?case using GetRestartPoint_layout [OF assms(1) 0] off_less_iff [of 0 ps j] assms(3) 0 by auto
next
  case (Suc r)
  have lay: "layout (bi_data i) ps rs" using assms(1) by (simp add: iter_on_def)
  have "rs ! Suc r \<le> length ps" using restart_le(1) [OF lay Suc.prems] .
  then show ?case
    using GetRestartPoint_layout [OF assms(1) Suc.prems] off_less_iff [of "rs ! Suc r" ps j] assms(3) Suc
    by (auto simp: not_le)
qed

lemma BI_Prev_at:
  assumes "block_at i ps rs j" and "j < length ps"
  shows "block_at (BI_Prev i) ps rs (if j = 0 then length ps else j - 1)"
proof -
  have on: "iter_on i ps rs" and at: "at_entry i ps rs j" using assms by (auto simp: block_at_def)
  have c: "bi_current i = off ps j" "bi_restart_index i < length rs" using at by (auto simp: at_entry_def)
  note pr = prev_restart_layout [OF on c(2), of j]
  show ?thesis
  proof (cases "prev_restart i (off ps j) (bi_restart_index i)")
    case None
    then show ?thesis using pr assms(2) on c(1) by (simp add: BI_Prev_def block_at_def iter_on_def BI_Valid_def)
  next
    case (Some r)
    then have r: "r < length rs" "rs ! r < j" using pr assms(2) by auto
    then show ?thesis
      using offset_scan_at [of "SeekToRestartPoint r i" ps rs "rs ! r" j] SeekToRestartPoint_ready [OF on r(1)]
        Some c(1) assms(2) by (simp add: BI_Prev_def)
  qed
qed


context key_comparator
begin

lemma seek_restart_at:
  assumes "iter_on i ps rs" and "left \<le> right" and "right < length rs"
    and "left = 0 \<or> Compare (piece_key (ps ! (rs ! left))) target < 0"
  shows "\<exists>r. seek_restart Compare target i left right = Some r \<and> r < length rs \<and>
    (r = 0 \<or> Compare (piece_key (ps ! (rs ! r))) target < 0)"
  using assms(2-4)
proof (induction "right - left" arbitrary: left right rule: less_induct)
  case less
  have lay: "layout (bi_data i) ps rs" and R: "unat (bi_restarts i) = off ps (length ps)"
    using assms(1) by (auto simp: iter_on_def)
  show ?case
  proof (cases "left < right")
    case False
    then have "seek_restart Compare target i left right = Some left" by (subst seek_restart.simps) simp
    then show ?thesis using less.prems by simp
  next
    case True
    define mid where "mid = (left + right + 1) div 2"
    have mid: "left < mid" "mid \<le> right" using True by (auto simp: mid_def)
    then have ml: "mid < length rs" using less.prems(2) by simp
    have "rs ! 0 < rs ! mid"
      using lay mid(1) ml sorted_wrt_nth_less [of "(<)" rs 0 mid] by (auto simp: layout_def restarts_ok_def)
    then have m: "rs ! mid < length ps" using restart_le(2) [OF lay ml] by auto
    obtain k v where p: "ps ! (rs ! mid) = (0, k, v)"
      using lay m ml by (cases "ps ! (rs ! mid)") (auto simp: layout_def restarts_ok_def)
    have l32: "length (block_bytes ps rs) < 2 ^ 32" and d: "bi_data i = block_bytes ps rs"
      using lay by (auto simp: layout_def)
    obtain q where q: "DecodeEntry (block_bytes ps rs) (off ps (rs ! mid)) (off ps (length ps)) =
        Some (0, of_nat (length k), of_nat (length v), q)" "take (length k) (drop q (block_bytes ps rs)) = k"
      using DecodeEntry_piece [OF m p _ l32] by auto
    have "length k < 2 ^ LENGTH(32)"
      using piece_key_length [of ps "rs ! mid"] m p lay layout_length(2) [OF lay, of "Suc (rs ! mid)"]
      by (simp add: layout_def)
    then have un: "unat (of_nat (length k) :: u32) = length k" by (rule unat_of_nat_small)
    have g: "GetRestartPoint i mid = off ps (rs ! mid)" by (rule GetRestartPoint_layout [OF assms(1) ml])
    have "seek_restart Compare target i left right =
        (case DecodeEntry (bi_data i) (GetRestartPoint i mid) (unat (bi_restarts i)) of
           None \<Rightarrow> None
         | Some (shared, non_shared, value_length, key_ptr) \<Rightarrow>
             if shared \<noteq> 0 then None
             else if Compare (take (unat non_shared) (drop key_ptr (bi_data i))) target < 0
                  then seek_restart Compare target i mid right else seek_restart Compare target i left (mid - 1))"
      by (subst seek_restart.simps) (simp only: True if_True Let_def mid_def)
    then have step: "seek_restart Compare target i left right =
        (if Compare k target < 0 then seek_restart Compare target i mid right else seek_restart Compare target i left (mid - 1))"
      unfolding g R d q(1) option.case prod.case un q(2) by simp
    show ?thesis
    proof (cases "Compare k target < 0")
      case True
      then show ?thesis using less.hyps [of right mid] mid less.prems(2) step p by auto
    next
      case False
      then show ?thesis using less.hyps [of "mid - 1" left] mid less.prems(2,3) step by auto
    qed
  qed
qed

lemma seek_scan_at:
  assumes "iter_on i ps rs" and "ready i ps rs j" and "j \<le> length ps"
    and "\<forall>q \<in> set (take j ps). Compare (piece_key q) target < 0"
  shows "block_at (seek_scan Compare target i) ps rs (length (takeWhile (\<lambda>q. Compare (piece_key q) target < 0) ps))"
  using assms
proof (induction "length ps - j" arbitrary: i j)
  case 0
  then have "j = length ps" by simp
  then have "takeWhile (\<lambda>q. Compare (piece_key q) target < 0) ps = ps" using 0 by simp
  from arg_cong [OF this, of length]
  have tw: "length (takeWhile (\<lambda>q. Compare (piece_key q) target < 0) ps) = length ps" .
  obtain i' where i': "ParseNextKey i = (False, i')" "iter_on i' ps rs" "\<not> BI_Valid i'"
    using ParseNextKey_end [OF 0(2)] 0(3) \<open>j = length ps\<close> by auto
  have "seek_scan Compare target i = i'" using i'(1) by (subst seek_scan.simps) simp
  then show ?case using i'(2,3) tw by (simp add: block_at_def)
next
  case (Suc d)
  then have j: "j < length ps" by simp
  obtain i' where i': "ParseNextKey i = (True, i')" "iter_on i' ps rs" "at_entry i' ps rs j"
    using ParseNextKey_entry [OF Suc.prems(1,2) j] by auto
  have k: "bi_key i' = piece_key (ps ! j)" using i'(3) by (simp add: at_entry_def)
  show ?case
  proof (cases "Compare (piece_key (ps ! j)) target < 0")
    case True
    have "seek_scan Compare target i = seek_scan Compare target i'" using i'(1) k True by (subst seek_scan.simps) simp
    moreover have "\<forall>q \<in> set (take (Suc j) ps). Compare (piece_key q) target < 0"
      using Suc.prems(4) True j by (simp add: take_Suc_conv_app_nth)
    ultimately show ?thesis
      using Suc.hyps(1) [of "Suc j" i'] Suc.hyps(2) i'(2) at_entry_ready [OF i'(2,3) j] j by simp
  next
    case False
    have "takeWhile (\<lambda>q. Compare (piece_key q) target < 0) (take j ps @ drop j ps) = take j ps"
      using Suc.prems(4) False j by (subst takeWhile_append2) (simp_all add: Cons_nth_drop_Suc [symmetric])
    then have "length (takeWhile (\<lambda>q. Compare (piece_key q) target < 0) ps) = j" using j by simp
    moreover have "seek_scan Compare target i = i'" using i'(1) k False by (subst seek_scan.simps) simp
    ultimately show ?thesis using i'(2,3) j by (simp add: block_at_def)
  qed
qed

lemma BI_Seek_at:
  assumes "iter_on i ps rs" and "sorted_wrt (\<lambda>p q. Compare (piece_key p) (piece_key q) < 0) ps"
  shows "block_at (BI_Seek Compare target i) ps rs (length (takeWhile (\<lambda>q. Compare (piece_key q) target < 0) ps))"
proof -
  have lay: "layout (bi_data i) ps rs" and R: "bi_num_restarts i = length rs" using assms(1) by (auto simp: iter_on_def)
  have "length rs - 1 < length rs" using layout_first [OF lay] by simp
  from seek_restart_at [OF assms(1) _ this, of 0 target] obtain r where
    r: "seek_restart Compare target i 0 (length rs - 1) = Some r" "r < length rs"
      "r = 0 \<or> Compare (piece_key (ps ! (rs ! r))) target < 0" by auto
  have "Compare (piece_key q) target < 0" if "q \<in> set (take (rs ! r) ps)" for q
  proof -
    have "0 < rs ! r" using that by (cases "rs ! r") auto
    then have rr: "r \<noteq> 0" "rs ! r < length ps"
      using layout_first [OF lay] restart_le(2) [OF lay r(2)] by (metis less_irrefl, auto)
    from that rr(2) obtain j where j: "j < rs ! r" "q = ps ! j" by (auto simp: in_set_conv_nth)
    then have "Compare (piece_key q) (piece_key (ps ! (rs ! r))) < 0"
      using assms(2) rr(2) by (simp add: sorted_wrt_iff_nth_less)
    then show ?thesis using r(3) rr(1) Compare_less_trans by blast
  qed
  then have "\<forall>q \<in> set (take (rs ! r) ps). Compare (piece_key q) target < 0" by blast
  from seek_scan_at [OF _ _ _ this] SeekToRestartPoint_ready [OF assms(1) r(2)] restart_le(1) [OF lay r(2)]
  show ?thesis using r(1) R by (simp add: BI_Seek_def)
qed

end

section \<open>What the builder builds\<close>

lemma shared_length_take:
  "shared_length a b \<le> length a \<and> shared_length a b \<le> length b \<and>
   take (shared_length a b) a = take (shared_length a b) b"
  by (induction a b rule: shared_length.induct) auto

definition builder_rep :: "nat \<Rightarrow> BlockBuilder \<Rightarrow> (nat \<times> bytes \<times> bytes) list \<Rightarrow> nat list \<Rightarrow> bool" where
  "builder_rep interval b ps rs \<longleftrightarrow>
     bb_buffer b = concat (map piece_bytes ps) \<and> bb_restarts b = map (\<lambda>r. of_nat (off ps r)) rs \<and>
     bb_last_key b = (if ps = [] then [] else piece_key (last ps)) \<and>
     pieces_ok ps \<and> restarts_ok ps rs \<and> \<not> bb_finished b \<and> bb_counter b \<le> interval \<and>
     (ps = [] \<longrightarrow> rs = [0] \<and> bb_counter b = 0)"

lemma mk_BlockBuilder_rep: "builder_rep interval mk_BlockBuilder [] [0]" "builder_rep interval (BB_Reset b) [] [0]"
  by (simp_all add: builder_rep_def mk_BlockBuilder_def BB_Reset_def pieces_ok_def restarts_ok_def)

lemma off_append: "r \<le> length ps \<Longrightarrow> off (ps @ qs) r = off ps r"
  by (simp add: off_def)

lemma pieces_ok_snoc:
  "pieces_ok (ps @ [p]) \<longleftrightarrow> pieces_ok ps \<and> fst p \<le> length (piece_key p) \<and>
     (if ps = [] then fst p = 0
      else fst p \<le> length (piece_key (last ps)) \<and> take (fst p) (piece_key (last ps)) = take (fst p) (piece_key p))"
proof -
  define P where "P xs i \<longleftrightarrow> fst (xs ! i) \<le> length (piece_key (xs ! i)) \<and>
     (if i = 0 then fst (xs ! i) = 0
      else fst (xs ! i) \<le> length (piece_key (xs ! (i - 1))) \<and>
        take (fst (xs ! i)) (piece_key (xs ! (i - 1))) = take (fst (xs ! i)) (piece_key (xs ! i)))"
    for xs :: "(nat \<times> bytes \<times> bytes) list" and i
  have P: "pieces_ok xs \<longleftrightarrow> (\<forall>i < length xs. P xs i)" for xs by (simp add: pieces_ok_def P_def)
  have "P (ps @ [p]) i \<longleftrightarrow> P ps i" if "i < length ps" for i
  proof -
    have "(ps @ [p]) ! i = ps ! i" using that by (simp add: nth_append)
    moreover have "i - 1 < length ps" using that by simp
    then have "(ps @ [p]) ! (i - 1) = ps ! (i - 1)" by (rule nth_append_left)
    ultimately show ?thesis by (simp only: P_def)
  qed
  moreover have "P (ps @ [p]) (length ps) \<longleftrightarrow> fst p \<le> length (piece_key p) \<and>
     (if ps = [] then fst p = 0
      else fst p \<le> length (piece_key (last ps)) \<and> take (fst p) (piece_key (last ps)) = take (fst p) (piece_key p))"
    by (simp add: P_def nth_append last_conv_nth)
  ultimately show ?thesis by (auto simp: P less_Suc_eq)
qed

lemma BB_Add_rep:
  assumes "builder_rep interval b ps rs" and "1 \<le> interval"
  shows "\<exists>s rs'. builder_rep interval (BB_Add interval key value b) (ps @ [(s, key, value)]) rs' \<and> BB_Add_pre interval b"
proof (cases "bb_counter b < interval")
  case True
  let ?s = "shared_length (bb_last_key b) key" and ?last = "bb_last_key b"
  note st = shared_length_take [of ?last key]
  have key: "take ?s ?last @ drop ?s key = key" using st by (metis append_take_drop_id)
  have "restarts_ok (ps @ [(?s, key, value)]) rs"
    using assms(1) by (auto simp: builder_rep_def restarts_ok_def nth_append)
  moreover have "pieces_ok (ps @ [(?s, key, value)])"
    using assms(1) st by (auto simp: builder_rep_def pieces_ok_snoc)
  moreover have "map (\<lambda>r. of_nat (off (ps @ [(?s, key, value)]) r) :: u32) rs = map (\<lambda>r. of_nat (off ps r)) rs"
    using assms(1) by (auto simp: builder_rep_def restarts_ok_def intro!: arg_cong [of _ _ of_nat] off_append)
  ultimately have "builder_rep interval (BB_Add interval key value b) (ps @ [(?s, key, value)]) rs"
    using assms(1) True key by (simp add: builder_rep_def BB_Add_def Let_def PutVarint32_def)
  moreover have "BB_Add_pre interval b" using assms(1) by (simp add: BB_Add_pre_def builder_rep_def)
  ultimately show ?thesis by blast
next
  case False
  then have c: "bb_counter b = interval" "ps \<noteq> []" using assms by (auto simp: builder_rep_def)
  have "restarts_ok (ps @ [(0, key, value)]) (rs @ [length ps])"
    using assms(1) c(2) by (auto simp: builder_rep_def restarts_ok_def nth_append sorted_wrt_append)
  moreover have "pieces_ok (ps @ [(0, key, value)])"
    using assms(1) by (auto simp: builder_rep_def pieces_ok_snoc)
  moreover have "map (\<lambda>r. of_nat (off (ps @ [(0, key, value)]) r) :: u32) rs = map (\<lambda>r. of_nat (off ps r)) rs"
    using assms(1) by (auto simp: builder_rep_def restarts_ok_def intro!: arg_cong [of _ _ of_nat] off_append)
  ultimately have "builder_rep interval (BB_Add interval key value b) (ps @ [(0, key, value)]) (rs @ [length ps])"
    using assms False by (simp add: builder_rep_def BB_Add_def Let_def PutVarint32_def off_append)
  moreover have "BB_Add_pre interval b" using assms(1) by (simp add: BB_Add_pre_def builder_rep_def)
  ultimately show ?thesis by blast
qed


definition block_of :: "nat \<Rightarrow> (bytes \<times> bytes) list \<Rightarrow> bytes" where
  "block_of interval es = fst (BB_Finish (foldl (\<lambda>b e. BB_Add interval (fst e) (snd e) b) mk_BlockBuilder es))"

lemma BB_Adds_rep:
  assumes "1 \<le> interval" and "builder_rep interval b ps rs"
  shows "\<exists>ps' rs'. builder_rep interval (foldl (\<lambda>b e. BB_Add interval (fst e) (snd e) b) b es) (ps @ ps') rs' \<and>
    map snd ps' = es"
  using assms(2)
proof (induction es arbitrary: b ps rs)
  case (Cons e es)
  obtain s rs1 where r1: "builder_rep interval (BB_Add interval (fst e) (snd e) b) (ps @ [(s, fst e, snd e)]) rs1"
    using BB_Add_rep [OF Cons.prems assms(1)] by blast
  from Cons.IH [OF r1] obtain ps' rs' where
    "builder_rep interval (foldl (\<lambda>b e. BB_Add interval (fst e) (snd e) b) (BB_Add interval (fst e) (snd e) b) es)
      ((ps @ [(s, fst e, snd e)]) @ ps') rs'" "map snd ps' = es" by blast
  then show ?case by (intro exI [of _ "(s, fst e, snd e) # ps'"] exI [of _ rs']) simp
qed (auto intro: exI [of _ "[]"])

lemma BB_Finish_rep:
  assumes "builder_rep interval b ps rs"
  shows "fst (BB_Finish b) = block_bytes ps rs"
proof -
  have "fold (\<lambda>r buf. PutFixed32 buf r) xs buf = buf @ concat (map EncodeFixed32 xs)" for xs buf
    by (induction xs arbitrary: buf) (simp_all add: PutFixed32_def)
  then show ?thesis
    using assms by (simp add: BB_Finish_def builder_rep_def block_bytes_def PutFixed32_def comp_def Let_def)
qed

lemma block_of_layout:
  assumes "1 \<le> interval" and "length (block_of interval es) < 2 ^ 32"
  shows "\<exists>ps rs. layout (block_of interval es) ps rs \<and> map snd ps = es"
proof -
  obtain ps rs where r: "builder_rep interval (foldl (\<lambda>b e. BB_Add interval (fst e) (snd e) b) mk_BlockBuilder es) ps rs"
    "map snd ps = es"
    using BB_Adds_rep [OF assms(1) mk_BlockBuilder_rep(1), of es] by auto
  then have "block_of interval es = block_bytes ps rs" by (simp add: block_of_def BB_Finish_rep)
  then show ?thesis using r assms(2) unfolding layout_def builder_rep_def by metis
qed

lemma concat_EncodeFixed32_length: "length (concat (map (\<lambda>x. EncodeFixed32 (f x)) xs)) = 4 * length xs"
  by (induction xs) simp_all

lemma NewIterator_layout:
  assumes "layout data ps rs"
  shows "\<exists>i. Block_NewIterator (mk_Block data) = Iter i \<and> iter_on i ps rs"
proof -
  let ?L = "off ps (length ps)"
  have d: "data = block_bytes ps rs" and l32: "length data < 2 ^ 32" and rs: "rs \<noteq> []"
    using assms by (auto simp: layout_def restarts_ok_def)
  have len: "length data = ?L + 4 * length rs + 4"
    using d by (simp add: block_bytes_def concat_EncodeFixed32_length)
  have "drop (length data - 4) data = EncodeFixed32 (of_nat (length rs))"
    unfolding len by (simp add: d block_bytes_def concat_EncodeFixed32_length)
  moreover have "length rs < 2 ^ LENGTH(32)" "?L < 2 ^ LENGTH(32)" using len l32 by simp_all
  moreover have "DecodeFixed32 (EncodeFixed32 v) = v" for v
    by simp
  ultimately have n: "unat (NumRestarts data) = length rs" and L: "unat (of_nat ?L :: u32) = ?L"
    by (simp_all only: NumRestarts_def unat_of_nat_small)
  have "mk_Block data = \<lparr>bl_data = data, bl_size = length data, bl_restart_offset = of_nat ?L\<rparr>"
    using n len by (simp add: mk_Block_def Let_def)
  then have "Block_NewIterator (mk_Block data) = Iter (mk_BlockIter data (of_nat ?L) (length rs))"
    using n len rs by (simp add: Block_NewIterator_def)
  moreover have "iter_on (mk_BlockIter data (of_nat ?L) (length rs)) ps rs"
    using assms L by (simp add: iter_on_def mk_BlockIter_def)
  ultimately show ?thesis by blast
qed

text \<open>The entries from the position of an iterator on, forwards and backwards.\<close>

fun BI_walk :: "nat \<Rightarrow> BlockIter \<Rightarrow> (bytes \<times> bytes) list" where
  "BI_walk 0 i = []"
| "BI_walk (Suc n) i = (if BI_Valid i then (bi_key i, BI_value i) # BI_walk n (BI_Next i) else [])"

fun BI_walk_back :: "nat \<Rightarrow> BlockIter \<Rightarrow> (bytes \<times> bytes) list" where
  "BI_walk_back 0 i = []"
| "BI_walk_back (Suc n) i = (if BI_Valid i then (bi_key i, BI_value i) # BI_walk_back n (BI_Prev i) else [])"

lemma block_at_entry:
  assumes "block_at i ps rs j" and "j < length ps"
  shows "BI_Valid i" and "(bi_key i, BI_value i) = snd (ps ! j)"
  using assms at_entry_valid [of i ps rs j] by (auto simp: block_at_def at_entry_def)

lemma BI_walk_at:
  assumes "block_at i ps rs j" and "length ps - j < fuel"
  shows "BI_walk fuel i = drop j (map snd ps)"
  using assms
proof (induction fuel arbitrary: i j)
  case (Suc fuel)
  show ?case
  proof (cases "j < length ps")
    case True
    have "BI_walk fuel (BI_Next i) = drop (Suc j) (map snd ps)"
      using Suc.IH [OF BI_Next_at [OF Suc.prems(1) True]] Suc.prems(2) True by simp
    then show ?thesis using block_at_entry [OF Suc.prems(1) True] True
      by (simp add: Cons_nth_drop_Suc [symmetric])
  next
    case False
    then show ?thesis using Suc.prems(1) by (simp add: block_at_def)
  qed
qed simp

lemma BI_walk_back_at:
  assumes "block_at i ps rs j" and "j < length ps" and "j < fuel" and "length ps < fuel"
  shows "BI_walk_back fuel i = rev (take (Suc j) (map snd ps))"
  using assms(1-3)
proof (induction j arbitrary: i fuel)
  case 0
  then obtain n where n: "fuel = Suc n" by (cases fuel) auto
  have "\<not> BI_Valid (BI_Prev i)" using BI_Prev_at [OF 0(1,2)] by (simp add: block_at_def)
  then have "BI_walk_back n (BI_Prev i) = []" by (cases n) simp_all
  then show ?case using block_at_entry [OF 0(1,2)] n 0(2) by (cases ps) simp_all
next
  case (Suc j)
  then obtain n where n: "fuel = Suc n" by (cases fuel) auto
  have "BI_walk_back n (BI_Prev i) = rev (take (Suc j) (map snd ps))"
    using Suc.IH [of "BI_Prev i" n] BI_Prev_at [OF Suc.prems(1,2)] Suc.prems(2,3) n by simp
  then show ?case using block_at_entry [OF Suc.prems(1,2)] n Suc.prems(2)
    by (simp add: take_Suc_conv_app_nth [of "Suc j"])
qed

declare BI_walk.simps [simp del] BI_walk_back.simps [simp del]

section \<open>Properties\<close>

text \<open>C9: reading a block gives back what was added to it.  For every restart interval, the
  iterator on the finished block visits the added entries in order from \<open>SeekToFirst\<close>, and in
  reverse order from \<open>SeekToLast\<close> with \<open>Prev\<close>.\<close>

theorem block_roundtrip:
  assumes "1 \<le> interval" and "length (block_of interval es) < 2 ^ 32"
  shows "\<exists>i. Block_NewIterator (mk_Block (block_of interval es)) = Iter i \<and>
    BI_walk (length es + 1) (BI_SeekToFirst i) = es \<and>
    BI_walk_back (length es + 1) (BI_SeekToLast i) = rev es"
proof -
  obtain ps rs where l: "layout (block_of interval es) ps rs" "map snd ps = es"
    using block_of_layout [OF assms] by blast
  then have n: "length ps = length es" by auto
  obtain i where i: "Block_NewIterator (mk_Block (block_of interval es)) = Iter i" "iter_on i ps rs"
    using NewIterator_layout [OF l(1)] by blast
  have "BI_walk (length es + 1) (BI_SeekToFirst i) = es"
    using BI_walk_at [OF BI_SeekToFirst_at [OF i(2)], of "length es + 1"] l(2) n by simp
  moreover have "BI_walk_back (length es + 1) (BI_SeekToLast i) = rev es"
  proof (cases "ps = []")
    case True
    then show ?thesis using BI_SeekToLast_at [OF i(2)] l(2) by (auto simp: block_at_def BI_walk_back.simps)
  next
    case False
    then show ?thesis
      using BI_walk_back_at [of "BI_SeekToLast i" ps rs "length ps - 1" "length es + 1"] BI_SeekToLast_at [OF i(2)]
        n False by (cases ps) (simp_all flip: l(2))
  qed
  ultimately show ?thesis using i(1) by blast
qed

definition sample_entries :: "(bytes \<times> bytes) list" where
  "sample_entries = [(InternalKey [1] 5 kTypeValue, [9]), (InternalKey [1, 2] 4 kTypeValue, []), (InternalKey [3] 7 kTypeValue, [8])]"

lemma sample_entries_size: "length (block_of 2 sample_entries) < 2 ^ 32"
  by (simp add: sample_entries_def block_of_def BB_Finish_def BB_Add_def mk_BlockBuilder_def PutVarint32_def PutFixed32_def
      InternalKey_PutFixed64 PutFixed64_def EncodeFixed64_def PackSequenceAndType_def constants Let_def EncodeVarint32_def)

theorem block_roundtrip_witness:
  "\<exists>i. Block_NewIterator (mk_Block (block_of 2 sample_entries)) = Iter i \<and>
    BI_walk (length sample_entries + 1) (BI_SeekToFirst i) = sample_entries \<and>
    BI_walk_back (length sample_entries + 1) (BI_SeekToLast i) = rev sample_entries"
  by (rule block_roundtrip [OF _ sample_entries_size]) simp

text \<open>C8: \<open>Seek\<close> in a block of internal keys.  The binary search over the restart points followed
  by the scan stops at the first entry whose key is not below the target: the entries visited
  from there are exactly those at or after the target.\<close>

theorem block_seek:
  assumes "1 \<le> interval" and "length (block_of interval es) < 2 ^ 32"
    and "sorted_wrt (\<lambda>a b. InternalKey_Compare Slice_compare (fst a) (fst b) < 0) es"
  shows "\<exists>i. Block_NewIterator (mk_Block (block_of interval es)) = Iter i \<and>
    BI_walk (length es + 1) (BI_Seek (InternalKey_Compare Slice_compare) target i) =
      dropWhile (\<lambda>e. InternalKey_Compare Slice_compare (fst e) target < 0) es"
proof -
  let ?c = "InternalKey_Compare Slice_compare"
  obtain ps rs where l: "layout (block_of interval es) ps rs" "map snd ps = es"
    using block_of_layout [OF assms(1,2)] by blast
  then have n: "length ps = length es" by auto
  obtain i where i: "Block_NewIterator (mk_Block (block_of interval es)) = Iter i" "iter_on i ps rs"
    using NewIterator_layout [OF l(1)] by blast
  have s: "sorted_wrt (\<lambda>p q. ?c (piece_key p) (piece_key q) < 0) ps"
    using assms(3) unfolding l(2) [symmetric] by (simp add: sorted_wrt_map)
  let ?tw = "takeWhile (\<lambda>q. ?c (piece_key q) target < 0) ps"
  have "BI_walk (length es + 1) (BI_Seek ?c target i) = drop (length ?tw) (map snd ps)"
    using BI_walk_at [OF ikey.internal.BI_Seek_at [OF i(2) s, of target], of "length es + 1"] n by simp
  also have "\<dots> = map snd (dropWhile (\<lambda>q. ?c (piece_key q) target < 0) ps)"
    by (simp add: drop_map dropWhile_eq_drop)
  also have "\<dots> = dropWhile (\<lambda>e. ?c (fst e) target < 0) es"
    unfolding l(2) [symmetric] by (simp add: dropWhile_map comp_def)
  finally show ?thesis using i(1) by blast
qed


theorem block_seek_witness:
  "\<exists>i. Block_NewIterator (mk_Block (block_of 2 sample_entries)) = Iter i \<and>
    BI_walk (length sample_entries + 1) (BI_Seek (InternalKey_Compare Slice_compare) (InternalKey [2] 9 kTypeValue) i) =
      dropWhile (\<lambda>e. InternalKey_Compare Slice_compare (fst e) (InternalKey [2] 9 kTypeValue) < 0) sample_entries"
proof (rule block_seek [OF _ sample_entries_size])
  show "sorted_wrt (\<lambda>a b. InternalKey_Compare Slice_compare (fst a) (fst b) < 0) sample_entries"
    unfolding sample_entries_def by (simp add: InternalKey_Compare_eq constants word_le_nat_alt)
qed simp


end
