(* ===== verification/FilterBlock.thy ===== *)
theory FilterBlock
  imports Bloom DbFormat
begin

text \<open>
  Filters of table files, \<^verbatim>\<open>table/filter_block.cc\<close>: the file-level filter that PebblesDB keeps
  in memory and the filter block with one filter per 2 KiB of data.  The filter policy is an
  argument, the locale \<open>filter_policy\<close> is its contract, and the contract is discharged for the
  Bloom filter and for its wrapper over internal keys.
\<close>

unbundle bit_operations_syntax

section \<open>The contract of a filter policy\<close>

text \<open>A filter is appended and never rejects a key that it was built for.\<close>

locale filter_policy =
  fixes create :: "bytes list \<Rightarrow> bytes \<Rightarrow> bytes" and may_match :: "bytes \<Rightarrow> bytes \<Rightarrow> bool"
  assumes create_match: "\<exists>f. create keys dst = dst @ f \<and> (\<forall>key \<in> set keys. may_match key f)"

section \<open>File-level filters\<close>

record FileLevelFilterBuilder =
  flf_keys :: bytes
  flf_key_offsets :: "nat list"

definition FLF_Clear :: FileLevelFilterBuilder where
  "FLF_Clear = \<lparr>flf_keys = [], flf_key_offsets = []\<rparr>"

text \<open>\<open>policy\<close> is \<open>None\<close> for a null policy.\<close>

definition FLF_AddKey :: "'p option \<Rightarrow> bytes \<Rightarrow> FileLevelFilterBuilder \<Rightarrow> FileLevelFilterBuilder" where
  "FLF_AddKey policy key b =
    (if policy = None then b
     else b\<lparr>flf_key_offsets := flf_key_offsets b @ [length (flf_keys b)], flf_keys := flf_keys b @ key\<rparr>)"

text \<open>The keys of the flattened structure: \<open>start\<close> ends with the length of the whole.\<close>

definition unflatten :: "bytes \<Rightarrow> nat list \<Rightarrow> bytes list" where
  "unflatten keys start =
    map (\<lambda>i. take (start ! (i + 1) - start ! i) (drop (start ! i) keys)) [0..<length start - 1]"

definition FLF_GenerateFilter ::
    "(bytes list \<Rightarrow> bytes \<Rightarrow> bytes) option \<Rightarrow> FileLevelFilterBuilder \<Rightarrow> bytes option \<times> FileLevelFilterBuilder" where
  "FLF_GenerateFilter policy b =
    (let num_keys = length (flf_key_offsets b)
     in case policy of
          None \<Rightarrow> (None, FLF_Clear)
        | Some create \<Rightarrow>
            if num_keys = 0 then (None, FLF_Clear)
            else let tmp_keys = unflatten (flf_keys b) (flf_key_offsets b @ [length (flf_keys b)])
                 in (Some (create tmp_keys []), FLF_Clear))"

section \<open>Filter blocks\<close>

definition kFilterBaseLg :: nat where [constants]: "kFilterBaseLg = 11"
definition kFilterBase :: nat where [constants]: "kFilterBase = 2 ^ kFilterBaseLg"

record FilterBlockBuilder =
  fb_keys :: bytes
  fb_start :: "nat list"
  fb_result :: bytes
  fb_filter_offsets :: "u32 list"

definition mk_FilterBlockBuilder :: FilterBlockBuilder where
  "mk_FilterBlockBuilder = \<lparr>fb_keys = [], fb_start = [], fb_result = [], fb_filter_offsets = []\<rparr>"

definition FB_GenerateFilter :: "(bytes list \<Rightarrow> bytes \<Rightarrow> bytes) \<Rightarrow> FilterBlockBuilder \<Rightarrow> FilterBlockBuilder" where
  "FB_GenerateFilter create b =
    (let num_keys = length (fb_start b);
         offsets = fb_filter_offsets b @ [of_nat (length (fb_result b))]
     in if num_keys = 0 then b\<lparr>fb_filter_offsets := offsets\<rparr>
        else let tmp_keys = unflatten (fb_keys b) (fb_start b @ [length (fb_keys b)])
             in b\<lparr>fb_filter_offsets := offsets, fb_result := create tmp_keys (fb_result b),
                  fb_keys := [], fb_start := []\<rparr>)"

lemma FB_GenerateFilter_offsets [simp]:
  "length (fb_filter_offsets (FB_GenerateFilter create b)) = Suc (length (fb_filter_offsets b))"
  by (simp add: FB_GenerateFilter_def Let_def)

function FB_StartBlock_loop :: "(bytes list \<Rightarrow> bytes \<Rightarrow> bytes) \<Rightarrow> nat \<Rightarrow> FilterBlockBuilder \<Rightarrow> FilterBlockBuilder" where
  "FB_StartBlock_loop create filter_index b =
    (if filter_index > length (fb_filter_offsets b)
     then FB_StartBlock_loop create filter_index (FB_GenerateFilter create b) else b)"
  by pat_completeness auto
termination
  by (relation "measure (\<lambda>(_, filter_index, b). filter_index - length (fb_filter_offsets b))") auto

declare FB_StartBlock_loop.simps [simp del]

definition FB_StartBlock_pre :: "u64 \<Rightarrow> FilterBlockBuilder \<Rightarrow> bool" where
  "FB_StartBlock_pre block_offset b \<longleftrightarrow> unat block_offset div kFilterBase \<ge> length (fb_filter_offsets b)"

definition FB_StartBlock :: "(bytes list \<Rightarrow> bytes \<Rightarrow> bytes) \<Rightarrow> u64 \<Rightarrow> FilterBlockBuilder \<Rightarrow> FilterBlockBuilder" where
  "FB_StartBlock create block_offset b =
    (let filter_index = unat block_offset div kFilterBase in FB_StartBlock_loop create filter_index b)"

definition FB_AddKey :: "bytes \<Rightarrow> FilterBlockBuilder \<Rightarrow> FilterBlockBuilder" where
  "FB_AddKey key b = b\<lparr>fb_start := fb_start b @ [length (fb_keys b)], fb_keys := fb_keys b @ key\<rparr>"

definition FB_Finish :: "(bytes list \<Rightarrow> bytes \<Rightarrow> bytes) \<Rightarrow> FilterBlockBuilder \<Rightarrow> bytes" where
  "FB_Finish create b =
    (let b = (if fb_start b \<noteq> [] then FB_GenerateFilter create b else b);
         array_offset = of_nat (length (fb_result b));
         result = fold (\<lambda>ofs r. PutFixed32 r ofs) (fb_filter_offsets b) (fb_result b);
         result = PutFixed32 result array_offset
     in result @ [of_nat kFilterBaseLg])"

text \<open>\<open>offset_\<close> is relative to \<open>data_\<close>; on an error \<open>num_\<close> stays 0.\<close>

record FilterBlockReader =
  fr_data :: bytes
  fr_offset :: nat
  fr_num :: nat
  fr_base_lg :: nat

definition mk_FilterBlockReader :: "bytes \<Rightarrow> FilterBlockReader" where
  "mk_FilterBlockReader contents =
    (let n = length contents
     in if n < 5 then \<lparr>fr_data = [], fr_offset = 0, fr_num = 0, fr_base_lg = 0\<rparr>
        else let base_lg = unat (scast (contents ! (n - 1)) :: u64);
                 last_word = unat (DecodeFixed32 (drop (n - 5) contents))
             in if last_word > n - 5 then \<lparr>fr_data = [], fr_offset = 0, fr_num = 0, fr_base_lg = base_lg\<rparr>
                else \<lparr>fr_data = contents, fr_offset = last_word, fr_num = (n - 5 - last_word) div 4,
                      fr_base_lg = base_lg\<rparr>)"

definition FR_KeyMayMatch :: "(bytes \<Rightarrow> bytes \<Rightarrow> bool) \<Rightarrow> FilterBlockReader \<Rightarrow> u64 \<Rightarrow> bytes \<Rightarrow> bool" where
  "FR_KeyMayMatch may_match r block_offset key =
    (let index = unat (drop_bit (fr_base_lg r) block_offset)
     in if index < fr_num r
        then let start = unat (DecodeFixed32 (drop (fr_offset r + index * 4) (fr_data r)));
                 limit = unat (DecodeFixed32 (drop (fr_offset r + index * 4 + 4) (fr_data r)))
             in if start \<le> limit \<and> limit \<le> fr_offset r
                then may_match key (take (limit - start) (drop start (fr_data r)))
                else if start = limit then False
                else True
        else True)"

section \<open>Flattened keys\<close>

definition starts :: "bytes list \<Rightarrow> nat list" where
  "starts ks = map (\<lambda>i. length (concat (take i ks))) [0..<length ks]"

lemma starts_snoc: "starts (ks @ [k]) = starts ks @ [length (concat ks)]"
  by (simp add: starts_def)

lemma unflatten_starts: "unflatten (concat ks) (starts ks @ [length (concat ks)]) = ks"
proof (rule nth_equalityI)
  show len: "length (unflatten (concat ks) (starts ks @ [length (concat ks)])) = length ks"
    by (simp add: unflatten_def starts_def)
  fix i assume "i < length (unflatten (concat ks) (starts ks @ [length (concat ks)]))"
  then have i: "i < length ks" unfolding len .
  let ?s = "starts ks @ [length (concat ks)]"
  have s: "?s ! j = length (concat (take j ks))" if "j \<le> length ks" for j
    using that by (cases "j = length ks") (auto simp: starts_def nth_append)
  have "concat ks = concat (take i ks) @ ks ! i @ concat (drop (Suc i) ks)"
    using id_take_nth_drop [OF i] by (metis concat.simps(2) concat_append)
  moreover have "concat (take (Suc i) ks) = concat (take i ks) @ ks ! i"
    using i by (simp add: take_Suc_conv_app_nth)
  ultimately show "unflatten (concat ks) ?s ! i = ks ! i"
    using i s [of i] s [of "Suc i"] by (simp add: unflatten_def starts_def)
qed

text \<open>A run of the builder: blocks with their offsets and keys.\<close>

definition FB_run :: "(bytes list \<Rightarrow> bytes \<Rightarrow> bytes) \<Rightarrow> (u64 \<times> bytes list) list \<Rightarrow> FilterBlockBuilder" where
  "FB_run create blocks = foldl (\<lambda>b (ofs, keys). foldl (\<lambda>b k. FB_AddKey k b) (FB_StartBlock create ofs b) keys)
     mk_FilterBlockBuilder blocks"

definition filed :: "bytes list list \<Rightarrow> bytes list \<Rightarrow> u64 \<times> bytes list \<Rightarrow> bool" where
  "filed gs ks p \<longleftrightarrow> (let n = unat (fst p) div kFilterBase in
     (n < length gs \<and> set (snd p) \<subseteq> set (gs ! n)) \<or> (n = length gs \<and> set (snd p) \<subseteq> set ks))"

context filter_policy
begin

lemma file_filter:
  assumes "ks \<noteq> []"
  shows "\<exists>f. fst (FLF_GenerateFilter (Some create) (foldl (\<lambda>b k. FLF_AddKey (Some create) k b) FLF_Clear ks)) = Some f \<and>
    (\<forall>k \<in> set ks. may_match k f)"
proof -
  have "foldl (\<lambda>b k. FLF_AddKey (Some create) k b) FLF_Clear ks = \<lparr>flf_keys = concat ks, flf_key_offsets = starts ks\<rparr>"
    by (induction ks rule: rev_induct) (simp_all add: FLF_Clear_def FLF_AddKey_def starts_snoc, simp add: starts_def)
  moreover have "length (starts ks) \<noteq> 0" using assms by (simp add: starts_def)
  moreover obtain f where "create ks [] = f" "\<forall>k \<in> set ks. may_match k f" using create_match [of ks "[]"] by auto
  ultimately show ?thesis using unflatten_starts [of ks] by (simp add: FLF_GenerateFilter_def Let_def)
qed

text \<open>The builder holds \<open>gs\<close>, the keys of the filters made so far with the filters \<open>fs\<close>, and the
  keys \<open>ks\<close> of the filter in the making.\<close>

definition fb_rep :: "FilterBlockBuilder \<Rightarrow> bytes list list \<Rightarrow> bytes list \<Rightarrow> bytes list \<Rightarrow> bool" where
  "fb_rep b gs fs ks \<longleftrightarrow> fb_keys b = concat ks \<and> fb_start b = starts ks \<and> length fs = length gs \<and>
     fb_result b = concat fs \<and> fb_filter_offsets b = map of_nat (starts fs) \<and>
     (\<forall>i < length gs. \<forall>k \<in> set (gs ! i). may_match k (fs ! i))"

lemma mk_fb_rep: "fb_rep mk_FilterBlockBuilder [] [] []"
  by (simp add: fb_rep_def mk_FilterBlockBuilder_def starts_def)

lemma FB_GenerateFilter_rep:
  assumes "fb_rep b gs fs ks"
  shows "\<exists>f. fb_rep (FB_GenerateFilter create b) (gs @ [ks]) (fs @ [f]) []"
proof (cases "ks = []")
  case True
  then have "fb_rep (FB_GenerateFilter create b) (gs @ [ks]) (fs @ [[]]) []"
    using assms by (auto simp: fb_rep_def FB_GenerateFilter_def starts_snoc nth_append, simp_all add: starts_def)
  then show ?thesis by blast
next
  case False
  obtain f where f: "create ks (fb_result b) = fb_result b @ f" "\<forall>k \<in> set ks. may_match k f"
    using create_match by blast
  have u: "unflatten (fb_keys b) (fb_start b @ [length (fb_keys b)]) = ks"
    using assms unflatten_starts by (simp add: fb_rep_def)
  have n: "length (fb_start b) \<noteq> 0" using assms False by (simp add: fb_rep_def starts_def)
  have G: "FB_GenerateFilter create b =
      b\<lparr>fb_filter_offsets := fb_filter_offsets b @ [of_nat (length (fb_result b))], fb_result := fb_result b @ f,
        fb_keys := [], fb_start := []\<rparr>"
    unfolding FB_GenerateFilter_def Let_def u f(1) using n by simp
  have "fb_rep (FB_GenerateFilter create b) (gs @ [ks]) (fs @ [f]) []"
    using assms f(2) unfolding G by (auto simp: fb_rep_def starts_snoc nth_append less_Suc_eq, simp_all add: starts_def)
  then show ?thesis by blast
qed

lemma FB_AddKey_rep: "fb_rep b gs fs ks \<Longrightarrow> fb_rep (FB_AddKey k b) gs fs (ks @ [k])"
  by (simp add: fb_rep_def FB_AddKey_def starts_snoc)

lemma FB_AddKeys_rep: "fb_rep b gs fs ks \<Longrightarrow> fb_rep (foldl (\<lambda>b k. FB_AddKey k b) b new) gs fs (ks @ new)"
proof (induction new arbitrary: b ks)
  case (Cons k new)
  from Cons.IH [OF FB_AddKey_rep [OF Cons.prems]] show ?case by simp
qed simp

lemma fb_rep_offsets: "fb_rep b gs fs ks \<Longrightarrow> length (fb_filter_offsets b) = length gs"
  by (simp add: fb_rep_def starts_def)

text \<open>Starting a block completes the filters before its own.\<close>

lemma FB_StartBlock_rep:
  assumes "fb_rep b gs fs ks" and "length gs < n"
  shows "\<exists>gs' fs'. fb_rep (FB_StartBlock_loop create n b) (gs @ [ks] @ gs') fs' [] \<and> length (gs @ [ks] @ gs') = n"
  using assms
proof (induction "n - length gs" arbitrary: b gs fs ks)
  case (Suc d)
  obtain f where r: "fb_rep (FB_GenerateFilter create b) (gs @ [ks]) (fs @ [f]) []"
    using FB_GenerateFilter_rep [OF Suc.prems(1)] by blast
  have step: "FB_StartBlock_loop create n b = FB_StartBlock_loop create n (FB_GenerateFilter create b)"
    using Suc.prems fb_rep_offsets [OF Suc.prems(1)] by (subst FB_StartBlock_loop.simps) simp
  show ?case
  proof (cases "Suc (length gs) < n")
    case True
    have "d = n - length (gs @ [ks])" using Suc.hyps(2) by simp
    from Suc.hyps(1) [OF this r] True obtain gs' fs' where
      "fb_rep (FB_StartBlock_loop create n (FB_GenerateFilter create b)) ((gs @ [ks]) @ [[]] @ gs') fs' []"
      "length ((gs @ [ks]) @ [[]] @ gs') = n" by auto
    then show ?thesis unfolding step by (intro exI [of _ "[] # gs'"] exI [of _ fs']) simp
  next
    case False
    then have n: "n = Suc (length gs)" using Suc.prems(2) by simp
    have "FB_StartBlock_loop create n (FB_GenerateFilter create b) = FB_GenerateFilter create b"
      using n fb_rep_offsets [OF Suc.prems(1)] by (subst FB_StartBlock_loop.simps) simp
    then show ?thesis unfolding step using r n by (intro exI [of _ "[]"] exI [of _ "fs @ [f]"]) simp
  qed
qed simp

lemma FB_run_rep:
  assumes "sorted (map (\<lambda>p. unat (fst p)) blocks)"
  shows "\<exists>gs fs ks. fb_rep (FB_run create blocks) gs fs ks \<and> (\<forall>p \<in> set blocks. filed gs ks p) \<and>
    (blocks \<noteq> [] \<longrightarrow> length gs = unat (fst (last blocks)) div kFilterBase) \<and> (blocks = [] \<longrightarrow> gs = [] \<and> ks = [])"
  using assms
proof (induction blocks rule: rev_induct)
  case Nil
  then show ?case using mk_fb_rep by (auto simp: FB_run_def)
next
  case (snoc p blocks)
  obtain ofs keys where p: "p = (ofs, keys)" by (cases p)
  define n where "n = unat ofs div kFilterBase"
  have le: "\<forall>q \<in> set blocks. unat (fst q) \<le> unat ofs" and "sorted (map (\<lambda>p. unat (fst p)) blocks)"
    using snoc.prems p by (auto simp: sorted_append)
  from snoc.IH [OF this(2)] obtain gs fs ks where
    r: "fb_rep (FB_run create blocks) gs fs ks" "\<forall>q \<in> set blocks. filed gs ks q"
      "blocks \<noteq> [] \<longrightarrow> length gs = unat (fst (last blocks)) div kFilterBase" "blocks = [] \<longrightarrow> gs = [] \<and> ks = []" by blast
  have gn: "length gs \<le> n"
    using r(3,4) le by (cases "blocks = []") (auto simp: n_def intro!: div_le_mono)
  have run: "FB_run create (blocks @ [p]) = foldl (\<lambda>b k. FB_AddKey k b) (FB_StartBlock_loop create n (FB_run create blocks)) keys"
    by (simp add: FB_run_def p FB_StartBlock_def n_def)
  show ?case
  proof (cases "length gs = n")
    case True
    then have "FB_StartBlock_loop create n (FB_run create blocks) = FB_run create blocks"
      using fb_rep_offsets [OF r(1)] by (subst FB_StartBlock_loop.simps) simp
    then have "fb_rep (FB_run create (blocks @ [p])) gs fs (ks @ keys)"
      unfolding run using FB_AddKeys_rep [OF r(1)] by simp
    moreover have "\<forall>q \<in> set (blocks @ [p]). filed gs (ks @ keys) q"
      using r(2) True by (auto simp: filed_def p n_def Let_def)
    ultimately show ?thesis using True p n_def by (intro exI [of _ gs] exI [of _ fs] exI [of _ "ks @ keys"]) simp
  next
    case False
    then obtain gs' fs' where s: "fb_rep (FB_StartBlock_loop create n (FB_run create blocks)) (gs @ [ks] @ gs') fs' []"
      "length (gs @ [ks] @ gs') = n"
      using FB_StartBlock_rep [OF r(1), of n] gn by auto
    have "fb_rep (FB_run create (blocks @ [p])) (gs @ [ks] @ gs') fs' keys"
      unfolding run using FB_AddKeys_rep [OF s(1), of keys] by simp
    moreover have "filed (gs @ [ks] @ gs') keys q" if "q \<in> set (blocks @ [p])" for q
    proof (cases "q = p")
      case True
      then show ?thesis using s(2) by (simp add: filed_def p n_def)
    next
      case False
      then have "filed gs ks q" using r(2) that by simp
      then show ?thesis by (auto simp: filed_def Let_def nth_append)
    qed
    ultimately show ?thesis using s(2) p n_def
      by (intro exI [of _ "gs @ [ks] @ gs'"] exI [of _ fs'] exI [of _ keys]) auto
  qed
qed

lemma internal_policy: "filter_policy (InternalFilter_CreateFilter create) (InternalFilter_KeyMayMatch may_match)"
proof
  fix keys dst
  show "\<exists>f. InternalFilter_CreateFilter create keys dst = dst @ f \<and> (\<forall>key \<in> set keys. InternalFilter_KeyMayMatch may_match key f)"
    using create_match [of "map ExtractUserKey keys" dst]
    by (auto simp: InternalFilter_CreateFilter_def InternalFilter_KeyMayMatch_def)
qed

lemma starts_nth: "j \<le> length fs \<Longrightarrow> (starts fs @ [length (concat fs)]) ! j = length (concat (take j fs))"
  by (cases "j = length fs") (auto simp: starts_def nth_append)

lemma FR_KeyMayMatch_filter:
  assumes "fb_rep b gs fs []" and "length (FB_Finish create b) < 2 ^ 32"
    and "unat ofs div kFilterBase < length gs" and "k \<in> set (gs ! (unat ofs div kFilterBase))"
  shows "FR_KeyMayMatch may_match (mk_FilterBlockReader (FB_Finish create b)) ofs k"
proof -
  let ?L = "length (concat fs)" and ?enc = "\<lambda>n. EncodeFixed32 (of_nat n) :: bytes" and ?n = "unat ofs div kFilterBase"
  let ?arr = "starts fs @ [?L]"
  define data where "data = concat fs @ concat (map ?enc ?arr) @ [11]"
  have m: "length fs = length gs" "length (starts fs) = length gs" using assms(1) by (auto simp: fb_rep_def starts_def)
  have "fold (\<lambda>ofs r. PutFixed32 r ofs) xs r = r @ concat (map EncodeFixed32 xs)" for xs r
    by (induction xs arbitrary: r) (simp_all add: PutFixed32_def)
  then have F: "FB_Finish create b = data"
    using assms(1) by (simp add: FB_Finish_def fb_rep_def starts_def data_def PutFixed32_def kFilterBaseLg_def comp_def Let_def)
  have clen: "length (concat (map ?enc xs)) = 4 * length xs" for xs by (induction xs) simp_all
  have len: "length data = ?L + 4 * length gs + 5" using m by (simp add: data_def clen)
  have word: "unat (DecodeFixed32 (drop (?L + j * 4) data)) = ?arr ! j" if "j \<le> length gs" for j
  proof -
    have "drop (?L + j * 4) data = drop (j * 4) (concat (map ?enc ?arr) @ [11])" by (simp add: data_def)
    also have "\<dots> = ?enc (?arr ! j) @ concat (map ?enc (drop (Suc j) ?arr)) @ [11]"
      using that m by (intro drop_fixed_concat) simp_all
    finally have "DecodeFixed32 (drop (?L + j * 4) data) = of_nat (?arr ! j)" by simp
    moreover have "?arr ! j \<le> ?L"
      using starts_nth [of j fs] that m by (metis append_take_drop_id concat_append le_add1 length_append)
    then have "?arr ! j < 2 ^ LENGTH(32)" using len assms(2) F by simp
    ultimately show ?thesis by (simp only: unat_of_nat_small)
  qed
  have lw: "unat (DecodeFixed32 (drop (length data - 5) data)) = ?L"
    using word [of "length gs"] m by (simp add: len nth_append mult.commute)
  have "data ! (length data - 1) = 11" by (simp add: data_def nth_append)
  then have R: "mk_FilterBlockReader data = \<lparr>fr_data = data, fr_offset = ?L, fr_num = length gs, fr_base_lg = 11\<rparr>"
    using lw by (simp add: mk_FilterBlockReader_def len Let_def)
  have ix: "unat (drop_bit 11 ofs) = ?n" by (simp add: word_reads constants)
  define s t where "s = length (concat (take ?n fs))" and "t = length (concat (take (Suc ?n) fs))"
  have st: "unat (DecodeFixed32 (drop (?L + ?n * 4) data)) = s" "unat (DecodeFixed32 (drop (?L + ?n * 4 + 4) data)) = t"
    using word [of ?n] word [of "Suc ?n"] assms(3) m starts_nth [of ?n fs] starts_nth [of "Suc ?n" fs]
    by (simp_all add: s_def t_def add_ac)
  have cs: "concat fs = concat (take ?n fs) @ fs ! ?n @ concat (drop (Suc ?n) fs)"
    using id_take_nth_drop [of ?n fs] assms(3) m by (metis concat.simps(2) concat_append)
  have ts: "t = s + length (fs ! ?n)" using assms(3) m by (simp add: s_def t_def take_Suc_conv_app_nth)
  have tL: "t \<le> ?L" using arg_cong [OF cs, of length] ts by (simp add: s_def)
  have "take (t - s) (drop s data) = fs ! ?n"
    unfolding data_def cs using ts by (simp add: s_def)
  then show ?thesis
    using R F ix st ts tL assms(1,3,4) by (simp add: FR_KeyMayMatch_def Let_def fb_rep_def)
qed

lemma FB_block_match:
  assumes "sorted (map (\<lambda>p. unat (fst p)) blocks)" and "length (FB_Finish create (FB_run create blocks)) < 2 ^ 32"
    and "(ofs, keys) \<in> set blocks" and "k \<in> set keys"
  shows "FR_KeyMayMatch may_match (mk_FilterBlockReader (FB_Finish create (FB_run create blocks))) ofs k"
proof -
  obtain gs fs ks where r: "fb_rep (FB_run create blocks) gs fs ks" "filed gs ks (ofs, keys)"
    using FB_run_rep [OF assms(1)] assms(3) by blast
  let ?b = "FB_run create blocks"
  show ?thesis
  proof (cases "ks = []")
    case True
    then show ?thesis using FR_KeyMayMatch_filter [of ?b gs fs] r assms(2,4) by (auto simp: filed_def Let_def)
  next
    case False
    obtain f where g: "fb_rep (FB_GenerateFilter create ?b) (gs @ [ks]) (fs @ [f]) []"
      using FB_GenerateFilter_rep [OF r(1)] by blast
    have "fb_start ?b \<noteq> []" using r(1) False by (simp add: fb_rep_def starts_def)
    moreover have "fb_start (FB_GenerateFilter create ?b) = []" using g by (simp add: fb_rep_def starts_def)
    ultimately have F: "FB_Finish create ?b = FB_Finish create (FB_GenerateFilter create ?b)" by (simp add: FB_Finish_def)
    have "unat ofs div kFilterBase < length (gs @ [ks])" "k \<in> set ((gs @ [ks]) ! (unat ofs div kFilterBase))"
      using r(2) assms(4) by (auto simp: filed_def Let_def nth_append)
    from FR_KeyMayMatch_filter [OF g _ this] show ?thesis using assms(2) F by simp
  qed
qed

end

section \<open>The policies of the code meet the contract\<close>

lemma Bloom_CreateFilter_length:
  "length (Bloom_CreateFilter p keys dst) =
     length dst + ((if length keys * bf_bits_per_key p < 64 then 64 else length keys * bf_bits_per_key p) + 7) div 8 + 1"
proof -
  have "length (bloom_set_keys k bits keys a) = length a" if "0 < bits" for k bits a
    using gains_bloom_set_keys [OF that, of a k keys] by (simp add: gains_def)
  then show ?thesis by (simp add: Bloom_CreateFilter_def Let_def)
qed

lemma Bloom_create_match:
  "\<exists>f. Bloom_CreateFilter (mk_BloomFilterPolicy n) keys dst = dst @ f \<and> (\<forall>key \<in> set keys. Bloom_KeyMayMatch key f)"
  by (rule Bloom_filter_matches)

interpretation bloom: filter_policy "Bloom_CreateFilter (mk_BloomFilterPolicy n)" Bloom_KeyMayMatch
  by unfold_locales (rule Bloom_create_match)

interpretation bloom_internal: filter_policy "InternalFilter_CreateFilter (Bloom_CreateFilter (mk_BloomFilterPolicy n))"
  "InternalFilter_KeyMayMatch Bloom_KeyMayMatch"
  by (rule bloom.internal_policy)

section \<open>Properties\<close>

text \<open>C12: filters of a table never hide a key.  With the Bloom policy over internal keys, the
  file-level filter built from a non-empty list of keys accepts each of them, and so does the
  filter block for every key that was added after the start of the block it is looked up in.\<close>

theorem table_filters_no_false_negatives:
  assumes "keys \<noteq> []" and "sorted (map (\<lambda>p. unat (fst p)) blocks)"
    and "length (FB_Finish (InternalFilter_CreateFilter (Bloom_CreateFilter (mk_BloomFilterPolicy n)))
           (FB_run (InternalFilter_CreateFilter (Bloom_CreateFilter (mk_BloomFilterPolicy n))) blocks)) < 2 ^ 32"
  shows "let create = InternalFilter_CreateFilter (Bloom_CreateFilter (mk_BloomFilterPolicy n));
      may_match = InternalFilter_KeyMayMatch Bloom_KeyMayMatch
    in (\<exists>f. fst (FLF_GenerateFilter (Some create) (foldl (\<lambda>b k. FLF_AddKey (Some create) k b) FLF_Clear keys)) = Some f \<and>
          (\<forall>k \<in> set keys. may_match k f)) \<and>
       (\<forall>(ofs, ks) \<in> set blocks. \<forall>k \<in> set ks.
          FR_KeyMayMatch may_match (mk_FilterBlockReader (FB_Finish create (FB_run create blocks))) ofs k)"
  using bloom_internal.file_filter [OF assms(1)] bloom_internal.FB_block_match [OF assms(2,3)]
  by (auto simp: Let_def)

theorem table_filters_no_false_negatives_witness:
  "\<exists>f. fst (FLF_GenerateFilter (Some (InternalFilter_CreateFilter (Bloom_CreateFilter (mk_BloomFilterPolicy 10))))
        (FLF_AddKey (Some (InternalFilter_CreateFilter (Bloom_CreateFilter (mk_BloomFilterPolicy 10))))
          (InternalKey [7] 1 kTypeValue) FLF_Clear)) = Some f \<and>
     InternalFilter_KeyMayMatch Bloom_KeyMayMatch (InternalKey [7] 1 kTypeValue) f \<and>
   FR_KeyMayMatch (InternalFilter_KeyMayMatch Bloom_KeyMayMatch)
     (mk_FilterBlockReader (FB_Finish (InternalFilter_CreateFilter (Bloom_CreateFilter (mk_BloomFilterPolicy 10)))
       (FB_run (InternalFilter_CreateFilter (Bloom_CreateFilter (mk_BloomFilterPolicy 10)))
         [(0, [InternalKey [7] 1 kTypeValue])]))) 0 (InternalKey [7] 1 kTypeValue)"
proof -
  let ?c = "InternalFilter_CreateFilter (Bloom_CreateFilter (mk_BloomFilterPolicy 10))"
  have "length (FB_Finish ?c (FB_run ?c [(0, [InternalKey [7] 1 kTypeValue])])) < 2 ^ 32"
    by (simp add: FB_run_def FB_StartBlock_def FB_StartBlock_loop.simps FB_AddKey_def mk_FilterBlockBuilder_def
        FB_Finish_def FB_GenerateFilter_def PutFixed32_def InternalFilter_CreateFilter_def unflatten_def
        Bloom_CreateFilter_length mk_BloomFilterPolicy_def constants Let_def)
  from table_filters_no_false_negatives [OF _ _ this, of "[InternalKey [7] 1 kTypeValue]"]
  show ?thesis by (simp add: Let_def)
qed

end
