(* ===== verification/Format.thy ===== *)
theory Format
  imports Coding Crc32c Status
begin

text \<open>
  The file format of tables, \<^verbatim>\<open>table/format.h\<close> and \<^verbatim>\<open>table/format.cc\<close>: handles of blocks, the
  footer, and the routine that reads a block and checks its trailer.  The file is an argument:
  a read gives a status, the bytes and whether they were put into the scratch buffer.  The two
  Snappy routines are arguments as well.
\<close>

unbundle bit_operations_syntax

section \<open>Handles\<close>

record BlockHandle =
  bh_offset :: u64
  bh_size :: u64

definition mk_BlockHandle :: BlockHandle where
  "mk_BlockHandle = \<lparr>bh_offset = NOT 0, bh_size = NOT 0\<rparr>"

definition BH_EncodeTo_pre :: "BlockHandle \<Rightarrow> bool" where
  "BH_EncodeTo_pre h \<longleftrightarrow> bh_offset h \<noteq> NOT 0 \<and> bh_size h \<noteq> NOT 0"

definition BH_EncodeTo :: "BlockHandle \<Rightarrow> bytes \<Rightarrow> bytes" where
  "BH_EncodeTo h dst = PutVarint64 (PutVarint64 dst (bh_offset h)) (bh_size h)"

definition BH_DecodeFrom :: "bytes \<Rightarrow> Status + BlockHandle \<times> bytes" where
  "BH_DecodeFrom input =
    (case GetVarint64 input of
       None \<Rightarrow> Inl (Corruption (str ''bad block handle'') [])
     | Some (offset, input) \<Rightarrow>
         (case GetVarint64 input of
            None \<Rightarrow> Inl (Corruption (str ''bad block handle'') [])
          | Some (sz, input) \<Rightarrow> Inr (\<lparr>bh_offset = offset, bh_size = sz\<rparr>, input)))"

definition BH_kMaxEncodedLength :: nat where [constants]: "BH_kMaxEncodedLength = 10 + 10"

section \<open>The footer\<close>

record Footer =
  ft_metaindex_handle :: BlockHandle
  ft_index_handle :: BlockHandle

definition Footer_kEncodedLength :: nat where
  [constants]: "Footer_kEncodedLength = 2 * BH_kMaxEncodedLength + 8"

definition kTableMagicNumber :: u64 where "kTableMagicNumber = 0xdb4775248b80fb57"

text \<open>\<open>std::string::resize\<close>.\<close>

definition resize :: "nat \<Rightarrow> bytes \<Rightarrow> bytes" where
  "resize n dst = take n dst @ replicate (n - length dst) 0"

definition Footer_EncodeTo :: "Footer \<Rightarrow> bytes \<Rightarrow> bytes" where
  "Footer_EncodeTo f dst =
    (let dst = BH_EncodeTo (ft_metaindex_handle f) dst;
         dst = BH_EncodeTo (ft_index_handle f) dst;
         dst = resize (2 * BH_kMaxEncodedLength) dst;
         dst = PutFixed32 dst (ucast (kTableMagicNumber AND 0xffffffff))
     in PutFixed32 dst (ucast (drop_bit 32 kTableMagicNumber)))"

definition Footer_DecodeFrom :: "bytes \<Rightarrow> Status + Footer \<times> bytes" where
  "Footer_DecodeFrom input =
    (let magic_ptr = drop (Footer_kEncodedLength - 8) input;
         magic_lo = DecodeFixed32 magic_ptr;
         magic_hi = DecodeFixed32 (drop 4 magic_ptr);
         magic = push_bit 32 (ucast magic_hi) OR ucast magic_lo
     in if magic \<noteq> kTableMagicNumber
        then Inl (InvalidArgument (str ''not an sstable (bad magic number)'') [])
        else
          case BH_DecodeFrom input of
            Inl s \<Rightarrow> Inl s
          | Inr (metaindex_handle, input') \<Rightarrow>
              (case BH_DecodeFrom input' of
                 Inl s \<Rightarrow> Inl s
               | Inr (index_handle, _) \<Rightarrow>
                   Inr (\<lparr>ft_metaindex_handle = metaindex_handle, ft_index_handle = index_handle\<rparr>, drop 8 magic_ptr)))"

section \<open>Reading a block\<close>

definition kBlockTrailerSize :: nat where [constants]: "kBlockTrailerSize = 5"
definition kNoCompression :: byte where [constants]: "kNoCompression = 0"
definition kSnappyCompression :: byte where [constants]: "kSnappyCompression = 1"

record BlockContents =
  bc_data :: bytes
  bc_cachable :: bool
  bc_heap_allocated :: bool

type_synonym RandomAccessFile = "u64 \<Rightarrow> nat \<Rightarrow> Status \<times> bytes \<times> bool"

record Snappy =
  sn_Compress :: "bytes \<Rightarrow> bytes option"
  sn_GetUncompressedLength :: "bytes \<Rightarrow> nat option"
  sn_Uncompress :: "bytes \<Rightarrow> bytes option"

text \<open>The sum \<open>n + kBlockTrailerSize\<close> is taken in \<open>size_t\<close>: a handle whose size is within five bytes of
  \<open>2 ^ 64\<close> wraps, and the buffer is then smaller than what is read from it.  The model is of the
  handles that do not wrap.\<close>

definition ReadBlock_pre :: "BlockHandle \<Rightarrow> bool" where
  "ReadBlock_pre handle \<longleftrightarrow> unat (bh_size handle) + kBlockTrailerSize < 2 ^ 64"

definition ReadBlock :: "Snappy \<Rightarrow> RandomAccessFile \<Rightarrow> bool \<Rightarrow> BlockHandle \<Rightarrow> Status + BlockContents" where
  "ReadBlock snappy fl verify_checksums handle =
    (let n = unat (bh_size handle);
         (s, data, in_scratch) = fl (bh_offset handle) (n + kBlockTrailerSize)
     in if \<not> ok s then Inl s
        else if length data \<noteq> n + kBlockTrailerSize then Inl (Corruption (str ''truncated block read'') [])
        else if verify_checksums \<and> crc_Value 0 (take (n + 1) data) \<noteq> Unmask (DecodeFixed32 (drop (n + 1) data))
        then Inl (Corruption (str ''block checksum mismatch'') [])
        else if data ! n = kNoCompression
        then if \<not> in_scratch
             then Inr \<lparr>bc_data = take n data, bc_cachable = False, bc_heap_allocated = False\<rparr>
             else Inr \<lparr>bc_data = take n data, bc_cachable = True, bc_heap_allocated = True\<rparr>
        else if data ! n = kSnappyCompression
        then (case sn_GetUncompressedLength snappy (take n data) of
                None \<Rightarrow> Inl (Corruption (str ''corrupted compressed block contents'') [])
              | Some ulength \<Rightarrow>
                  (case sn_Uncompress snappy (take n data) of
                     None \<Rightarrow> Inl (Corruption (str ''corrupted compressed block contents'') [])
                   | Some ubuf \<Rightarrow> Inr \<lparr>bc_data = take ulength ubuf, bc_cachable = True, bc_heap_allocated = True\<rparr>))
        else Inl (Corruption (str ''bad block type'') []))"

section \<open>Reading back\<close>

lemma BH_roundtrip [simp, codec]: "BH_DecodeFrom (BH_EncodeTo h [] @ rest) = Inr (h, rest)"
  by (simp add: BH_DecodeFrom_def BH_EncodeTo_def PutVarint64_def)

lemma BH_EncodeTo_append: "BH_EncodeTo h dst = dst @ BH_EncodeTo h []"
  by (simp add: BH_EncodeTo_def PutVarint64_def)

lemma BH_EncodeTo_length: "length (BH_EncodeTo h []) \<le> 20"
  using length_EncodeVarint64 [of "bh_offset h"] length_EncodeVarint64 [of "bh_size h"]
  by (simp add: BH_EncodeTo_def PutVarint64_def)

lemma Footer_EncodeTo_eq:
  "\<exists>pad. Footer_EncodeTo f [] = BH_EncodeTo (ft_metaindex_handle f) [] @ BH_EncodeTo (ft_index_handle f) [] @ pad @
      EncodeFixed32 (ucast kTableMagicNumber) @ EncodeFixed32 (ucast (drop_bit 32 kTableMagicNumber)) \<and>
    length (BH_EncodeTo (ft_metaindex_handle f) [] @ BH_EncodeTo (ft_index_handle f) [] @ pad) = 40"
proof -
  let ?h = "BH_EncodeTo (ft_metaindex_handle f) [] @ BH_EncodeTo (ft_index_handle f) []"
  have l: "length ?h \<le> 40"
    using BH_EncodeTo_length [of "ft_metaindex_handle f"] BH_EncodeTo_length [of "ft_index_handle f"] by simp
  have m: "ucast (kTableMagicNumber AND 0xffffffff) = (ucast kTableMagicNumber :: u32)"
    by (simp add: kTableMagicNumber_def)
  show ?thesis
    using l m BH_EncodeTo_append [of "ft_index_handle f" "BH_EncodeTo (ft_metaindex_handle f) []"]
    by (intro exI [of _ "replicate (40 - length ?h) 0"])
      (simp add: Footer_EncodeTo_def resize_def PutFixed32_def BH_kMaxEncodedLength_def)
qed

lemma Footer_length: "length (Footer_EncodeTo f []) = Footer_kEncodedLength"
  using Footer_EncodeTo_eq [of f] by (auto simp: constants)

lemma Footer_roundtrip: "Footer_DecodeFrom (Footer_EncodeTo f [] @ rest) = Inr (f, rest)"
proof -
  obtain pad where p: "Footer_EncodeTo f [] = BH_EncodeTo (ft_metaindex_handle f) [] @ BH_EncodeTo (ft_index_handle f) [] @ pad @
      EncodeFixed32 (ucast kTableMagicNumber) @ EncodeFixed32 (ucast (drop_bit 32 kTableMagicNumber))"
    "length (BH_EncodeTo (ft_metaindex_handle f) [] @ BH_EncodeTo (ft_index_handle f) [] @ pad) = 40"
    using Footer_EncodeTo_eq by blast
  let ?h = "BH_EncodeTo (ft_metaindex_handle f) [] @ BH_EncodeTo (ft_index_handle f) [] @ pad"
  let ?m = "EncodeFixed32 (ucast kTableMagicNumber) @ EncodeFixed32 (ucast (drop_bit 32 kTableMagicNumber)) :: bytes"
  have d: "drop (Footer_kEncodedLength - 8) (Footer_EncodeTo f [] @ rest) = ?m @ rest"
  proof -
    have "Footer_EncodeTo f [] @ rest = ?h @ ?m @ rest" using p(1) by simp
    moreover have "Footer_kEncodedLength - 8 = length ?h" using p(2) by (simp add: constants)
    ultimately show ?thesis by (metis append_eq_conv_conj)
  qed
  have "push_bit 32 (ucast (ucast (drop_bit 32 kTableMagicNumber) :: u32)) OR ucast (ucast kTableMagicNumber :: u32) = kTableMagicNumber"
    by (simp add: kTableMagicNumber_def)
  then show ?thesis
    unfolding Footer_DecodeFrom_def d Let_def by (simp add: p(1))
qed

text \<open>A stored block: contents, type and masked checksum.\<close>

definition stored_block :: "bytes \<Rightarrow> byte \<Rightarrow> bytes" where
  "stored_block contents t = contents @ [t] @ EncodeFixed32 (Mask (Extend 0 (crc_Value 0 contents) [t]))"

lemma stored_block_length [simp]: "length (stored_block contents t) = length contents + kBlockTrailerSize"
  by (simp add: stored_block_def constants)

text \<open>A file that holds \<open>data\<close>: reads past the end are short.\<close>

definition mem_Read :: "bool \<Rightarrow> bytes \<Rightarrow> RandomAccessFile" where
  "mem_Read in_scratch data offset n = (OK, take n (drop (unat offset) data), in_scratch)"

definition snappy_ok :: "Snappy \<Rightarrow> bool" where
  "snappy_ok snappy \<longleftrightarrow> (\<forall>raw c. sn_Compress snappy raw = Some c \<longrightarrow>
     sn_GetUncompressedLength snappy c = Some (length raw) \<and> sn_Uncompress snappy c = Some raw)"

lemma ReadBlock_stored:
  assumes "data = pre @ stored_block contents t @ post" and "length pre < 2 ^ 64" and "length contents < 2 ^ 32 - 1"
    and "(t = kNoCompression \<and> raw = contents) \<or>
      (t = kSnappyCompression \<and> sn_GetUncompressedLength snappy contents = Some (length raw) \<and>
        sn_Uncompress snappy contents = Some raw)"
  shows "\<exists>c. ReadBlock snappy (mem_Read scr data) verify \<lparr>bh_offset = of_nat (length pre), bh_size = of_nat (length contents)\<rparr> = Inr c \<and>
    bc_data c = raw"
proof -
  let ?n = "length contents"
  have n: "unat (of_nat ?n :: u64) = ?n" "unat (of_nat (length pre) :: u64) = length pre" using assms(2,3) by simp_all
  have rd: "take (?n + kBlockTrailerSize) (drop (length pre) data) = stored_block contents t"
    using assms(1) by simp
  have "crc_Value 0 (contents @ [t]) = Extend 0 (crc_Value 0 contents) [t]"
    using assms(3) by (simp add: crc_Value_def Extend_reference crc32c_reference_append)
  then have "crc_Value 0 (take (?n + 1) (stored_block contents t)) = Unmask (DecodeFixed32 (drop (?n + 1) (stored_block contents t)))"
    by (simp add: stored_block_def)
  moreover have "stored_block contents t ! ?n = t" by (simp add: stored_block_def)
  moreover have "take ?n (stored_block contents t) = contents" by (simp add: stored_block_def)
  ultimately show ?thesis
    using assms(4) unfolding ReadBlock_def mem_Read_def BlockHandle.simps n rd Let_def by (auto simp: constants)
qed

section \<open>Corrupted bytes\<close>

lemma crc_bit_zero: "crc_bit c = 0 \<Longrightarrow> c = 0"
proof (rule bit_word_eqI)
  fix n assume n: "n < LENGTH(32)" and z: "crc_bit c = 0"
  have "\<not> bit (crc_bit c) 31" using z by simp
  then have b: "\<not> bit c 0"
    by (auto simp: crc_bit_def bit_simps split: if_splits dest: bit_imp_le_length)
  then have "drop_bit 1 c = 0" using z by (simp add: crc_bit_def)
  then have "\<not> bit (drop_bit 1 c) (n - 1)" by simp
  then show "bit c n \<longleftrightarrow> bit 0 n" using b by (cases n) (simp_all add: bit_simps)
qed

lemma crc_bit_eq_0: "crc_bit c = 0 \<longleftrightarrow> c = 0"
  using crc_bit_zero linear_zero [OF linear_crc_bit] by blast

lemma crc_byte_eq_iff: "crc_byte c = crc_byte d \<longleftrightarrow> c = d"
proof
  assume "crc_byte c = crc_byte d"
  then have "crc_byte (c XOR d) = 0" using linearD [OF linear_crc_byte, of c d] by simp
  then have "c XOR d = 0" unfolding crc_byte_def by (simp only: crc_bit_eq_0)
  then show "c = d" by (auto simp: bit_eq_iff bit_simps)
qed simp

lemma ucast_byte_eq_iff: "(ucast a :: u32) = ucast b \<longleftrightarrow> a = b" for a b :: byte
proof
  assume "(ucast a :: u32) = ucast b"
  then have "(ucast (ucast a :: u32) :: byte) = ucast (ucast b :: u32)" by simp
  then show "a = b" by (simp add: bit_eq_iff bit_simps)
qed simp

lemma xor_cancel: "c XOR a = c XOR b \<longleftrightarrow> a = b" "a XOR c = b XOR c \<longleftrightarrow> a = b" for a b c :: u32
  by (auto simp: bit_eq_iff bit_simps)

text \<open>Two strings that differ in one byte have different checksums.\<close>

lemma crc32c_reference_one_byte:
  assumes "a \<noteq> b"
  shows "crc32c_reference c (pre @ a # post) \<noteq> crc32c_reference c (pre @ b # post)"
proof -
  let ?f = "foldl (\<lambda>c b :: byte. crc_byte (c XOR ucast b))"
  have inj: "?f c xs = ?f d xs \<longleftrightarrow> c = d" for c d xs
    by (induction xs arbitrary: c d) (simp_all add: crc_byte_eq_iff xor_cancel)
  show ?thesis using assms by (simp add: crc32c_reference_def xor_cancel inj crc_byte_eq_iff ucast_byte_eq_iff)
qed

lemma EncodeFixed32_DecodeFixed32:
  assumes "length bs = 4"
  shows "EncodeFixed32 (DecodeFixed32 bs) = bs"
proof -
  obtain b0 b1 b2 b3 where "bs = [b0, b1, b2, b3]" using assms by (auto simp: length_Suc_conv numeral_eq_Suc)
  then show ?thesis
    by (auto simp: EncodeFixed32_def DecodeFixed32_def bit_eq_iff bit_simps dest: bit_imp_le_length)
qed

lemma Mask_Unmask: "Mask (Unmask m) = m"
proof -
  have "drop_bit 15 (drop_bit 17 r OR push_bit 15 r) OR push_bit 17 (drop_bit 17 r OR push_bit 15 r) = r" for r :: u32
  proof (rule bit_word_eqI)
    fix n assume "n < LENGTH(32)"
    then show "bit (drop_bit 15 (drop_bit 17 r OR push_bit 15 r) OR push_bit 17 (drop_bit 17 r OR push_bit 15 r)) n = bit r n"
      by (cases "n < 17") (auto simp: bit_simps dest: bit_imp_le_length)
  qed
  then show ?thesis by (simp add: Mask_def Unmask_def Let_def)
qed

section \<open>Properties\<close>



text \<open>C34: checksum verification detects every single-byte error.  However a stored block is changed
  in one byte of its contents, its type or its checksum, \<open>ReadBlock\<close> with
  \<open>verify_checksums\<close> fails with \<open>block checksum mismatch\<close>, while the unchanged block reads back.\<close>

theorem read_block_detects_corruption:
  assumes "length pre < 2 ^ 64" and "length contents < 2 ^ 32 - 1"
    and "i < length (stored_block contents kNoCompression)" and "b \<noteq> stored_block contents kNoCompression ! i"
  shows "ReadBlock snappy (mem_Read scr (pre @ (stored_block contents kNoCompression)[i := b] @ post)) True
      \<lparr>bh_offset = of_nat (length pre), bh_size = of_nat (length contents)\<rparr> =
        Inl (Corruption (str ''block checksum mismatch'') []) \<and>
    (\<exists>c. ReadBlock snappy (mem_Read scr (pre @ stored_block contents kNoCompression @ post)) True
      \<lparr>bh_offset = of_nat (length pre), bh_size = of_nat (length contents)\<rparr> = Inr c \<and> bc_data c = contents)"
proof -
  let ?n = "length contents" and ?t = kNoCompression
  let ?b = "(stored_block contents ?t)[i := b]"
  let ?body = "contents @ [?t]" and ?sum = "EncodeFixed32 (Mask (crc32c_reference 0 (contents @ [?t])))"
  have n: "unat (of_nat ?n :: u64) = ?n" "unat (of_nat (length pre) :: u64) = length pre" using assms by simp_all
  have rd: "take (?n + kBlockTrailerSize) (drop (length pre) (pre @ ?b @ post)) = ?b" by simp
  have sb: "stored_block contents ?t = ?body @ ?sum"
    using assms(2) by (simp add: stored_block_def crc_Value_def Extend_reference crc32c_reference_append)
  have "crc_Value 0 (take (?n + 1) ?b) \<noteq> Unmask (DecodeFixed32 (drop (?n + 1) ?b))"
  proof (cases "i < ?n + 1")
    case True
    then have e: "?b = ?body[i := b] @ ?sum" unfolding sb by (simp add: list_update_append)
    have "?body = take i ?body @ ?body ! i # drop (Suc i) ?body" using True by (intro id_take_nth_drop) simp
    moreover have "?body[i := b] = take i ?body @ b # drop (Suc i) ?body" using True by (intro upd_conv_take_nth_drop) simp
    moreover have "?body ! i \<noteq> b"
      using assms(4) True unfolding sb by (simp add: nth_append_left del: append_assoc)
    ultimately have "crc32c_reference 0 ?body \<noteq> crc32c_reference 0 (?body[i := b])"
      by (metis crc32c_reference_one_byte)
    moreover have "length (?body[i := b]) = ?n + 1" by simp
    ultimately show ?thesis using assms(2) unfolding e by (simp add: crc_Value_def Extend_reference)
  next
    case False
    then have e: "?b = ?body @ ?sum[i - (?n + 1) := b]"
      unfolding sb list_update_append by (simp del: append_assoc)
    have j: "i - (?n + 1) < 4" using assms(3) False by (simp add: constants)
    have "?sum ! (i - (?n + 1)) \<noteq> b" using assms(4) False unfolding sb by (simp add: nth_append_right del: append_assoc)
    then have "?sum[i - (?n + 1) := b] \<noteq> ?sum" using j by (metis length_EncodeFixed32 nth_list_update_eq)
    then have "DecodeFixed32 (?sum[i - (?n + 1) := b]) \<noteq> Mask (crc32c_reference 0 ?body)"
      by (metis EncodeFixed32_DecodeFixed32 length_list_update length_EncodeFixed32)
    then have "Unmask (DecodeFixed32 (?sum[i - (?n + 1) := b])) \<noteq> crc32c_reference 0 ?body"
      by (metis Mask_Unmask)
    then show ?thesis using assms(2) unfolding e by (simp add: crc_Value_def Extend_reference)
  qed
  then have "ReadBlock snappy (mem_Read scr (pre @ (stored_block contents kNoCompression)[i := b] @ post)) True
      \<lparr>bh_offset = of_nat (length pre), bh_size = of_nat (length contents)\<rparr> =
        Inl (Corruption (str ''block checksum mismatch'') [])"
    unfolding ReadBlock_def mem_Read_def BlockHandle.simps n rd Let_def by simp
  moreover have "\<exists>c. ReadBlock snappy (mem_Read scr (pre @ stored_block contents kNoCompression @ post)) True
      \<lparr>bh_offset = of_nat (length pre), bh_size = of_nat (length contents)\<rparr> = Inr c \<and> bc_data c = contents"
    using ReadBlock_stored [of _ pre contents ?t post contents] assms(1,2) by blast
  ultimately show ?thesis by (rule conjI)
qed


theorem read_block_detects_corruption_witness:
  "ReadBlock \<lparr>sn_Compress = \<lambda>_. None, sn_GetUncompressedLength = \<lambda>_. None, sn_Uncompress = \<lambda>_. None\<rparr>
      (mem_Read True ([9] @ (stored_block [1, 2, 3] kNoCompression)[1 := 7] @ [])) True
      \<lparr>bh_offset = of_nat (length [9 :: byte]), bh_size = of_nat (length [1, 2, 3 :: byte])\<rparr> =
        Inl (Corruption (str ''block checksum mismatch'') [])"
proof -
  have "1 < length (stored_block [1, 2, 3] kNoCompression)" "7 \<noteq> stored_block [1, 2, 3] kNoCompression ! 1"
    by (simp_all add: constants stored_block_def)
  then show ?thesis using read_block_detects_corruption [of "[9]" "[1, 2, 3]" 1 7 _ True "[]"] by simp
qed

end
