(* ===== verification/Options.thy ===== *)
theory Options
  imports DbFormat Bloom Format
begin

text \<open>
  Options, comparators and filter policies as the objects the code passes around:
  \<^verbatim>\<open>include/pebblesdb/options.h\<close>, \<^verbatim>\<open>util/options.cc\<close>, the virtual interfaces of
  \<^verbatim>\<open>comparator.h\<close> and \<^verbatim>\<open>filter_policy.h\<close>, and \<open>SanitizeOptions\<close> of \<^verbatim>\<open>db/db_impl.cc\<close>.
  Pointers that the code only compares or passes on (a logger, a cache, the identity of a
  comparator) are addresses.
\<close>

section \<open>Comparators and filter policies\<close>

record Comparator =
  cm_address :: nat
  cm_Name :: bytes
  cm_Compare :: "bytes \<Rightarrow> bytes \<Rightarrow> int"
  cm_FindShortestSeparator :: "bytes \<Rightarrow> bytes \<Rightarrow> bytes"
  cm_FindShortSuccessor :: "bytes \<Rightarrow> bytes"

definition BytewiseComparator :: "nat \<Rightarrow> Comparator" where
  "BytewiseComparator a =
    \<lparr>cm_address = a, cm_Name = str ''leveldb.BytewiseComparator'', cm_Compare = Slice_compare,
     cm_FindShortestSeparator = bytewise_FindShortestSeparator,
     cm_FindShortSuccessor = bytewise_FindShortSuccessor\<rparr>"

definition InternalKeyComparator :: "nat \<Rightarrow> Comparator \<Rightarrow> Comparator" where
  "InternalKeyComparator a c =
    \<lparr>cm_address = a, cm_Name = str ''leveldb.InternalKeyComparator'',
     cm_Compare = InternalKey_Compare (cm_Compare c),
     cm_FindShortestSeparator = InternalKey_FindShortestSeparator (cm_Compare c) (cm_FindShortestSeparator c),
     cm_FindShortSuccessor = InternalKey_FindShortSuccessor (cm_Compare c) (cm_FindShortSuccessor c)\<rparr>"

record FilterPolicy =
  fp_Name :: bytes
  fp_CreateFilter :: "bytes list \<Rightarrow> bytes \<Rightarrow> bytes"
  fp_KeyMayMatch :: "bytes \<Rightarrow> bytes \<Rightarrow> bool"

definition NewBloomFilterPolicy :: "nat \<Rightarrow> FilterPolicy" where
  "NewBloomFilterPolicy bits_per_key =
    \<lparr>fp_Name = str ''leveldb.BuiltinBloomFilter'',
     fp_CreateFilter = Bloom_CreateFilter (mk_BloomFilterPolicy bits_per_key),
     fp_KeyMayMatch = Bloom_KeyMayMatch\<rparr>"

definition InternalFilterPolicy :: "FilterPolicy \<Rightarrow> FilterPolicy" where
  "InternalFilterPolicy p =
    \<lparr>fp_Name = fp_Name p, fp_CreateFilter = InternalFilter_CreateFilter (fp_CreateFilter p),
     fp_KeyMayMatch = InternalFilter_KeyMayMatch (fp_KeyMayMatch p)\<rparr>"

section \<open>Options\<close>

record Options =
  opt_comparator :: Comparator
  opt_create_if_missing :: bool
  opt_error_if_exists :: bool
  opt_paranoid_checks :: bool
  opt_info_log :: "nat option"
  opt_write_buffer_size :: u64
  opt_max_open_files :: "32 word"
  opt_block_cache :: "nat option"
  opt_block_size :: u64
  opt_block_restart_interval :: nat
  opt_compression :: byte
  opt_filter_policy :: "FilterPolicy option"
  opt_manual_garbage_collection :: bool
  opt_use_direct_reads :: bool

definition mk_Options :: "nat \<Rightarrow> Options" where
  "mk_Options bytewise =
    \<lparr>opt_comparator = BytewiseComparator bytewise,
     opt_create_if_missing = False,
     opt_error_if_exists = False,
     opt_paranoid_checks = False,
     opt_info_log = None,
     opt_write_buffer_size = push_bit 20 4,
     opt_max_open_files = 1000,
     opt_block_cache = None,
     opt_block_size = 4096,
     opt_block_restart_interval = 16,
     opt_compression = kNoCompression,
     opt_filter_policy = None,
     opt_manual_garbage_collection = False,
     opt_use_direct_reads = False\<rparr>"

record ReadOptions =
  ro_verify_checksums :: bool
  ro_fill_cache :: bool
  ro_snapshot :: "u64 option"

definition mk_ReadOptions :: ReadOptions where
  "mk_ReadOptions = \<lparr>ro_verify_checksums = False, ro_fill_cache = True, ro_snapshot = None\<rparr>"

record WriteOptions =
  wo_sync :: bool

definition mk_WriteOptions :: WriteOptions where
  "mk_WriteOptions = \<lparr>wo_sync = False\<rparr>"

section \<open>Sanitising\<close>

text \<open>\<open>ClipToRange\<close> with an \<open>int\<close> range: the value is compared after a cast to \<open>int\<close>, at the type
  \<open>size_t\<close> and at the type \<open>int\<close>.\<close>

definition ClipToRange_size_t :: "u64 \<Rightarrow> 32 word \<Rightarrow> 32 word \<Rightarrow> u64" where
  "ClipToRange_size_t v minvalue maxvalue =
    (let v = (if sint (ucast v :: 32 word) > sint maxvalue then scast maxvalue else v)
     in if sint (ucast v :: 32 word) < sint minvalue then scast minvalue else v)"

definition ClipToRange_int :: "32 word \<Rightarrow> 32 word \<Rightarrow> 32 word \<Rightarrow> 32 word" where
  "ClipToRange_int v minvalue maxvalue =
    (let v = (if sint v > sint maxvalue then maxvalue else v)
     in if sint v < sint minvalue then minvalue else v)"

definition kNumNonTableCacheFiles :: "32 word" where "kNumNonTableCacheFiles = 10"

text \<open>\<open>new_logger\<close> is what \<open>NewLogger\<close> gives, and \<open>new_cache\<close> the cache made by \<open>NewLRUCache\<close>.\<close>

definition SanitizeOptions :: "nat option \<Rightarrow> nat \<Rightarrow> Comparator \<Rightarrow> FilterPolicy \<Rightarrow> Options \<Rightarrow> Options" where
  "SanitizeOptions new_logger new_cache icmp ipolicy src =
    (let result = src\<lparr>opt_comparator := icmp,
           opt_filter_policy := (if opt_filter_policy src \<noteq> None then Some ipolicy else None),
           opt_max_open_files := ClipToRange_int (opt_max_open_files src) (64 + kNumNonTableCacheFiles) 50000,
           opt_write_buffer_size := ClipToRange_size_t (opt_write_buffer_size src) (push_bit 10 64) (push_bit 30 1),
           opt_block_size := ClipToRange_size_t (opt_block_size src) (push_bit 10 1) (push_bit 20 4)\<rparr>;
         result = (if opt_info_log result = None then result\<lparr>opt_info_log := new_logger\<rparr> else result)
     in if opt_block_cache result = None then result\<lparr>opt_block_cache := Some new_cache\<rparr> else result)"



end
