(* ===== verification/TableBuilder.thy ===== *)
theory TableBuilder
  imports Block FilterBlock Format Options
begin

text \<open>
  The table builder, \<^verbatim>\<open>table/table_builder.cc\<close>.  The output file is an argument: its state and
  the operations of \<open>WritableFile\<close>, each of which may fail.  \<open>compressed_output\<close>, which is
  cleared after every block, is local to \<open>WriteBlock\<close>.  The assertions on \<open>closed\<close> are
  preconditions, and so is that \<open>ChangeOptions\<close> does not take the filter policy away.
\<close>

record 'f WritableFile =
  wf_Append :: "'f \<Rightarrow> bytes \<Rightarrow> 'f \<times> Status"
  wf_Flush :: "'f \<Rightarrow> 'f \<times> Status"
  wf_Sync :: "'f \<Rightarrow> 'f \<times> Status"
  wf_Close :: "'f \<Rightarrow> 'f \<times> Status"

record 'f TableBuilder =
  tb_options :: Options
  tb_index_block_options :: Options
  tb_file :: 'f
  tb_offset :: u64
  tb_status :: Status
  tb_data_block :: BlockBuilder
  tb_index_block :: BlockBuilder
  tb_last_key :: bytes
  tb_num_entries :: u64
  tb_closed :: bool
  tb_filter_block :: "(FilterPolicy \<times> FilterBlockBuilder) option"
  tb_pending_index_entry :: bool
  tb_pending_handle :: BlockHandle

definition index_options :: "Options \<Rightarrow> Options" where
  "index_options opt = opt\<lparr>opt_block_restart_interval := 1\<rparr>"

definition mk_TableBuilder :: "Options \<Rightarrow> 'f \<Rightarrow> 'f TableBuilder" where
  "mk_TableBuilder opt f =
    \<lparr>tb_options = opt, tb_index_block_options = index_options opt, tb_file = f, tb_offset = 0, tb_status = OK,
     tb_data_block = mk_BlockBuilder, tb_index_block = mk_BlockBuilder, tb_last_key = [], tb_num_entries = 0,
     tb_closed = False,
     tb_filter_block = map_option (\<lambda>p. (p, FB_StartBlock (fp_CreateFilter p) 0 mk_FilterBlockBuilder)) (opt_filter_policy opt),
     tb_pending_index_entry = False, tb_pending_handle = mk_BlockHandle\<rparr>"

definition TB_ChangeOptions :: "Options \<Rightarrow> 'f TableBuilder \<Rightarrow> Status \<times> 'f TableBuilder" where
  "TB_ChangeOptions opt r =
    (if cm_address (opt_comparator opt) \<noteq> cm_address (opt_comparator (tb_options r))
     then (InvalidArgument (str ''changing comparator while building table'') [], r)
     else (OK, r\<lparr>tb_options := opt, tb_index_block_options := index_options opt\<rparr>))"

definition WriteRawBlock ::
    "'f WritableFile \<Rightarrow> bytes \<Rightarrow> byte \<Rightarrow> 'f TableBuilder \<Rightarrow> BlockHandle \<times> 'f TableBuilder" where
  "WriteRawBlock W block_contents t r =
    (let handle = \<lparr>bh_offset = tb_offset r, bh_size = of_nat (length block_contents)\<rparr>;
         (f, s) = wf_Append W (tb_file r) block_contents;
         r = r\<lparr>tb_file := f, tb_status := s\<rparr>
     in if ok s
        then let crc = crc_Value 0 block_contents;
                 crc = Extend 0 crc [t];
                 trailer = t # EncodeFixed32 (Mask crc);
                 (f, s) = wf_Append W f trailer;
                 r = r\<lparr>tb_file := f, tb_status := s\<rparr>
             in if ok s
                then (handle, r\<lparr>tb_offset := tb_offset r + of_nat (length block_contents + kBlockTrailerSize)\<rparr>)
                else (handle, r)
        else (handle, r))"

text \<open>The choice of the stored form.  \<open>CompressionType\<close> has two values.\<close>

definition stored_form :: "Snappy \<Rightarrow> Options \<Rightarrow> bytes \<Rightarrow> bytes \<times> byte" where
  "stored_form snappy opt raw =
    (if opt_compression opt = kSnappyCompression
     then case sn_Compress snappy raw of
            Some compressed \<Rightarrow>
              if length compressed < length raw - length raw div 8 then (compressed, kSnappyCompression)
              else (raw, kNoCompression)
          | None \<Rightarrow> (raw, kNoCompression)
     else (raw, kNoCompression))"

definition WriteBlock ::
    "'f WritableFile \<Rightarrow> Snappy \<Rightarrow> BlockBuilder \<Rightarrow> 'f TableBuilder \<Rightarrow> BlockBuilder \<times> BlockHandle \<times> 'f TableBuilder" where
  "WriteBlock W snappy block r =
    (let (raw, block) = BB_Finish block;
         (block_contents, t) = stored_form snappy (tb_options r) raw;
         (handle, r) = WriteRawBlock W block_contents t r
     in (BB_Reset block, handle, r))"

definition BB_empty :: "BlockBuilder \<Rightarrow> bool" where
  "BB_empty b = (bb_buffer b = [])"

definition TB_Flush :: "'f WritableFile \<Rightarrow> Snappy \<Rightarrow> 'f TableBuilder \<Rightarrow> 'f TableBuilder" where
  "TB_Flush W snappy r =
    (if \<not> ok (tb_status r) then r
     else if BB_empty (tb_data_block r) then r
     else let (data_block, handle, r) = WriteBlock W snappy (tb_data_block r) r;
              r = r\<lparr>tb_data_block := data_block, tb_pending_handle := handle\<rparr>;
              r = (if ok (tb_status r)
                   then let (f, s) = wf_Flush W (tb_file r)
                        in r\<lparr>tb_pending_index_entry := True, tb_file := f, tb_status := s\<rparr>
                   else r)
          in r\<lparr>tb_filter_block :=
                 map_option (\<lambda>(p, b). (p, FB_StartBlock (fp_CreateFilter p) (tb_offset r) b)) (tb_filter_block r)\<rparr>)"

definition add_index_entry :: "bytes \<Rightarrow> 'f TableBuilder \<Rightarrow> 'f TableBuilder" where
  "add_index_entry key r =
    (let handle_encoding = BH_EncodeTo (tb_pending_handle r) []
     in r\<lparr>tb_last_key := key,
          tb_index_block := BB_Add (opt_block_restart_interval (tb_index_block_options r)) key handle_encoding (tb_index_block r),
          tb_pending_index_entry := False\<rparr>)"

definition TB_Add_pre :: "'f TableBuilder \<Rightarrow> bool" where
  "TB_Add_pre r \<longleftrightarrow> \<not> tb_closed r \<and> (tb_pending_index_entry r \<longrightarrow> BB_empty (tb_data_block r))"

definition TB_Add :: "'f WritableFile \<Rightarrow> Snappy \<Rightarrow> bytes \<Rightarrow> bytes \<Rightarrow> 'f TableBuilder \<Rightarrow> 'f TableBuilder" where
  "TB_Add W snappy key value r =
    (if \<not> ok (tb_status r) then r
     else let r = (if tb_pending_index_entry r
                   then add_index_entry
                          (cm_FindShortestSeparator (opt_comparator (tb_options r)) (tb_last_key r) key) r
                   else r);
              r = r\<lparr>tb_filter_block := map_option (\<lambda>(p, b). (p, FB_AddKey key b)) (tb_filter_block r),
                    tb_last_key := key, tb_num_entries := tb_num_entries r + 1,
                    tb_data_block := BB_Add (opt_block_restart_interval (tb_options r)) key value (tb_data_block r)\<rparr>
          in if BB_CurrentSizeEstimate (tb_data_block r) \<ge> unat (opt_block_size (tb_options r))
             then TB_Flush W snappy r else r)"

text \<open>The four steps of \<open>Finish\<close> after the last flush.\<close>

definition finish_filter :: "'f WritableFile \<Rightarrow> 'f TableBuilder \<Rightarrow> BlockHandle \<times> 'f TableBuilder" where
  "finish_filter W r =
    (case tb_filter_block r of
       Some (p, b) \<Rightarrow>
         if ok (tb_status r) then WriteRawBlock W (FB_Finish (fp_CreateFilter p) b) kNoCompression r
         else (mk_BlockHandle, r)
     | None \<Rightarrow> (mk_BlockHandle, r))"

definition finish_metaindex ::
    "'f WritableFile \<Rightarrow> Snappy \<Rightarrow> BlockHandle \<Rightarrow> 'f TableBuilder \<Rightarrow> BlockHandle \<times> 'f TableBuilder" where
  "finish_metaindex W snappy filter_block_handle r =
    (if ok (tb_status r)
     then let meta_index_block =
                (case (tb_filter_block r, opt_filter_policy (tb_options r)) of
                   (Some _, Some policy) \<Rightarrow>
                     BB_Add (opt_block_restart_interval (tb_options r)) (str ''filter.'' @ fp_Name policy)
                       (BH_EncodeTo filter_block_handle []) mk_BlockBuilder
                 | _ \<Rightarrow> mk_BlockBuilder);
              (_, handle, r) = WriteBlock W snappy meta_index_block r
          in (handle, r)
     else (mk_BlockHandle, r))"

definition finish_index :: "'f WritableFile \<Rightarrow> Snappy \<Rightarrow> 'f TableBuilder \<Rightarrow> BlockHandle \<times> 'f TableBuilder" where
  "finish_index W snappy r =
    (if ok (tb_status r)
     then let r = (if tb_pending_index_entry r
                   then add_index_entry (cm_FindShortSuccessor (opt_comparator (tb_options r)) (tb_last_key r)) r
                   else r);
              (index_block, handle, r) = WriteBlock W snappy (tb_index_block r) r
          in (handle, r\<lparr>tb_index_block := index_block\<rparr>)
     else (mk_BlockHandle, r))"

definition finish_footer :: "'f WritableFile \<Rightarrow> BlockHandle \<Rightarrow> BlockHandle \<Rightarrow> 'f TableBuilder \<Rightarrow> 'f TableBuilder" where
  "finish_footer W metaindex_handle index_handle r =
    (if ok (tb_status r)
     then let footer_encoding =
                Footer_EncodeTo \<lparr>ft_metaindex_handle = metaindex_handle, ft_index_handle = index_handle\<rparr> [];
              (f, s) = wf_Append W (tb_file r) footer_encoding;
              r = r\<lparr>tb_file := f, tb_status := s\<rparr>
          in if ok s then r\<lparr>tb_offset := tb_offset r + of_nat (length footer_encoding)\<rparr> else r
     else r)"

definition TB_Finish :: "'f WritableFile \<Rightarrow> Snappy \<Rightarrow> 'f TableBuilder \<Rightarrow> Status \<times> 'f TableBuilder" where
  "TB_Finish W snappy r =
    (let r = TB_Flush W snappy r;
         r = r\<lparr>tb_closed := True\<rparr>;
         (filter_block_handle, r) = finish_filter W r;
         (metaindex_block_handle, r) = finish_metaindex W snappy filter_block_handle r;
         (index_block_handle, r) = finish_index W snappy r;
         r = finish_footer W metaindex_block_handle index_block_handle r
     in (tb_status r, r))"

definition TB_Abandon :: "'f TableBuilder \<Rightarrow> 'f TableBuilder" where
  "TB_Abandon r = r\<lparr>tb_closed := True\<rparr>"

definition TB_NumEntries :: "'f TableBuilder \<Rightarrow> u64" where "TB_NumEntries r = tb_num_entries r"
definition TB_FileSize :: "'f TableBuilder \<Rightarrow> u64" where "TB_FileSize r = tb_offset r"


section \<open>What is in the file\<close>

text \<open>The contract of a file that never fails: \<open>Append\<close> adds to its contents.\<close>

locale appendable =
  fixes W :: "'f WritableFile" and contents :: "'f \<Rightarrow> bytes"
  assumes Append_contents: "ok (snd (wf_Append W f d)) \<and> contents (fst (wf_Append W f d)) = contents f @ d"
    and Flush_contents: "ok (snd (wf_Flush W f)) \<and> contents (fst (wf_Flush W f)) = contents f"

definition builder_of :: "nat \<Rightarrow> (bytes \<times> bytes) list \<Rightarrow> BlockBuilder" where
  "builder_of interval es = foldl (\<lambda>b e. BB_Add interval (fst e) (snd e) b) mk_BlockBuilder es"

definition stored_raw :: "Snappy \<Rightarrow> Options \<Rightarrow> bytes \<Rightarrow> bytes" where
  "stored_raw snappy opt raw = (case stored_form snappy opt raw of (c, t) \<Rightarrow> stored_block c t)"

definition stored_len :: "Snappy \<Rightarrow> Options \<Rightarrow> bytes \<Rightarrow> nat" where
  "stored_len snappy opt raw = length (fst (stored_form snappy opt raw))"

definition data_raw :: "Options \<Rightarrow> (bytes \<times> bytes) list \<Rightarrow> bytes" where
  "data_raw opt es = block_of (opt_block_restart_interval opt) es"

definition data_bytes :: "Snappy \<Rightarrow> Options \<Rightarrow> (bytes \<times> bytes) list list \<Rightarrow> bytes" where
  "data_bytes snappy opt bss = concat (map (\<lambda>es. stored_raw snappy opt (data_raw opt es)) bss)"

definition block_handle :: "Snappy \<Rightarrow> Options \<Rightarrow> (bytes \<times> bytes) list list \<Rightarrow> nat \<Rightarrow> BlockHandle" where
  "block_handle snappy opt bss i =
    \<lparr>bh_offset = of_nat (length (data_bytes snappy opt (take i bss))),
     bh_size = of_nat (stored_len snappy opt (data_raw opt (bss ! i)))\<rparr>"

definition index_entries :: "Snappy \<Rightarrow> Options \<Rightarrow> (bytes \<times> bytes) list list \<Rightarrow> bytes list \<Rightarrow> (bytes \<times> bytes) list" where
  "index_entries snappy opt bss seps =
    map (\<lambda>i. (seps ! i, BH_EncodeTo (block_handle snappy opt bss i) [])) [0..<length seps]"

definition tb_inv ::
    "('f \<Rightarrow> bytes) \<Rightarrow> Snappy \<Rightarrow> Options \<Rightarrow> 'f TableBuilder \<Rightarrow> (bytes \<times> bytes) list list \<Rightarrow> bytes list \<Rightarrow> (bytes \<times> bytes) list \<Rightarrow> bool" where
  "tb_inv contents snappy opt r bss seps cur \<longleftrightarrow>
     tb_options r = opt \<and> tb_index_block_options r = index_options opt \<and> tb_status r = OK \<and>
     contents (tb_file r) = data_bytes snappy opt bss \<and>
     tb_offset r = of_nat (length (data_bytes snappy opt bss)) \<and>
     tb_data_block r = builder_of (opt_block_restart_interval opt) cur \<and>
     tb_index_block r = builder_of 1 (index_entries snappy opt bss seps) \<and>
     [] \<notin> set bss \<and>
     (if tb_pending_index_entry r
      then length bss = Suc (length seps) \<and> cur = [] \<and> tb_pending_handle r = block_handle snappy opt bss (length seps) \<and>
        tb_last_key r = fst (last (last bss))
      else length bss = length seps \<and> (cur \<noteq> [] \<longrightarrow> tb_last_key r = fst (last cur)) \<and> (cur = [] \<longrightarrow> bss = [])) \<and>
     (\<forall>i < length seps. seps ! i = cm_FindShortestSeparator (opt_comparator opt) (fst (last (bss ! i))) (fst (hd ((bss @ [cur]) ! Suc i))))"

text \<open>A finished table: the blocks with their index keys, and the bytes of the file.  \<open>mid\<close> are the
  filter block and the metaindex block.\<close>

definition table_blocks :: "Options \<Rightarrow> (bytes \<times> bytes) list list \<Rightarrow> bytes list \<Rightarrow> bool" where
  "table_blocks opt bss keys \<longleftrightarrow> [] \<notin> set bss \<and> length keys = length bss \<and>
    (\<forall>i < length bss. keys ! i =
       (if Suc i < length bss
        then cm_FindShortestSeparator (opt_comparator opt) (fst (last (bss ! i))) (fst (hd (bss ! Suc i)))
        else cm_FindShortSuccessor (opt_comparator opt) (fst (last (bss ! i)))))"

definition index_raw :: "Snappy \<Rightarrow> Options \<Rightarrow> (bytes \<times> bytes) list list \<Rightarrow> bytes list \<Rightarrow> bytes" where
  "index_raw snappy opt bss keys = block_of 1 (index_entries snappy opt bss keys)"

definition table_bytes :: "Snappy \<Rightarrow> Options \<Rightarrow> (bytes \<times> bytes) list list \<Rightarrow> bytes list \<Rightarrow> bytes \<Rightarrow> BlockHandle \<Rightarrow> bytes" where
  "table_bytes snappy opt bss keys mid m =
    (let pre = data_bytes snappy opt bss @ mid
     in pre @ stored_raw snappy opt (index_raw snappy opt bss keys) @
        Footer_EncodeTo \<lparr>ft_metaindex_handle = m,
          ft_index_handle = \<lparr>bh_offset = of_nat (length pre),
            bh_size = of_nat (stored_len snappy opt (index_raw snappy opt bss keys))\<rparr>\<rparr> [])"

lemma builder_of_simps [simp]:
  "builder_of interval [] = mk_BlockBuilder"
  "builder_of interval [e] = BB_Add interval (fst e) (snd e) mk_BlockBuilder"
  "builder_of interval (es @ [e]) = BB_Add interval (fst e) (snd e) (builder_of interval es)"
  by (simp_all add: builder_of_def)

lemma BB_Finish_builder_of: "fst (BB_Finish (builder_of interval es)) = block_of interval es"
  by (simp add: builder_of_def block_of_def)

lemma BB_Reset_eq [simp]: "BB_Reset b = mk_BlockBuilder"
  by (simp add: BB_Reset_def mk_BlockBuilder_def)

lemma BB_empty_mk [simp]: "BB_empty mk_BlockBuilder"
  by (simp add: BB_empty_def mk_BlockBuilder_def)

lemma BB_empty_builder_of [simp]: "BB_empty (builder_of interval es) \<longleftrightarrow> es = []"
proof (cases es rule: rev_cases)
  case (snoc ys e)
  have "bb_buffer (BB_Add interval k v b) \<noteq> []" for k v b
    by (simp add: BB_Add_def Let_def PutVarint32_def EncodeVarint32_def)
  then show ?thesis using snoc by (simp add: BB_empty_def)
qed simp

lemma data_bytes_append [simp]:
  "data_bytes snappy opt [] = []"
  "data_bytes snappy opt (bss @ [es]) = data_bytes snappy opt bss @ stored_raw snappy opt (data_raw opt es)"
  by (simp_all add: data_bytes_def)

lemma length_stored_raw: "length (stored_raw snappy opt raw) = stored_len snappy opt raw + kBlockTrailerSize"
  by (simp add: stored_raw_def stored_len_def split: prod.split)

lemma block_handle_append:
  "i < length bss \<Longrightarrow> block_handle snappy opt (bss @ xs) i = block_handle snappy opt bss i"
  by (simp add: block_handle_def nth_append)

lemma index_entries_append:
  "length seps \<le> length bss \<Longrightarrow> index_entries snappy opt (bss @ xs) seps = index_entries snappy opt bss seps"
  by (simp add: index_entries_def block_handle_append)

lemma index_entries_snoc:
  "index_entries snappy opt bss (seps @ [s]) =
    index_entries snappy opt bss seps @ [(s, BH_EncodeTo (block_handle snappy opt bss (length seps)) [])]"
  by (simp add: index_entries_def nth_append)

text \<open>The builder \<open>r'\<close> is \<open>r\<close> after the bytes \<open>d\<close> were appended to the file.\<close>

definition appended :: "('f \<Rightarrow> bytes) \<Rightarrow> 'f TableBuilder \<Rightarrow> bytes \<Rightarrow> 'f TableBuilder \<Rightarrow> bool" where
  "appended contents r d r' \<longleftrightarrow> (\<exists>f. contents f = contents (tb_file r) @ d \<and>
     r' = r\<lparr>tb_file := f, tb_status := OK, tb_offset := tb_offset r + of_nat (length d)\<rparr>)"

lemma appendedD:
  "appended contents r d r' \<Longrightarrow> tb_status r' = OK \<and> tb_options r' = tb_options r \<and>
    tb_index_block_options r' = tb_index_block_options r \<and> tb_index_block r' = tb_index_block r \<and>
    tb_closed r' = tb_closed r \<and> tb_pending_index_entry r' = tb_pending_index_entry r \<and>
    tb_pending_handle r' = tb_pending_handle r \<and> tb_last_key r' = tb_last_key r \<and>
    contents (tb_file r') = contents (tb_file r) @ d \<and> tb_offset r' = tb_offset r + of_nat (length d)"
  by (auto simp: appended_def)

lemma tb_inv_closed [simp]:
  "tb_inv contents snappy opt (r\<lparr>tb_closed := x\<rparr>) bss seps cur \<longleftrightarrow> tb_inv contents snappy opt r bss seps cur"
  by (simp add: tb_inv_def cong: conj_cong)

context appendable
begin

lemma WriteRawBlock_ok:
  assumes "WriteRawBlock W c t r = (h, r')"
  shows "h = \<lparr>bh_offset = tb_offset r, bh_size = of_nat (length c)\<rparr> \<and>
    appended contents r (stored_block c t) r'"
proof -
  obtain f1 s1 where a1: "wf_Append W (tb_file r) c = (f1, s1)" by fastforce
  obtain f2 s2 where a2: "wf_Append W f1 (t # EncodeFixed32 (Mask (Extend 0 (crc_Value 0 c) [t]))) = (f2, s2)" by fastforce
  have "s1 = OK" "contents f1 = contents (tb_file r) @ c"
    using Append_contents [of "tb_file r" c] a1 by (simp_all add: ok_def)
  moreover have "s2 = OK" "contents f2 = contents f1 @ t # EncodeFixed32 (Mask (Extend 0 (crc_Value 0 c) [t]))"
    using Append_contents [of f1 "t # EncodeFixed32 (Mask (Extend 0 (crc_Value 0 c) [t]))"] a2 by (simp_all add: ok_def)
  ultimately show ?thesis
    using assms a1 a2 by (auto simp: WriteRawBlock_def Let_def appended_def stored_block_def constants)
qed

lemma WriteBlock_ok:
  assumes "WriteBlock W snappy (builder_of interval es) r = (b, h, r')"
  defines "raw \<equiv> block_of interval es"
  shows "b = mk_BlockBuilder \<and> h = \<lparr>bh_offset = tb_offset r, bh_size = of_nat (stored_len snappy (tb_options r) raw)\<rparr> \<and>
    appended contents r (stored_raw snappy (tb_options r) raw) r'"
proof -
  obtain c t where ct: "stored_form snappy (tb_options r) raw = (c, t)" by fastforce
  obtain h2 r2 where w: "WriteRawBlock W c t r = (h2, r2)" by fastforce
  have "b = mk_BlockBuilder" "h = h2" "r' = r2"
    using assms ct w BB_Finish_builder_of [of interval es] by (auto simp: WriteBlock_def Let_def split: prod.splits)
  then show ?thesis using WriteRawBlock_ok [OF w] ct by (simp add: stored_raw_def stored_len_def)
qed

lemma TB_Flush_inv:
  assumes "tb_inv contents snappy opt r bss seps cur"
  shows "\<exists>bss'. tb_inv contents snappy opt (TB_Flush W snappy r) bss' seps [] \<and> concat bss' = concat bss @ cur \<and>
    tb_closed (TB_Flush W snappy r) = tb_closed r"
proof (cases "cur = []")
  case True
  then have "TB_Flush W snappy r = r" using assms by (simp add: TB_Flush_def tb_inv_def)
  then show ?thesis using assms True by (intro exI [of _ bss]) simp
next
  case False
  let ?I = "opt_block_restart_interval opt" and ?bss = "bss @ [cur]"
  have np: "\<not> tb_pending_index_entry r" and len: "length bss = length seps" and lk: "tb_last_key r = fst (last cur)"
    using assms False by (auto simp: tb_inv_def split: if_splits)
  obtain b h r1 where w: "WriteBlock W snappy (builder_of ?I cur) r = (b, h, r1)" by (metis prod.exhaust)
  have i: "tb_data_block r = builder_of ?I cur" "tb_options r = opt" "tb_status r = OK"
    "contents (tb_file r) = data_bytes snappy opt bss" "tb_offset r = of_nat (length (data_bytes snappy opt bss))"
    "tb_index_block r = builder_of 1 (index_entries snappy opt bss seps)" "[] \<notin> set bss"
    using assms by (simp_all add: tb_inv_def)
  note wb = WriteBlock_ok [OF w]
  from wb obtain f where f0: "contents f = contents (tb_file r) @ stored_raw snappy (tb_options r) (block_of ?I cur)"
    "r1 = r\<lparr>tb_file := f, tb_status := OK,
      tb_offset := tb_offset r + of_nat (length (stored_raw snappy (tb_options r) (block_of ?I cur)))\<rparr>"
    unfolding appended_def by blast
  have f: "b = mk_BlockBuilder" "h = block_handle snappy opt ?bss (length seps)"
      "contents f = data_bytes snappy opt ?bss"
      "r1 = r\<lparr>tb_file := f, tb_status := OK, tb_offset := of_nat (length (data_bytes snappy opt ?bss))\<rparr>"
    using wb f0 i len by (simp_all add: block_handle_def data_raw_def nth_append)
  obtain f2 s2 where fl: "wf_Flush W f = (f2, s2)" by fastforce
  then have f2: "s2 = OK" "contents f2 = contents f" using Flush_contents [of f] by (simp_all add: ok_def)
  have sep: "\<forall>i < length seps. seps ! i = cm_FindShortestSeparator (opt_comparator opt) (fst (last (?bss ! i))) (fst (hd ((?bss @ [[]]) ! Suc i)))"
    using assms len by (auto simp: tb_inv_def nth_append)
  have "tb_inv contents snappy opt (TB_Flush W snappy r) ?bss seps []"
    using assms False w f f2 fl i len lk np sep
    by (simp add: TB_Flush_def tb_inv_def Let_def index_entries_append)
  moreover have "tb_closed (TB_Flush W snappy r) = tb_closed r"
    using False w f fl i f2 by (simp add: TB_Flush_def Let_def)
  ultimately show ?thesis by (intro exI [of _ ?bss]) simp
qed

lemma TB_Add_inv:
  assumes "tb_inv contents snappy opt r bss seps cur" and "1 \<le> opt_block_restart_interval opt"
  shows "\<exists>bss' seps' cur'. tb_inv contents snappy opt (TB_Add W snappy k v r) bss' seps' cur' \<and>
    concat bss' @ cur' = concat bss @ cur @ [(k, v)] \<and> TB_Add_pre (r\<lparr>tb_closed := False\<rparr>)"
proof -
  let ?sep = "cm_FindShortestSeparator (opt_comparator opt) (tb_last_key r) k"
  let ?r1 = "if tb_pending_index_entry r then add_index_entry ?sep r else r"
  let ?seps = "if tb_pending_index_entry r then seps @ [?sep] else seps"
  let ?r2 = "?r1\<lparr>tb_filter_block := map_option (\<lambda>(p, b). (p, FB_AddKey k b)) (tb_filter_block ?r1),
                    tb_last_key := k, tb_num_entries := tb_num_entries ?r1 + 1,
                    tb_data_block := BB_Add (opt_block_restart_interval (tb_options ?r1)) k v (tb_data_block ?r1)\<rparr>"
  have inv: "tb_inv contents snappy opt ?r2 bss ?seps (cur @ [(k, v)])"
  proof (cases "tb_pending_index_entry r")
    case True
    then have "bss \<noteq> []" "length bss - 1 = length seps" using assms(1) by (auto simp: tb_inv_def)
    then have l: "last bss = bss ! length seps" by (simp add: last_conv_nth)
    have "\<forall>i < Suc (length seps). (seps @ [?sep]) ! i =
        cm_FindShortestSeparator (opt_comparator opt) (fst (last (bss ! i))) (fst (hd ((bss @ [[(k, v)]]) ! Suc i)))"
      using assms(1) True l by (auto simp: tb_inv_def nth_append less_Suc_eq)
    then show ?thesis
      using assms(1) True by (simp add: tb_inv_def add_index_entry_def index_options_def Let_def index_entries_snoc)
  next
    case False
    have "\<forall>i < length seps. seps ! i =
        cm_FindShortestSeparator (opt_comparator opt) (fst (last (bss ! i))) (fst (hd ((bss @ [cur @ [(k, v)]]) ! Suc i)))"
      using assms(1) False by (cases "cur = []") (auto simp: tb_inv_def nth_append)
    then show ?thesis using assms(1) False by (simp add: tb_inv_def)
  qed
  have add: "TB_Add W snappy k v r = (if BB_CurrentSizeEstimate (tb_data_block ?r2) \<ge> unat (opt_block_size (tb_options ?r2))
             then TB_Flush W snappy ?r2 else ?r2)"
    using assms(1) by (simp only: TB_Add_def tb_inv_def Let_def ok_simps not_True_eq_False if_False)
  have pre: "TB_Add_pre (r\<lparr>tb_closed := False\<rparr>)"
    using assms(1) by (auto simp: TB_Add_pre_def tb_inv_def split: if_splits)
  obtain bss' where fl: "tb_inv contents snappy opt (TB_Flush W snappy ?r2) bss' ?seps []" "concat bss' = concat bss @ cur @ [(k, v)]"
    using TB_Flush_inv [OF inv] by auto
  show ?thesis
  proof (cases "BB_CurrentSizeEstimate (tb_data_block ?r2) \<ge> unat (opt_block_size (tb_options ?r2))")
    case True
    show ?thesis unfolding add if_P [OF True] using fl pre by (intro exI [of _ bss'] exI [of _ ?seps] exI [of _ "[]"]) simp
  next
    case False
    show ?thesis unfolding add if_not_P [OF False] using inv pre by (intro exI [of _ bss] exI [of _ ?seps] exI [of _ "cur @ [(k, v)]"]) simp
  qed
qed

lemma TB_Adds_inv:
  assumes "tb_inv contents snappy opt r bss seps cur" and "1 \<le> opt_block_restart_interval opt"
  shows "\<exists>bss' seps' cur'. tb_inv contents snappy opt (foldl (\<lambda>r e. TB_Add W snappy (fst e) (snd e) r) r es) bss' seps' cur' \<and>
    concat bss' @ cur' = concat bss @ cur @ es"
  using assms(1)
proof (induction es arbitrary: r bss seps cur)
  case (Cons e es)
  obtain bss1 seps1 cur1 where 1: "tb_inv contents snappy opt (TB_Add W snappy (fst e) (snd e) r) bss1 seps1 cur1"
    "concat bss1 @ cur1 = concat bss @ cur @ [e]"
    using TB_Add_inv [OF Cons.prems assms(2), of "fst e" "snd e"] by auto
  have e: "concat bss1 @ cur1 @ es = concat bss @ cur @ e # es" using 1(2) by (metis append.assoc append_Cons append_Nil)
  show ?case using Cons.IH [OF 1(1)] unfolding e foldl.simps by blast
qed auto

lemma mk_TableBuilder_inv:
  "contents f = [] \<Longrightarrow> tb_inv contents snappy opt (mk_TableBuilder opt f) [] [] []"
  by (simp add: tb_inv_def mk_TableBuilder_def index_entries_def)

lemma finish_filter_ok:
  "tb_status r = OK \<Longrightarrow> \<exists>d. appended contents r d (snd (finish_filter W r))"
proof (cases "tb_filter_block r")
  case None
  then show "tb_status r = OK \<Longrightarrow> ?thesis" by (intro exI [of _ "[]"]) (auto simp: finish_filter_def appended_def)
next
  case (Some pb)
  obtain p b where pb: "pb = (p, b)" by fastforce
  obtain h r' where w: "WriteRawBlock W (FB_Finish (fp_CreateFilter p) b) kNoCompression r = (h, r')" by fastforce
  show "tb_status r = OK \<Longrightarrow> ?thesis"
    using WriteRawBlock_ok [OF w] Some pb w by (auto simp: finish_filter_def)
qed

lemma finish_metaindex_ok:
  assumes "tb_status r = OK"
  shows "\<exists>d. appended contents r d (snd (finish_metaindex W snappy fh r))"
proof -
  have mk: "\<exists>i es. mk_BlockBuilder = builder_of i es" by (intro exI [of _ 1] exI [of _ "[]"]) simp
  have add: "\<exists>i es. BB_Add n k v mk_BlockBuilder = builder_of i es" for n k v
    by (intro exI [of _ n] exI [of _ "[(k, v)]"]) simp
  have "\<exists>interval es. (case (tb_filter_block r, opt_filter_policy (tb_options r)) of
      (Some _, Some policy) \<Rightarrow>
        BB_Add (opt_block_restart_interval (tb_options r)) (str ''filter.'' @ fp_Name policy) (BH_EncodeTo fh []) mk_BlockBuilder
    | _ \<Rightarrow> mk_BlockBuilder) = builder_of interval es"
    using mk add by (simp split: option.split)
  then obtain interval es where m: "(case (tb_filter_block r, opt_filter_policy (tb_options r)) of
      (Some _, Some policy) \<Rightarrow>
        BB_Add (opt_block_restart_interval (tb_options r)) (str ''filter.'' @ fp_Name policy) (BH_EncodeTo fh []) mk_BlockBuilder
    | _ \<Rightarrow> mk_BlockBuilder) = builder_of interval es" by blast
  obtain b h r' where w: "WriteBlock W snappy (builder_of interval es) r = (b, h, r')" by (metis prod.exhaust)
  then have "snd (finish_metaindex W snappy fh r) = r'"
    using assms unfolding finish_metaindex_def m by simp
  then show ?thesis using WriteBlock_ok [OF w] by blast
qed

lemma finish_index_ok:
  assumes "tb_status r = OK" and "tb_index_block r = builder_of 1 idx" and "tb_index_block_options r = index_options opt"
  defines "idx' \<equiv> (if tb_pending_index_entry r
    then idx @ [(cm_FindShortSuccessor (opt_comparator (tb_options r)) (tb_last_key r), BH_EncodeTo (tb_pending_handle r) [])] else idx)"
  shows "\<exists>r1. finish_index W snappy r = (\<lparr>bh_offset = tb_offset r, bh_size = of_nat (stored_len snappy (tb_options r) (block_of 1 idx'))\<rparr>, r1) \<and>
    tb_status r1 = OK \<and> tb_closed r1 = tb_closed r \<and>
    contents (tb_file r1) = contents (tb_file r) @ stored_raw snappy (tb_options r) (block_of 1 idx') \<and>
    tb_offset r1 = tb_offset r + of_nat (length (stored_raw snappy (tb_options r) (block_of 1 idx')))"
proof -
  let ?r = "if tb_pending_index_entry r
      then add_index_entry (cm_FindShortSuccessor (opt_comparator (tb_options r)) (tb_last_key r)) r else r"
  have r: "tb_index_block ?r = builder_of 1 idx'" "tb_options ?r = tb_options r" "tb_offset ?r = tb_offset r"
    "tb_file ?r = tb_file r" "tb_closed ?r = tb_closed r"
    using assms by (auto simp: add_index_entry_def Let_def index_options_def idx'_def)
  obtain b h r' where w: "WriteBlock W snappy (builder_of 1 idx') ?r = (b, h, r')" by (metis prod.exhaust)
  have "finish_index W snappy r = (h, r'\<lparr>tb_index_block := b\<rparr>)"
    using assms(1) w unfolding finish_index_def r(1) [symmetric] by (simp add: Let_def)
  then show ?thesis using WriteBlock_ok [OF w] r by (auto simp: appended_def)
qed

lemma finish_footer_ok:
  assumes "tb_status r = OK"
  shows "appended contents r (Footer_EncodeTo \<lparr>ft_metaindex_handle = m, ft_index_handle = i\<rparr> []) (finish_footer W m i r)"
proof -
  let ?d = "Footer_EncodeTo \<lparr>ft_metaindex_handle = m, ft_index_handle = i\<rparr> []"
  obtain f s where "wf_Append W (tb_file r) ?d = (f, s)" by fastforce
  then show ?thesis using Append_contents [of "tb_file r" ?d] assms by (auto simp: finish_footer_def appended_def Let_def ok_def)
qed

lemma TB_Finish_file:
  assumes "tb_inv contents snappy opt r bss seps cur"
  shows "\<exists>r' bss' keys mid m. TB_Finish W snappy r = (OK, r') \<and> tb_closed r' \<and>
    concat bss' = concat bss @ cur \<and> table_blocks opt bss' keys \<and>
    contents (tb_file r') = table_bytes snappy opt bss' keys mid m \<and>
    tb_offset r' = of_nat (length (contents (tb_file r')))"
proof -
  obtain bss' where fl: "tb_inv contents snappy opt (TB_Flush W snappy r) bss' seps []" "concat bss' = concat bss @ cur"
    using TB_Flush_inv [OF assms] by blast
  define r0 where "r0 = (TB_Flush W snappy r)\<lparr>tb_closed := True\<rparr>"
  have inv: "tb_inv contents snappy opt r0 bss' seps []" using fl(1) by (simp add: r0_def)
  obtain fh r1 d1 where r1: "finish_filter W r0 = (fh, r1)" "appended contents r0 d1 r1"
    using finish_filter_ok [of r0] inv by (metis prod.collapse tb_inv_def)
  obtain mh r2 d2 where r2: "finish_metaindex W snappy fh r1 = (mh, r2)" "appended contents r1 d2 r2"
    using finish_metaindex_ok [of r1] appendedD [OF r1(2)] by (metis prod.collapse)
  define idx where "idx = index_entries snappy opt bss' seps"
  define keys where "keys = (if tb_pending_index_entry r0
    then seps @ [cm_FindShortSuccessor (opt_comparator opt) (tb_last_key r0)] else seps)"
  have idx: "index_entries snappy opt bss' keys = (if tb_pending_index_entry r2
    then idx @ [(cm_FindShortSuccessor (opt_comparator (tb_options r2)) (tb_last_key r2), BH_EncodeTo (tb_pending_handle r2) [])] else idx)"
    using inv appendedD [OF r1(2)] appendedD [OF r2(2)]
    by (simp add: keys_def idx_def index_entries_snoc tb_inv_def)
  have "tb_status r2 = OK" "tb_index_block r2 = builder_of 1 idx" "tb_index_block_options r2 = index_options opt"
    using inv appendedD [OF r1(2)] appendedD [OF r2(2)] by (simp_all add: tb_inv_def idx_def)
  from finish_index_ok [OF this, of snappy] obtain ih r3 where r3: "finish_index W snappy r2 = (ih, r3)"
    "ih = \<lparr>bh_offset = tb_offset r2, bh_size = of_nat (stored_len snappy opt (index_raw snappy opt bss' keys))\<rparr>"
    "tb_status r3 = OK" "tb_closed r3 = tb_closed r2"
    "contents (tb_file r3) = contents (tb_file r2) @ stored_raw snappy opt (index_raw snappy opt bss' keys)"
    "tb_offset r3 = tb_offset r2 + of_nat (length (stored_raw snappy opt (index_raw snappy opt bss' keys)))"
    unfolding idx [symmetric] index_raw_def [symmetric]
    using inv appendedD [OF r1(2)] appendedD [OF r2(2)] by (auto simp: tb_inv_def)
  let ?r = "finish_footer W mh ih r3"
  note ft = appendedD [OF finish_footer_ok [OF r3(3), of mh ih]]
  have fin: "TB_Finish W snappy r = (OK, ?r)"
    unfolding TB_Finish_def Let_def r0_def [symmetric] by (simp add: r1(1) r2(1) r3(1) ft)
  have c2: "contents (tb_file r2) = data_bytes snappy opt bss' @ d1 @ d2" "tb_closed r2"
      "tb_offset r2 = of_nat (length (data_bytes snappy opt bss' @ d1 @ d2))"
    using inv appendedD [OF r1(2)] appendedD [OF r2(2)] by (simp_all add: tb_inv_def r0_def)
  have "last bss' = bss' ! length seps" if "tb_pending_index_entry r0"
    using inv that by (cases bss' rule: rev_cases) (auto simp: tb_inv_def nth_append)
  then have "table_blocks opt bss' keys"
    using inv by (auto simp: table_blocks_def keys_def tb_inv_def nth_append less_Suc_eq split: if_splits)
  moreover have "contents (tb_file ?r) = table_bytes snappy opt bss' keys (d1 @ d2) mh"
    using ft r3 c2 by (simp add: table_bytes_def)
  moreover have "tb_offset ?r = of_nat (length (contents (tb_file ?r)))"
    using ft r3 c2 by simp
  ultimately show ?thesis using fin fl(2) ft r3(4) c2(2) by blast
qed

lemma TB_build:
  assumes "contents f = []" and "1 \<le> opt_block_restart_interval opt"
  shows "\<exists>r bss keys mid m.
    TB_Finish W snappy (foldl (\<lambda>r e. TB_Add W snappy (fst e) (snd e) r) (mk_TableBuilder opt f) es) = (OK, r) \<and>
    concat bss = es \<and> table_blocks opt bss keys \<and> contents (tb_file r) = table_bytes snappy opt bss keys mid m \<and>
    tb_offset r = of_nat (length (contents (tb_file r)))"
proof -
  obtain bss seps cur where
    "tb_inv contents snappy opt (foldl (\<lambda>r e. TB_Add W snappy (fst e) (snd e) r) (mk_TableBuilder opt f) es) bss seps cur"
    "concat bss @ cur = es"
    using TB_Adds_inv [OF mk_TableBuilder_inv [OF assms(1)] assms(2), of snappy es] by auto
  then show ?thesis using TB_Finish_file by blast
qed

end

text \<open>A file in memory.\<close>

definition mem_WritableFile :: "bytes WritableFile" where
  "mem_WritableFile = \<lparr>wf_Append = \<lambda>f d. (f @ d, OK), wf_Flush = \<lambda>f. (f, OK), wf_Sync = \<lambda>f. (f, OK), wf_Close = \<lambda>f. (f, OK)\<rparr>"

interpretation memout: appendable mem_WritableFile "\<lambda>f. f"
  by unfold_locales (simp_all add: mem_WritableFile_def)


section \<open>Files that fail\<close>

text \<open>The builders that are reached by calls on any file, whatever its operations return.\<close>

inductive tb_reach :: "'f WritableFile \<Rightarrow> Snappy \<Rightarrow> 'f TableBuilder \<Rightarrow> bool" for W snappy where
  tb_new: "tb_reach W snappy (mk_TableBuilder opt f)"
| tb_add: "tb_reach W snappy r \<Longrightarrow> tb_reach W snappy (TB_Add W snappy k v r)"
| tb_flush: "tb_reach W snappy r \<Longrightarrow> tb_reach W snappy (TB_Flush W snappy r)"
| tb_change: "tb_reach W snappy r \<Longrightarrow> tb_reach W snappy (snd (TB_ChangeOptions opt r))"

lemma WriteRawBlock_frame:
  "tb_data_block (snd (WriteRawBlock W c t r)) = tb_data_block r \<and> tb_closed (snd (WriteRawBlock W c t r)) = tb_closed r \<and>
   tb_pending_index_entry (snd (WriteRawBlock W c t r)) = tb_pending_index_entry r"
  by (simp add: WriteRawBlock_def Let_def split: prod.split)

lemma WriteBlock_frame:
  "WriteBlock W snappy b r = (b', h, r') \<Longrightarrow> b' = mk_BlockBuilder \<and> tb_closed r' = tb_closed r \<and>
    tb_pending_index_entry r' = tb_pending_index_entry r"
  using WriteRawBlock_frame [of W _ _ r] by (auto simp: WriteBlock_def Let_def split: prod.splits) (metis snd_conv)+

lemma TB_Flush_frame:
  "tb_closed (TB_Flush W snappy r) = tb_closed r \<and>
   (tb_pending_index_entry (TB_Flush W snappy r) \<longrightarrow>
      BB_empty (tb_data_block (TB_Flush W snappy r)) \<or> TB_Flush W snappy r = r)"
proof -
  obtain b' h r' where w: "WriteBlock W snappy (tb_data_block r) r = (b', h, r')" by (metis prod.exhaust)
  show ?thesis using WriteBlock_frame [OF w] w by (simp add: TB_Flush_def Let_def split: prod.split)
qed

lemma TB_Add_frame:
  "tb_closed (TB_Add W snappy k v r) = tb_closed r \<and>
   (tb_pending_index_entry (TB_Add W snappy k v r) \<longrightarrow>
      BB_empty (tb_data_block (TB_Add W snappy k v r)) \<or> TB_Add W snappy k v r = r)"
proof -
  have "tb_pending_index_entry (TB_Flush W snappy r) \<Longrightarrow> \<not> tb_pending_index_entry r \<Longrightarrow>
    BB_empty (tb_data_block (TB_Flush W snappy r))" for r :: "'a TableBuilder"
    using TB_Flush_frame [of W snappy r] by auto
  moreover have "\<not> tb_pending_index_entry (add_index_entry s r)" "tb_closed (add_index_entry s r) = tb_closed r" for s
    by (simp_all add: add_index_entry_def)
  ultimately show ?thesis by (simp add: TB_Add_def Let_def TB_Flush_frame)
qed

text \<open>C33: the invariant that the comment in \<^verbatim>\<open>TableBuilder::Rep\<close> states.  Whatever the file answers,
  after any calls of \<open>Add\<close>, \<open>Flush\<close> and \<open>ChangeOptions\<close> an index entry is pending only
  while the data block is empty, so the assertions of \<open>Add\<close> hold; and once a write has failed,
  \<open>Add\<close> and \<open>Flush\<close> change nothing and \<open>Finish\<close> writes nothing and returns that error.\<close>

theorem table_builder_invariant:
  assumes "tb_reach W snappy r"
  shows "TB_Add_pre r \<and>
    (\<not> ok (tb_status r) \<longrightarrow> TB_Add W snappy k v r = r \<and> TB_Flush W snappy r = r \<and>
       TB_Finish W snappy r = (tb_status r, r\<lparr>tb_closed := True\<rparr>))"
proof -
  have "TB_Add_pre r" using assms
  proof induction
    case (tb_add r k v)
    then show ?case using TB_Add_frame [of W snappy k v r] by (auto simp: TB_Add_pre_def)
  next
    case (tb_flush r)
    then show ?case using TB_Flush_frame [of W snappy r] by (auto simp: TB_Add_pre_def)
  qed (auto simp: TB_Add_pre_def mk_TableBuilder_def TB_ChangeOptions_def)
  then show ?thesis
    by (auto simp: TB_Add_def TB_Flush_def TB_Finish_def finish_filter_def finish_metaindex_def finish_index_def
        finish_footer_def Let_def split: option.split prod.split)
qed

definition full_disk :: "unit WritableFile" where
  "full_disk = \<lparr>wf_Append = \<lambda>f d. (f, IOError (str ''no space left'') []), wf_Flush = \<lambda>f. (f, OK), wf_Sync = \<lambda>f. (f, OK), wf_Close = \<lambda>f. (f, OK)\<rparr>"

definition no_snappy :: Snappy where
  "no_snappy = \<lparr>sn_Compress = \<lambda>_. None, sn_GetUncompressedLength = \<lambda>_. None, sn_Uncompress = \<lambda>_. None\<rparr>"

theorem table_builder_invariant_witness:
  "\<exists>r. tb_reach full_disk no_snappy r \<and> \<not> ok (tb_status r) \<and> TB_Add full_disk no_snappy [1] [2] r = r"
proof -
  let ?r = "TB_Flush full_disk no_snappy (TB_Add full_disk no_snappy [7] [8] (mk_TableBuilder (mk_Options 0) ()))"
  have reach: "tb_reach full_disk no_snappy ?r" by (intro tb_flush tb_add tb_new)
  moreover have "\<not> ok (tb_status ?r)"
    by (simp add: TB_Flush_def TB_Add_def mk_TableBuilder_def mk_Options_def full_disk_def no_snappy_def WriteBlock_def
        WriteRawBlock_def stored_form_def BB_empty_def BB_Add_def mk_BlockBuilder_def PutVarint32_def EncodeVarint32_def
        BB_CurrentSizeEstimate_def BB_Finish_def Let_def constants split: prod.split)
  ultimately show ?thesis using table_builder_invariant [OF reach, of "[1]" "[2]"] by blast
qed

end
