(* ===== verification/Cache.thy ===== *)
theory Cache
  imports Hash
begin

text \<open>
  The sharded LRU cache, \<^verbatim>\<open>util/cache.cc\<close>.  Entries live in a store of addresses, as the
  heap-allocated handles of the code do, so that freeing an entry and using a handle after that
  is visible.  The chains of the hash table and the circular list of a shard are lists of
  addresses, the latter from \<open>lru_.next\<close>, the oldest, to \<open>lru_.prev\<close>.  The calls of the
  deleter are recorded.  The mutexes make each operation atomic and are left out.
\<close>

unbundle bit_operations_syntax

section \<open>Handles and the hash table\<close>

record 'v LRUHandle =
  lh_value :: 'v
  lh_charge :: nat
  lh_key :: bytes
  lh_refs :: nat
  lh_hash :: u32

type_synonym 'v store = "nat \<Rightarrow> 'v LRUHandle option"

record HandleTable =
  ht_length :: nat
  ht_elems :: nat
  ht_list :: "nat list list"

definition ht_bucket :: "nat \<Rightarrow> u32 \<Rightarrow> nat" where
  "ht_bucket len hash = unat (hash AND (of_nat len - 1))"

text \<open>\<open>FindPointer\<close>: the slot in the chain of the bucket, its end when there is no match.\<close>

definition FindPointer :: "'v store \<Rightarrow> HandleTable \<Rightarrow> bytes \<Rightarrow> u32 \<Rightarrow> nat" where
  "FindPointer store t key hash =
    length (takeWhile (\<lambda>p. lh_hash (the (store p)) \<noteq> hash \<or> key \<noteq> lh_key (the (store p)))
      (ht_list t ! ht_bucket (ht_length t) hash))"

definition HT_Lookup :: "'v store \<Rightarrow> HandleTable \<Rightarrow> bytes \<Rightarrow> u32 \<Rightarrow> nat option" where
  "HT_Lookup store t key hash =
    (let chain = ht_list t ! ht_bucket (ht_length t) hash; p = FindPointer store t key hash
     in if p < length chain then Some (chain ! p) else None)"

function resize_length :: "nat \<Rightarrow> nat \<Rightarrow> nat" where
  "resize_length new_length elems =
    (if new_length < elems \<and> 0 < new_length then resize_length (2 * new_length) elems else new_length)"
  by pat_completeness auto
termination
  by (relation "measure (\<lambda>(n, e). e - n)") auto

declare resize_length.simps [simp del]

definition HT_Resize :: "'v store \<Rightarrow> HandleTable \<Rightarrow> HandleTable" where
  "HT_Resize store t =
    (let new_length = resize_length 4 (ht_elems t);
         new_list = fold (\<lambda>h l. let b = ht_bucket new_length (lh_hash (the (store h))) in l[b := h # l ! b])
           (concat (ht_list t)) (replicate new_length [])
     in t\<lparr>ht_list := new_list, ht_length := new_length\<rparr>)"

definition mk_HandleTable :: HandleTable where
  "mk_HandleTable = HT_Resize (\<lambda>_. None :: unit LRUHandle option) \<lparr>ht_length = 0, ht_elems = 0, ht_list = []\<rparr>"

definition HT_Insert :: "'v store \<Rightarrow> nat \<Rightarrow> HandleTable \<Rightarrow> nat option \<times> HandleTable" where
  "HT_Insert store h t =
    (let key = lh_key (the (store h)); hash = lh_hash (the (store h));
         b = ht_bucket (ht_length t) hash; chain = ht_list t ! b; p = FindPointer store t key hash
     in if p < length chain
        then (Some (chain ! p), t\<lparr>ht_list := (ht_list t)[b := chain[p := h]]\<rparr>)
        else let t = t\<lparr>ht_list := (ht_list t)[b := chain @ [h]], ht_elems := ht_elems t + 1\<rparr>
             in (None, if ht_elems t > ht_length t then HT_Resize store t else t))"

definition HT_Remove :: "'v store \<Rightarrow> bytes \<Rightarrow> u32 \<Rightarrow> HandleTable \<Rightarrow> nat option \<times> HandleTable" where
  "HT_Remove store key hash t =
    (let b = ht_bucket (ht_length t) hash; chain = ht_list t ! b; p = FindPointer store t key hash
     in if p < length chain
        then (Some (chain ! p), t\<lparr>ht_list := (ht_list t)[b := take p chain @ drop (Suc p) chain], ht_elems := ht_elems t - 1\<rparr>)
        else (None, t))"

section \<open>One shard\<close>

record 'v LRUCache =
  lc_capacity :: nat
  lc_usage :: nat
  lc_lru :: "nat list"
  lc_table :: HandleTable
  lc_store :: "'v store"
  lc_fresh :: nat
  lc_deleted :: "(bytes \<times> 'v) list"

definition mk_LRUCache :: "nat \<Rightarrow> 'v LRUCache" where
  "mk_LRUCache capacity =
    \<lparr>lc_capacity = capacity, lc_usage = 0, lc_lru = [], lc_table = mk_HandleTable, lc_store = (\<lambda>_. None),
     lc_fresh = 0, lc_deleted = []\<rparr>"

definition LC_Unref :: "nat \<Rightarrow> 'v LRUCache \<Rightarrow> 'v LRUCache" where
  "LC_Unref a c =
    (let e = the (lc_store c a); e = e\<lparr>lh_refs := lh_refs e - 1\<rparr>
     in if lh_refs e = 0
        then c\<lparr>lc_usage := lc_usage c - lh_charge e, lc_deleted := lc_deleted c @ [(lh_key e, lh_value e)],
               lc_store := (lc_store c)(a := None)\<rparr>
        else c\<lparr>lc_store := (lc_store c)(a \<mapsto> e)\<rparr>)"

definition LRU_Remove :: "nat \<Rightarrow> 'v LRUCache \<Rightarrow> 'v LRUCache" where
  "LRU_Remove a c = c\<lparr>lc_lru := remove1 a (lc_lru c)\<rparr>"

definition LRU_Append :: "nat \<Rightarrow> 'v LRUCache \<Rightarrow> 'v LRUCache" where
  "LRU_Append a c = c\<lparr>lc_lru := lc_lru c @ [a]\<rparr>"

definition LC_Lookup :: "bytes \<Rightarrow> u32 \<Rightarrow> 'v LRUCache \<Rightarrow> nat option \<times> 'v LRUCache" where
  "LC_Lookup key hash c =
    (case HT_Lookup (lc_store c) (lc_table c) key hash of
       None \<Rightarrow> (None, c)
     | Some a \<Rightarrow>
         let e = the (lc_store c a);
             c = c\<lparr>lc_store := (lc_store c)(a \<mapsto> e\<lparr>lh_refs := lh_refs e + 1\<rparr>)\<rparr>
         in (Some a, LRU_Append a (LRU_Remove a c)))"

definition LC_Release :: "nat \<Rightarrow> 'v LRUCache \<Rightarrow> 'v LRUCache" where
  "LC_Release handle c = LC_Unref handle c"

text \<open>The body of the eviction loop, and the loop.\<close>

definition evict_oldest :: "'v LRUCache \<Rightarrow> 'v LRUCache" where
  "evict_oldest c =
    (let old = hd (lc_lru c);
         c = LRU_Remove old c;
         e = the (lc_store c old);
         c = c\<lparr>lc_table := snd (HT_Remove (lc_store c) (lh_key e) (lh_hash e) (lc_table c))\<rparr>
     in LC_Unref old c)"

lemma evict_oldest_lru [simp]: "lc_lru (evict_oldest c) = remove1 (hd (lc_lru c)) (lc_lru c)"
  by (simp add: evict_oldest_def LRU_Remove_def LC_Unref_def Let_def)

function evict_loop :: "'v LRUCache \<Rightarrow> 'v LRUCache" where
  "evict_loop c = (if lc_usage c > lc_capacity c \<and> lc_lru c \<noteq> [] then evict_loop (evict_oldest c) else c)"
  by pat_completeness auto
termination
  by (relation "measure (\<lambda>c. length (lc_lru c))") (auto simp: length_remove1)

declare evict_loop.simps [simp del]

definition LC_Insert :: "bytes \<Rightarrow> u32 \<Rightarrow> 'v \<Rightarrow> nat \<Rightarrow> 'v LRUCache \<Rightarrow> nat \<times> 'v LRUCache" where
  "LC_Insert key hash value charge c =
    (let a = lc_fresh c;
         e = \<lparr>lh_value = value, lh_charge = charge, lh_key = key, lh_refs = 2, lh_hash = hash\<rparr>;
         c = LRU_Append a (c\<lparr>lc_store := (lc_store c)(a \<mapsto> e), lc_fresh := Suc a\<rparr>);
         c = c\<lparr>lc_usage := lc_usage c + charge\<rparr>;
         (old, t) = HT_Insert (lc_store c) a (lc_table c);
         c = c\<lparr>lc_table := t\<rparr>;
         c = (case old of Some old \<Rightarrow> LC_Unref old (LRU_Remove old c) | None \<Rightarrow> c)
     in (a, evict_loop c))"

definition LC_Erase :: "bytes \<Rightarrow> u32 \<Rightarrow> 'v LRUCache \<Rightarrow> 'v LRUCache" where
  "LC_Erase key hash c =
    (let (e, t) = HT_Remove (lc_store c) key hash (lc_table c);
         c = c\<lparr>lc_table := t\<rparr>
     in case e of Some a \<Rightarrow> LC_Unref a (LRU_Remove a c) | None \<Rightarrow> c)"

section \<open>The shards\<close>

definition kNumShardBits :: nat where [constants]: "kNumShardBits = 4"
definition kNumShards :: nat where [constants]: "kNumShards = push_bit kNumShardBits 1"

record 'v ShardedLRUCache =
  sc_shard :: "'v LRUCache list"
  sc_last_id :: u64

text \<open>A handle with the hash that is stored in its entry.\<close>

type_synonym CacheHandle = "nat \<times> u32"

definition HashSlice :: "bytes \<Rightarrow> u32" where "HashSlice s = Hash s 0"

definition Shard :: "u32 \<Rightarrow> nat" where "Shard hash = unat (drop_bit (32 - kNumShardBits) hash)"

definition mk_ShardedLRUCache :: "nat \<Rightarrow> 'v ShardedLRUCache" where
  "mk_ShardedLRUCache capacity =
    \<lparr>sc_shard = replicate kNumShards (mk_LRUCache ((capacity + (kNumShards - 1)) div kNumShards)), sc_last_id = 0\<rparr>"

definition SC_Insert :: "bytes \<Rightarrow> 'v \<Rightarrow> nat \<Rightarrow> 'v ShardedLRUCache \<Rightarrow> CacheHandle \<times> 'v ShardedLRUCache" where
  "SC_Insert key value charge c =
    (let hash = HashSlice key; i = Shard hash; (a, shard) = LC_Insert key hash value charge (sc_shard c ! i)
     in ((a, hash), c\<lparr>sc_shard := (sc_shard c)[i := shard]\<rparr>))"

definition SC_Lookup :: "bytes \<Rightarrow> 'v ShardedLRUCache \<Rightarrow> CacheHandle option \<times> 'v ShardedLRUCache" where
  "SC_Lookup key c =
    (let hash = HashSlice key; i = Shard hash; (a, shard) = LC_Lookup key hash (sc_shard c ! i)
     in (map_option (\<lambda>a. (a, hash)) a, c\<lparr>sc_shard := (sc_shard c)[i := shard]\<rparr>))"

definition SC_Release :: "CacheHandle \<Rightarrow> 'v ShardedLRUCache \<Rightarrow> 'v ShardedLRUCache" where
  "SC_Release handle c =
    (let i = Shard (snd handle) in c\<lparr>sc_shard := (sc_shard c)[i := LC_Release (fst handle) (sc_shard c ! i)]\<rparr>)"

definition SC_Erase :: "bytes \<Rightarrow> 'v ShardedLRUCache \<Rightarrow> 'v ShardedLRUCache" where
  "SC_Erase key c =
    (let hash = HashSlice key; i = Shard hash in c\<lparr>sc_shard := (sc_shard c)[i := LC_Erase key hash (sc_shard c ! i)]\<rparr>)"

definition SC_Value :: "CacheHandle \<Rightarrow> 'v ShardedLRUCache \<Rightarrow> 'v" where
  "SC_Value handle c = lh_value (the (lc_store (sc_shard c ! Shard (snd handle)) (fst handle)))"

definition SC_NewId :: "'v ShardedLRUCache \<Rightarrow> u64 \<times> 'v ShardedLRUCache" where
  "SC_NewId c = (let i = sc_last_id c + 1 in (i, c\<lparr>sc_last_id := i\<rparr>))"


section \<open>The hash table is a set of entries\<close>

lemma ht_bucket_less: "0 < len \<Longrightarrow> ht_bucket len hash < len"
proof -
  assume len: "0 < len"
  have le: "ht_bucket len hash \<le> unat (of_nat len - 1 :: u32)"
    unfolding ht_bucket_def by (simp add: word_and_le1 flip: word_le_nat_alt)
  have "unat (of_nat len - 1 :: u32) < len"
  proof (cases "(of_nat len :: u32) = 0")
    case True
    then have "(2 :: nat) ^ 32 dvd len" by (simp add: word_of_nat_eq_0_iff)
    then have "2 ^ 32 \<le> len" using len by (rule dvd_imp_le)
    moreover have "unat (- 1 :: u32) < 2 ^ 32" using unsigned_less [of "- 1 :: u32"] by simp
    ultimately show ?thesis using True by simp
  next
    case False
    then have "unat (of_nat len - 1 :: u32) = unat (of_nat len :: u32) - 1" "0 < unat (of_nat len :: u32)"
      by (simp_all add: unat_minus_one unat_gt_0)
    moreover have "unat (of_nat len :: u32) \<le> len" by (simp add: unat_of_nat)
    ultimately show ?thesis by simp
  qed
  then show ?thesis using le by simp
qed

definition ht_ok :: "'v store \<Rightarrow> HandleTable \<Rightarrow> nat set \<Rightarrow> bool" where
  "ht_ok store t S \<longleftrightarrow> length (ht_list t) = ht_length t \<and> 0 < ht_length t \<and> S = (\<Union>b < ht_length t. set (ht_list t ! b)) \<and>
     ht_elems t = card S \<and>
     (\<forall>b < ht_length t. distinct (ht_list t ! b) \<and>
        (\<forall>a \<in> set (ht_list t ! b). ht_bucket (ht_length t) (lh_hash (the (store a))) = b))"

definition entry_id :: "'v store \<Rightarrow> nat \<Rightarrow> bytes \<times> u32" where
  "entry_id store a = (lh_key (the (store a)), lh_hash (the (store a)))"

lemma ht_ok_mem:
  assumes "ht_ok store t S"
  shows "a \<in> S \<longleftrightarrow> a \<in> set (ht_list t ! ht_bucket (ht_length t) (lh_hash (the (store a))))"
proof
  assume "a \<in> S"
  then obtain b where "b < ht_length t" "a \<in> set (ht_list t ! b)"
    using assms by (auto simp: ht_ok_def)
  then show "a \<in> set (ht_list t ! ht_bucket (ht_length t) (lh_hash (the (store a))))"
    using assms by (auto simp: ht_ok_def)
next
  assume "a \<in> set (ht_list t ! ht_bucket (ht_length t) (lh_hash (the (store a))))"
  moreover have "ht_bucket (ht_length t) (lh_hash (the (store a))) < length (ht_list t)"
    using assms by (simp add: ht_ok_def ht_bucket_less)
  ultimately show "a \<in> S" using assms by (auto simp: ht_ok_def)
qed

lemma ht_ok_cong:
  assumes "\<And>a. a \<in> S \<Longrightarrow> entry_id store' a = entry_id store a" and "ht_ok store t S"
  shows "ht_ok store' t S"
proof -
  have "lh_hash (the (store' a)) = lh_hash (the (store a))" if "b < ht_length t" "a \<in> set (ht_list t ! b)" for a b
    using assms(1) [of a] assms(2) that by (auto simp: ht_ok_def entry_id_def)
  then show ?thesis using assms(2) by (auto simp: ht_ok_def)
qed

lemma length_takeWhile_less: "length (takeWhile P xs) < length xs \<longleftrightarrow> (\<exists>x \<in> set xs. \<not> P x)"
  by (induction xs) auto

text \<open>The slot \<open>FindPointer\<close> gives holds the matching entry, if there is one.\<close>

lemma FindPointer_ok:
  fixes key hash
  assumes "ht_ok store t S" and "inj_on (entry_id store) S"
  defines "chain \<equiv> ht_list t ! ht_bucket (ht_length t) hash" and "p \<equiv> FindPointer store t key hash"
  shows "p < length chain \<Longrightarrow> chain ! p \<in> S \<and> entry_id store (chain ! p) = (key, hash)"
    and "a \<in> S \<Longrightarrow> entry_id store a = (key, hash) \<Longrightarrow> p < length chain \<and> chain ! p = a"
proof -
  let ?P = "\<lambda>p. lh_hash (the (store p)) \<noteq> hash \<or> key \<noteq> lh_key (the (store p))"
  have p: "p = length (takeWhile ?P chain)" by (simp add: p_def chain_def FindPointer_def)
  show *: "chain ! p \<in> S \<and> entry_id store (chain ! p) = (key, hash)" if "p < length chain"
  proof -
    have "\<not> ?P (chain ! p)" using that nth_length_takeWhile [of ?P chain] by (simp add: p)
    then have "entry_id store (chain ! p) = (key, hash)" by (simp add: entry_id_def)
    moreover have "chain ! p \<in> set chain" using that by simp
    ultimately show ?thesis using ht_ok_mem [OF assms(1), of "chain ! p"] by (simp add: entry_id_def chain_def)
  qed
  show "p < length chain \<and> chain ! p = a" if a: "a \<in> S" "entry_id store a = (key, hash)"
  proof -
    have m: "a \<in> set chain" using ht_ok_mem [OF assms(1), of a] a by (simp add: entry_id_def chain_def)
    have "\<not> ?P a" using a(2) by (simp add: entry_id_def)
    then have "p < length chain" unfolding p length_takeWhile_less using m by blast
    then show ?thesis using * a assms(2) by (metis inj_onD)
  qed
qed

lemma HT_Lookup_ok:
  assumes "ht_ok store t S" and "inj_on (entry_id store) S"
  shows "HT_Lookup store t key hash = Some a \<longleftrightarrow> a \<in> S \<and> entry_id store a = (key, hash)"
  using FindPointer_ok [OF assms, where key = key and hash = hash] by (auto simp: HT_Lookup_def Let_def)

lemma HT_update:
  assumes "ht_ok store t S" and "b < ht_length t" and "distinct c"
    and "\<forall>a \<in> set c. ht_bucket (ht_length t) (lh_hash (the (store a))) = b"
    and "S' = (S - set (ht_list t ! b)) \<union> set c" and "n = card S'"
  shows "ht_ok store (t\<lparr>ht_list := (ht_list t)[b := c], ht_elems := n\<rparr>) S'"
proof -
  have len: "length (ht_list t) = ht_length t" using assms(1) by (simp add: ht_ok_def)
  have disj: "set (ht_list t ! i) \<inter> set (ht_list t ! b) = {}" if "i < ht_length t" "i \<noteq> b" for i
  proof -
    have "\<forall>a \<in> set (ht_list t ! i). ht_bucket (ht_length t) (lh_hash (the (store a))) = i"
      "\<forall>a \<in> set (ht_list t ! b). ht_bucket (ht_length t) (lh_hash (the (store a))) = b"
      using assms(1,2) that by (simp_all add: ht_ok_def)
    then show ?thesis using that(2) by auto
  qed
  have S: "S = (\<Union>b < ht_length t. set (ht_list t ! b))" using assms(1) by (simp add: ht_ok_def)
  have "(\<Union>i < ht_length t. set ((ht_list t)[b := c] ! i)) = S'"
  proof -
    have "(\<Union>i < ht_length t. set ((ht_list t)[b := c] ! i)) = (\<Union>i \<in> {..<ht_length t} - {b}. set (ht_list t ! i)) \<union> set c"
      using assms(2) len by (auto simp: nth_list_update split: if_splits)
    also have "(\<Union>i \<in> {..<ht_length t} - {b}. set (ht_list t ! i)) = S - set (ht_list t ! b)"
      unfolding S using assms(2) disj by auto
    finally show ?thesis using assms(5) by simp
  qed
  then show ?thesis using assms len by (auto simp: ht_ok_def nth_list_update)
qed

lemma resize_length_pos: "0 < n \<Longrightarrow> 0 < resize_length n e"
  by (induction n e rule: resize_length.induct) (subst resize_length.simps, simp)

lemma resize_fold:
  fixes store :: "'v store"
  assumes "length l = n" and "0 < n"
  defines "f \<equiv> (\<lambda>h l. let b = ht_bucket n (lh_hash (the (store h))) in l[b := h # l ! b])"
  shows "length (fold f xs l) = n \<and>
    (\<forall>b < n. fold f xs l ! b = rev (filter (\<lambda>h. ht_bucket n (lh_hash (the (store h))) = b) xs) @ l ! b)"
  using assms(1)
proof (induction xs arbitrary: l)
  case (Cons x xs)
  have "length (f x l) = n" using Cons.prems by (simp add: f_def Let_def)
  moreover have "f x l ! b = (if ht_bucket n (lh_hash (the (store x))) = b then x # l ! b else l ! b)" if "b < n" for b
    using that Cons.prems by (auto simp: f_def Let_def nth_list_update)
  ultimately show ?case using Cons.IH [of "f x l"] by simp
qed simp

lemma distinct_concat_indexed:
  "(\<And>b. b < length xs \<Longrightarrow> distinct (xs ! b) \<and> (\<forall>a \<in> set (xs ! b). g a = b + n)) \<Longrightarrow> distinct (concat xs)"
proof (induction xs arbitrary: n)
  case (Cons x xs)
  have "distinct (concat xs)"
  proof (rule Cons.IH [of "Suc n"])
    fix b assume "b < length xs"
    then show "distinct (xs ! b) \<and> (\<forall>a \<in> set (xs ! b). g a = b + Suc n)" using Cons.prems [of "Suc b"] by simp
  qed
  moreover have "distinct x" "\<forall>a \<in> set x. g a = n" using Cons.prems [of 0] by simp_all
  moreover have "g a \<noteq> n" if "y \<in> set xs" "a \<in> set y" for a y
  proof -
    from that(1) obtain b where "b < length xs" "y = xs ! b" by (auto simp: in_set_conv_nth)
    then show ?thesis using Cons.prems [of "Suc b"] that(2) by auto
  qed
  ultimately show ?case by fastforce
qed simp

lemma set_concat_nth: "set (concat xs) = (\<Union>b < length xs. set (xs ! b))"
proof -
  have "set xs = (!) xs ` {..<length xs}" by (auto simp: set_conv_nth)
  then show ?thesis by simp
qed

lemma HT_Resize_ok:
  assumes "ht_ok store t S"
  shows "ht_ok store (HT_Resize store t) S"
proof -
  define n where "n = resize_length 4 (ht_elems t)"
  define f where "f = (\<lambda>h l. let b = ht_bucket n (lh_hash (the (store h))) in l[b := h # l ! b])"
  define l where "l = fold f (concat (ht_list t)) (replicate n [])"
  have n: "0 < n" by (simp add: n_def resize_length_pos)
  have l: "length l = n" "\<And>b. b < n \<Longrightarrow> l ! b = rev (filter (\<lambda>h. ht_bucket n (lh_hash (the (store h))) = b) (concat (ht_list t)))"
    using resize_fold [of "replicate n []" n store "concat (ht_list t)"] n by (simp_all add: l_def f_def)
  have S: "S = set (concat (ht_list t))" using assms unfolding set_concat_nth by (simp add: ht_ok_def)
  have d: "distinct (concat (ht_list t))"
    by (rule distinct_concat_indexed [of _ "\<lambda>a. ht_bucket (ht_length t) (lh_hash (the (store a)))" 0])
      (use assms in \<open>auto simp: ht_ok_def\<close>)
  have "S = (\<Union>b < n. set (l ! b))" using l ht_bucket_less [OF n] unfolding S by auto
  moreover have "HT_Resize store t = t\<lparr>ht_list := l, ht_length := n\<rparr>"
    unfolding HT_Resize_def n_def l_def f_def Let_def by (rule refl)
  ultimately show ?thesis using assms l n d by (simp add: ht_ok_def)
qed

lemma remove_nth:
  assumes "distinct xs" and "p < length xs"
  shows "set (take p xs @ drop (Suc p) xs) = set xs - {xs ! p}" and "distinct (take p xs @ drop (Suc p) xs)"
proof -
  let ?a = "take p xs" and ?c = "drop (Suc p) xs"
  have xs: "xs = ?a @ xs ! p # ?c" using assms(2) by (rule id_take_nth_drop)
  then have d: "distinct (?a @ xs ! p # ?c)" using assms(1) by simp
  have "set xs = set ?a \<union> insert (xs ! p) (set ?c)" by (subst xs) simp
  then show "set (?a @ ?c) = set xs - {xs ! p}" using d by auto
  show "distinct (?a @ ?c)" using d by auto
qed

lemma HT_Remove_ok:
  assumes "ht_ok store t S" and "inj_on (entry_id store) S"
  shows "fst (HT_Remove store key hash t) = HT_Lookup store t key hash \<and>
    ht_ok store (snd (HT_Remove store key hash t)) (S - set_option (HT_Lookup store t key hash))"
proof -
  let ?b = "ht_bucket (ht_length t) hash"
  let ?chain = "ht_list t ! ?b" and ?p = "FindPointer store t key hash"
  note fp = FindPointer_ok [OF assms, where key = key and hash = hash]
  have b: "?b < ht_length t" using assms(1) by (simp add: ht_ok_def ht_bucket_less)
  then have ch: "distinct ?chain" "\<forall>a \<in> set ?chain. ht_bucket (ht_length t) (lh_hash (the (store a))) = ?b"
    "set ?chain \<subseteq> S" "finite S" "ht_elems t = card S"
    using assms(1) by (auto simp: ht_ok_def)
  show ?thesis
  proof (cases "?p < length ?chain")
    case True
    let ?c = "take ?p ?chain @ drop (Suc ?p) ?chain"
    have c: "set ?c = set ?chain - {?chain ! ?p}" "distinct ?c"
      using remove_nth [OF ch(1) True] by blast+
    have eq: "S - {?chain ! ?p} = (S - set ?chain) \<union> set ?c" using c(1) ch(3) True by auto
    have m: "\<forall>a \<in> set ?c. ht_bucket (ht_length t) (lh_hash (the (store a))) = ?b" using c(1) ch(2) by simp
    have "ht_ok store (t\<lparr>ht_list := (ht_list t)[?b := ?c], ht_elems := ht_elems t - 1\<rparr>) (S - {?chain ! ?p})"
      by (rule HT_update [OF assms(1) b c(2) m eq]) (use ch(4,5) fp(1) [OF True] in simp)
    then show ?thesis using True by (simp add: HT_Remove_def HT_Lookup_def Let_def)
  next
    case False
    then show ?thesis using assms(1) by (simp add: HT_Remove_def HT_Lookup_def Let_def)
  qed
qed

lemma HT_Insert_ok:
  assumes "ht_ok store t S" and "inj_on (entry_id store) S" and "h \<notin> S"
  defines "old \<equiv> HT_Lookup store t (fst (entry_id store h)) (snd (entry_id store h))"
  shows "fst (HT_Insert store h t) = old \<and> ht_ok store (snd (HT_Insert store h t)) (insert h (S - set_option old))"
proof -
  let ?key = "lh_key (the (store h))" and ?hash = "lh_hash (the (store h))"
  let ?b = "ht_bucket (ht_length t) ?hash"
  let ?chain = "ht_list t ! ?b" and ?p = "FindPointer store t ?key ?hash"
  note fp = FindPointer_ok [OF assms(1,2), where key = ?key and hash = ?hash]
  have b: "?b < ht_length t" using assms(1) by (simp add: ht_ok_def ht_bucket_less)
  then have ch: "distinct ?chain" "\<forall>a \<in> set ?chain. ht_bucket (ht_length t) (lh_hash (the (store a))) = ?b"
    "set ?chain \<subseteq> S" "finite S" "ht_elems t = card S"
    using assms(1) by (auto simp: ht_ok_def)
  show ?thesis
  proof (cases "?p < length ?chain")
    case True
    let ?c = "?chain[?p := h]"
    have c: "set ?c = insert h (set ?chain - {?chain ! ?p})" "distinct ?c"
      using ch(1,3) True assms(3) by (auto simp: set_update_distinct intro!: distinct_list_update)
    have "0 < card S" using ch(4) fp(1) [OF True] by (auto simp: card_gt_0_iff)
    then have "card (insert h (S - {?chain ! ?p})) = card S" using ch(4) fp(1) [OF True] assms(3) by simp
    note card = this
    have eq: "insert h (S - {?chain ! ?p}) = (S - set ?chain) \<union> set ?c" using c(1) ch(3) assms(3) True by auto
    have m: "\<forall>a \<in> set ?c. ht_bucket (ht_length t) (lh_hash (the (store a))) = ?b" using c(1) ch(2) by simp
    have "ht_ok store (t\<lparr>ht_list := (ht_list t)[?b := ?c], ht_elems := ht_elems t\<rparr>) (insert h (S - {?chain ! ?p}))"
      by (rule HT_update [OF assms(1) b c(2) m eq]) (use card ch(5) in simp)
    then show ?thesis using True by (simp add: HT_Insert_def HT_Lookup_def Let_def old_def entry_id_def)
  next
    case False
    let ?c = "?chain @ [h]"
    have h: "h \<notin> set ?chain" using ch(3) assms(3) by blast
    then have eq: "insert h S = (S - set ?chain) \<union> set ?c" and d: "distinct ?c" using ch(1,3) by auto
    have m: "\<forall>a \<in> set ?c. ht_bucket (ht_length t) (lh_hash (the (store a))) = ?b" using ch(2) by simp
    have "ht_ok store (t\<lparr>ht_list := (ht_list t)[?b := ?c], ht_elems := ht_elems t + 1\<rparr>) (insert h S)"
      by (rule HT_update [OF assms(1) b d m eq]) (use ch(4,5) assms(3) in simp)
    moreover from HT_Resize_ok [OF this]
    have "ht_ok store (HT_Resize store (t\<lparr>ht_list := (ht_list t)[?b := ?c], ht_elems := ht_elems t + 1\<rparr>)) (insert h S)" .
    ultimately show ?thesis using False by (simp add: HT_Insert_def HT_Lookup_def Let_def old_def entry_id_def)
  qed
qed

lemma mk_HandleTable_ok: "ht_ok store mk_HandleTable {}"
proof -
  have "resize_length 4 0 = 4" by (subst resize_length.simps) simp
  then show ?thesis by (auto simp: mk_HandleTable_def HT_Resize_def ht_ok_def Let_def less_Suc_eq)
qed

section \<open>The invariant of a shard\<close>

text \<open>\<open>h a\<close> counts the handles to \<open>a\<close> that clients hold.  An entry is alive as long as it is in the
  list or has such a handle, its reference count is their number, and the list and the hash
  table have the same entries.\<close>

definition lc_inv :: "'v LRUCache \<Rightarrow> (nat \<Rightarrow> nat) \<Rightarrow> bool" where
  "lc_inv c h \<longleftrightarrow> distinct (lc_lru c) \<and> set (lc_lru c) \<subseteq> dom (lc_store c) \<and>
     ht_ok (lc_store c) (lc_table c) (set (lc_lru c)) \<and> inj_on (entry_id (lc_store c)) (set (lc_lru c)) \<and>
     dom (lc_store c) \<subseteq> {..<lc_fresh c} \<and>
     (\<forall>a. lc_store c a = None \<longrightarrow> h a = 0) \<and>
     (\<forall>a e. lc_store c a = Some e \<longrightarrow> (a \<notin> set (lc_lru c) \<longrightarrow> 0 < h a) \<and> lh_refs e = (if a \<in> set (lc_lru c) then 1 else 0) + h a) \<and>
     lc_usage c = (\<Sum>a \<in> dom (lc_store c). lh_charge (the (lc_store c a)))"

definition lc_sub :: "'v LRUCache \<Rightarrow> 'v LRUCache \<Rightarrow> bool" where
  "lc_sub c' c \<longleftrightarrow> set (lc_lru c') \<subseteq> set (lc_lru c) \<and>
     (\<forall>a e'. lc_store c' a = Some e' \<longrightarrow> (\<exists>e. lc_store c a = Some e \<and> lh_value e' = lh_value e \<and>
        entry_id (lc_store c') a = entry_id (lc_store c) a))"

definition lc_find :: "'v LRUCache \<Rightarrow> bytes \<Rightarrow> u32 \<Rightarrow> 'v option" where
  "lc_find c key hash = map_option (\<lambda>a. lh_value (the (lc_store c a))) (HT_Lookup (lc_store c) (lc_table c) key hash)"

lemma lc_invI:
  assumes "distinct (lc_lru c)" and "set (lc_lru c) \<subseteq> dom (lc_store c)"
    and "ht_ok (lc_store c) (lc_table c) (set (lc_lru c))" and "inj_on (entry_id (lc_store c)) (set (lc_lru c))"
    and "dom (lc_store c) \<subseteq> {..<lc_fresh c}" and "\<And>a. lc_store c a = None \<Longrightarrow> h a = 0"
    and "\<And>a e. lc_store c a = Some e \<Longrightarrow> a \<notin> set (lc_lru c) \<Longrightarrow> 0 < h a"
    and "\<And>a e. lc_store c a = Some e \<Longrightarrow> lh_refs e = (if a \<in> set (lc_lru c) then 1 else 0) + h a"
    and "lc_usage c = (\<Sum>a \<in> dom (lc_store c). lh_charge (the (lc_store c a)))"
  shows "lc_inv c h"
  unfolding lc_inv_def by (intro conjI allI impI) (rule assms; assumption)+

lemma lc_invD:
  assumes "lc_inv c h"
  shows "distinct (lc_lru c)" and "set (lc_lru c) \<subseteq> dom (lc_store c)"
    and "ht_ok (lc_store c) (lc_table c) (set (lc_lru c))" and "inj_on (entry_id (lc_store c)) (set (lc_lru c))"
    and "dom (lc_store c) \<subseteq> {..<lc_fresh c}" and "\<And>a. lc_store c a = None \<Longrightarrow> h a = 0"
    and "\<And>a e. lc_store c a = Some e \<Longrightarrow> a \<notin> set (lc_lru c) \<Longrightarrow> 0 < h a"
    and "\<And>a e. lc_store c a = Some e \<Longrightarrow> lh_refs e = (if a \<in> set (lc_lru c) then 1 else 0) + h a"
    and "lc_usage c = (\<Sum>a \<in> dom (lc_store c). lh_charge (the (lc_store c a)))"
  using assms unfolding lc_inv_def by simp_all

lemma lc_inv_finite: "lc_inv c h \<Longrightarrow> finite (dom (lc_store c))"
  unfolding lc_inv_def by (meson finite_lessThan finite_subset)

lemma lc_inv_alive: "lc_inv c h \<Longrightarrow> 0 < h a \<Longrightarrow> \<exists>e. lc_store c a = Some e"
  unfolding lc_inv_def by (metis less_irrefl not_None_eq)

lemma lc_subD:
  assumes "lc_sub c' c" and "lc_store c' a = Some e"
  shows "entry_id (lc_store c') a = entry_id (lc_store c) a" and "lh_value e = lh_value (the (lc_store c a))"
proof -
  from assms obtain d where "lc_store c a = Some d" "lh_value e = lh_value d" "entry_id (lc_store c') a = entry_id (lc_store c) a"
    unfolding lc_sub_def by blast
  then show "entry_id (lc_store c') a = entry_id (lc_store c) a" "lh_value e = lh_value (the (lc_store c a))" by simp_all
qed

lemma lc_sub_hash:
  assumes "lc_sub c' c" and "lc_store c' a = Some e'"
  obtains e where "lc_store c a = Some e" "lh_hash e' = lh_hash e"
proof -
  from assms obtain d where d: "lc_store c a = Some d" unfolding lc_sub_def by blast
  moreover have "lh_hash e' = lh_hash d" using lc_subD(1) [OF assms] assms(2) d by (simp add: entry_id_def)
  ultimately show ?thesis using that by blast
qed

lemma lc_sub_refl: "lc_sub c c"
  by (simp add: lc_sub_def)

lemma lc_sub_trans: "lc_sub c1 c2 \<Longrightarrow> lc_sub c2 c3 \<Longrightarrow> lc_sub c1 c3"
  unfolding lc_sub_def by (metis subset_trans)

lemma lc_find_iff:
  assumes "lc_inv c h"
  shows "lc_find c key hash = Some v \<longleftrightarrow>
    (\<exists>a \<in> set (lc_lru c). entry_id (lc_store c) a = (key, hash) \<and> lh_value (the (lc_store c a)) = v)"
  using HT_Lookup_ok [of "lc_store c" "lc_table c" "set (lc_lru c)" key hash] assms
  by (auto simp: lc_find_def lc_inv_def)

lemma lc_find_sub:
  assumes "lc_inv c h" and "lc_inv c' h'" and "lc_sub c' c" and "lc_find c' key hash = Some v"
  shows "lc_find c key hash = Some v"
proof -
  obtain a where a: "a \<in> set (lc_lru c')" "entry_id (lc_store c') a = (key, hash)" "lh_value (the (lc_store c' a)) = v"
    using assms(4) lc_find_iff [OF assms(2)] by auto
  then obtain e' where "lc_store c' a = Some e'" using assms(2) by (auto simp: lc_inv_def)
  then show ?thesis using assms(3) a lc_find_iff [OF assms(1)] unfolding lc_sub_def by force
qed

lemma entry_id_upd [simp]:
  "entry_id (s(a \<mapsto> e)) b = (if a = b then (lh_key e, lh_hash e) else entry_id s b)"
  by (simp add: entry_id_def)

lemma entry_id_del: "a \<noteq> b \<Longrightarrow> entry_id (s(a := None)) b = entry_id s b"
  by (simp add: entry_id_def)

text \<open>Dropping a reference that a client holds.\<close>

lemma LC_Unref_inv:
  assumes inv: "lc_inv c h" and ha: "0 < h a"
  shows "lc_inv (LC_Unref a c) (h(a := h a - 1)) \<and> lc_sub (LC_Unref a c) c"
proof -
  obtain e where e: "lc_store c a = Some e" using lc_inv_alive [OF assms] by blast
  have r: "lh_refs e = (if a \<in> set (lc_lru c) then 1 else 0) + h a" using inv e by (simp add: lc_inv_def)
  note fin = lc_inv_finite [OF inv]
  have sum: "(\<Sum>x \<in> dom (lc_store c). lh_charge (the (lc_store c x))) =
    lh_charge e + (\<Sum>x \<in> dom (lc_store c) - {a}. lh_charge (the (lc_store c x)))"
    using sum.remove [OF fin, of a "\<lambda>x. lh_charge (the (lc_store c x))"] e by (simp add: domI)
  show ?thesis
  proof (cases "lh_refs e = 1")
    case True
    then have na: "a \<notin> set (lc_lru c)" "h a = 1" using r ha by (auto split: if_splits)
    have c': "LC_Unref a c = c\<lparr>lc_usage := lc_usage c - lh_charge e, lc_deleted := lc_deleted c @ [(lh_key e, lh_value e)],
               lc_store := (lc_store c)(a := None)\<rparr>"
      using e True by (simp add: LC_Unref_def Let_def)
    have ids: "entry_id ((lc_store c)(a := None)) b = entry_id (lc_store c) b" if "b \<in> set (lc_lru c)" for b
      using that na by (intro entry_id_del) auto
    have "ht_ok ((lc_store c)(a := None)) (lc_table c) (set (lc_lru c))"
      by (rule ht_ok_cong [OF ids]) (use inv in \<open>auto simp: lc_inv_def\<close>)
    moreover have "inj_on (entry_id ((lc_store c)(a := None))) (set (lc_lru c))"
      using inv ids by (simp add: lc_inv_def inj_on_def)
    moreover have "(\<Sum>x \<in> dom (lc_store c) - {a}. lh_charge (the (((lc_store c)(a := None)) x))) = lc_usage c - lh_charge e"
      using sum inv by (simp add: lc_inv_def)
    ultimately have "lc_inv (LC_Unref a c) (h(a := h a - 1))"
      using inv na unfolding c' by (auto simp: lc_inv_def)
    moreover have "lc_sub (LC_Unref a c) c" unfolding c' by (auto simp: lc_sub_def entry_id_def split: if_splits)
    ultimately show ?thesis by blast
  next
    case False
    let ?e = "e\<lparr>lh_refs := lh_refs e - 1\<rparr>"
    have g: "1 < lh_refs e" using False r ha by auto
    then have c': "LC_Unref a c = c\<lparr>lc_store := (lc_store c)(a \<mapsto> ?e)\<rparr>"
      using e by (simp add: LC_Unref_def Let_def)
    have ids: "entry_id ((lc_store c)(a \<mapsto> ?e)) b = entry_id (lc_store c) b" for b
      using e by (simp add: entry_id_def)
    have "ht_ok ((lc_store c)(a \<mapsto> ?e)) (lc_table c) (set (lc_lru c))"
      by (rule ht_ok_cong [OF ids]) (use inv in \<open>auto simp: lc_inv_def\<close>)
    moreover have "inj_on (entry_id ((lc_store c)(a \<mapsto> ?e))) (set (lc_lru c))"
      using inv ids by (simp add: lc_inv_def inj_on_def)
    moreover have "(\<Sum>x \<in> dom ((lc_store c)(a \<mapsto> ?e)). lh_charge (the (((lc_store c)(a \<mapsto> ?e)) x))) = lc_usage c"
    proof -
      have "dom ((lc_store c)(a \<mapsto> ?e)) = dom (lc_store c)" using e by auto
      then show ?thesis using inv e by (auto simp: lc_inv_def intro!: sum.cong)
    qed
    moreover have "lc_store c b = Some d \<Longrightarrow> (b \<notin> set (lc_lru c) \<longrightarrow> 0 < h b) \<and> lh_refs d = (if b \<in> set (lc_lru c) then 1 else 0) + h b"
      "lc_store c b = None \<Longrightarrow> h b = 0" for b d
      using inv by (simp_all add: lc_inv_def)
    moreover have "set (lc_lru c) \<subseteq> dom (lc_store c)" "dom (lc_store c) \<subseteq> {..<lc_fresh c}" "distinct (lc_lru c)"
      using inv by (simp_all add: lc_inv_def)
    ultimately have "lc_inv (LC_Unref a c) (h(a := h a - 1))"
      using e g r ha unfolding c' lc_inv_def by auto
    moreover have "lc_sub (LC_Unref a c) c" unfolding c' using e ids by (auto simp: lc_sub_def split: if_splits)
    ultimately show ?thesis by blast
  qed
qed

text \<open>Taking an entry out of the list and the hash table turns the reference of the cache into one
  more handle.\<close>

lemma drop_entry_inv:
  assumes inv: "lc_inv c h" and a: "a \<in> set (lc_lru c)" and t: "ht_ok (lc_store c) t (set (lc_lru c) - {a})"
  shows "lc_inv (c\<lparr>lc_lru := remove1 a (lc_lru c), lc_table := t\<rparr>) (h(a := h a + 1))"
proof -
  note D = lc_invD [OF inv]
  have s: "set (remove1 a (lc_lru c)) = set (lc_lru c) - {a}" using D(1) by (simp add: set_remove1_eq)
  obtain e where e: "lc_store c a = Some e" using D(2) a by auto
  show ?thesis
  proof (rule lc_invI, goal_cases)
    case 4
    show ?case using inj_on_subset [OF D(4), of "set (lc_lru c) - {a}"] s by auto
  next
    case (6 b)
    then show ?case using D(6) e by auto
  next
    case (7 b d)
    then show ?case using D(7) s by auto
  next
    case (8 b d)
    then show ?case using D(8) [of b d] s a by auto
  qed (use D s t in auto)
qed

lemma drop_sub: "lc_sub (c\<lparr>lc_lru := remove1 a (lc_lru c), lc_table := t\<rparr>) c"
  using set_remove1_subset [of a "lc_lru c"] by (simp add: lc_sub_def)

lemma drop_unref_inv:
  assumes inv: "lc_inv c h" and a: "a \<in> set (lc_lru c)" and t: "ht_ok (lc_store c) t (set (lc_lru c) - {a})"
  defines "c' \<equiv> LC_Unref a (c\<lparr>lc_lru := remove1 a (lc_lru c), lc_table := t\<rparr>)"
  shows "lc_inv c' h \<and> lc_sub c' c"
proof -
  let ?c = "c\<lparr>lc_lru := remove1 a (lc_lru c), lc_table := t\<rparr>"
  have "lc_inv c' ((h(a := h a + 1))(a := (h(a := h a + 1)) a - 1)) \<and> lc_sub c' ?c"
    unfolding c'_def by (rule LC_Unref_inv [OF drop_entry_inv [OF inv a t]]) simp
  moreover have "(h(a := h a + 1))(a := (h(a := h a + 1)) a - 1) = h" by auto
  ultimately show ?thesis using lc_sub_trans [OF _ drop_sub] by auto
qed

lemma evict_oldest_inv:
  assumes inv: "lc_inv c h" and ne: "lc_lru c \<noteq> []"
  shows "lc_inv (evict_oldest c) h \<and> lc_sub (evict_oldest c) c"
proof -
  let ?a = "hd (lc_lru c)" and ?e = "the (lc_store c (hd (lc_lru c)))"
  have a: "?a \<in> set (lc_lru c)" using ne by simp
  have ok: "ht_ok (lc_store c) (lc_table c) (set (lc_lru c))" "inj_on (entry_id (lc_store c)) (set (lc_lru c))"
    using inv by (simp_all add: lc_inv_def)
  have "HT_Lookup (lc_store c) (lc_table c) (lh_key ?e) (lh_hash ?e) = Some ?a"
    unfolding HT_Lookup_ok [OF ok] using a by (simp add: entry_id_def)
  then have "ht_ok (lc_store c) (snd (HT_Remove (lc_store c) (lh_key ?e) (lh_hash ?e) (lc_table c))) (set (lc_lru c) - {?a})"
    using HT_Remove_ok [OF ok, of "lh_key ?e" "lh_hash ?e"] by simp
  from drop_unref_inv [OF inv a this] show ?thesis
    by (simp add: evict_oldest_def LRU_Remove_def Let_def)
qed

lemma evict_loop_inv:
  assumes "lc_inv c h"
  shows "lc_inv (evict_loop c) h \<and> lc_sub (evict_loop c) c \<and>
    (lc_usage (evict_loop c) \<le> lc_capacity (evict_loop c) \<or> lc_lru (evict_loop c) = [])"
  using assms
proof (induction c rule: evict_loop.induct)
  case (1 c)
  show ?case
  proof (cases "lc_usage c > lc_capacity c \<and> lc_lru c \<noteq> []")
    case True
    then show ?thesis
      using 1 evict_oldest_inv [OF 1(2)] lc_sub_trans by (subst (1 2 3 4 5) evict_loop.simps) (simp, blast)
  next
    case False
    then show ?thesis using 1(2) lc_sub_refl by (subst (1 2 3 4 5) evict_loop.simps) auto
  qed
qed

lemma LC_Lookup_inv:
  assumes inv: "lc_inv c h" and l: "LC_Lookup key hash c = (r, c')"
  shows "case r of None \<Rightarrow> c' = c \<and> lc_find c key hash = None
    | Some a \<Rightarrow> lc_inv c' (h(a := h a + 1)) \<and> lc_sub c' c \<and> lc_sub c c' \<and> lc_find c key hash = Some (lh_value (the (lc_store c' a)))"
proof (cases "HT_Lookup (lc_store c) (lc_table c) key hash")
  case None
  then show ?thesis using l by (simp add: LC_Lookup_def lc_find_def split: option.split)
next
  case (Some a)
  let ?e = "the (lc_store c a)\<lparr>lh_refs := lh_refs (the (lc_store c a)) + 1\<rparr>"
  have ok: "ht_ok (lc_store c) (lc_table c) (set (lc_lru c))" "inj_on (entry_id (lc_store c)) (set (lc_lru c))"
    using inv by (simp_all add: lc_inv_def)
  have a: "a \<in> set (lc_lru c)" using Some HT_Lookup_ok [OF ok] by blast
  then obtain e where e: "lc_store c a = Some e" using inv by (auto simp: lc_inv_def)
  have c': "r = Some a" "c' = c\<lparr>lc_store := (lc_store c)(a \<mapsto> ?e), lc_lru := remove1 a (lc_lru c) @ [a]\<rparr>"
    using l Some by (simp_all add: LC_Lookup_def LRU_Append_def LRU_Remove_def Let_def)
  have ids: "entry_id ((lc_store c)(a \<mapsto> ?e)) b = entry_id (lc_store c) b" for b using e by (simp add: entry_id_def)
  have set': "set (remove1 a (lc_lru c) @ [a]) = set (lc_lru c)" "distinct (remove1 a (lc_lru c) @ [a])"
    using inv a by (auto simp: lc_inv_def set_remove1_eq)
  have new: "ht_ok ((lc_store c)(a \<mapsto> ?e)) (lc_table c) (set (lc_lru c))"
    "inj_on (entry_id ((lc_store c)(a \<mapsto> ?e))) (set (lc_lru c))"
    "dom ((lc_store c)(a \<mapsto> ?e)) = dom (lc_store c)"
    "(\<Sum>x \<in> dom (lc_store c). lh_charge (the (((lc_store c)(a \<mapsto> ?e)) x))) = lc_usage c"
  proof -
    show "ht_ok ((lc_store c)(a \<mapsto> ?e)) (lc_table c) (set (lc_lru c))" by (rule ht_ok_cong [OF ids ok(1)])
    show "inj_on (entry_id ((lc_store c)(a \<mapsto> ?e))) (set (lc_lru c))" using ok(2) ids by (simp add: inj_on_def)
  qed (use inv e in \<open>auto simp: lc_inv_def intro!: sum.cong\<close>)
  note D = lc_invD [OF inv]
  have "lc_inv c' (h(a := h a + 1))"
    unfolding c'(2)
  proof (rule lc_invI, goal_cases)
    case (6 b)
    then show ?case using D(6) e by (auto split: if_splits)
  next
    case (7 b d)
    then show ?case using D(7) set' by (auto split: if_splits)
  next
    case (8 b d)
    then show ?case using D(8) [of b] set' a e by (auto split: if_splits)
  next
    case 9
    have "lc_usage c = (\<Sum>x \<in> dom ((lc_store c)(a \<mapsto> ?e)). lh_charge (the (((lc_store c)(a \<mapsto> ?e)) x)))"
      unfolding new(3) using new(4) by simp
    then show ?case by simp
  qed (use D set' new(1,2,3) in simp_all)
  moreover have "lc_sub c' c" "lc_sub c c'"
    using e ids set' unfolding c'(2) by (auto simp: lc_sub_def split: if_splits)
  moreover have "lc_find c key hash = Some (lh_value (the (lc_store c' a)))"
    using Some e by (simp add: lc_find_def c'(2))
  ultimately show ?thesis using c'(1) by simp
qed

lemma add_entry_inv:
  assumes inv: "lc_inv c h" and new: "(lh_key e, lh_hash e) \<notin> entry_id (lc_store c) ` set (lc_lru c)" and r: "lh_refs e = 2"
    and t: "ht_ok ((lc_store c)(lc_fresh c \<mapsto> e)) t (insert (lc_fresh c) (set (lc_lru c)))"
  shows "lc_inv (c\<lparr>lc_store := (lc_store c)(lc_fresh c \<mapsto> e), lc_fresh := Suc (lc_fresh c), lc_lru := lc_lru c @ [lc_fresh c],
    lc_usage := lc_usage c + lh_charge e, lc_table := t\<rparr>) (h(lc_fresh c := 1))"
proof -
  let ?a = "lc_fresh c"
  note D = lc_invD [OF inv]
  have a: "?a \<notin> dom (lc_store c)" "?a \<notin> set (lc_lru c)" using D(2,5) by auto
  show ?thesis
  proof (rule lc_invI, goal_cases)
    case 4
    have "inj_on (entry_id ((lc_store c)(?a \<mapsto> e))) (set (lc_lru c))"
      using D(4) a by (auto simp: inj_on_def)
    then show ?case using new a by (auto simp: image_iff)
  next
    case (7 b d)
    then show ?case using D(7) by (auto split: if_splits)
  next
    case (8 b d)
    then show ?case using D(8) [of b] r a by (auto split: if_splits)
  next
    case 9
    have "(\<Sum>x \<in> dom (lc_store c). lh_charge (the (((lc_store c)(?a \<mapsto> e)) x))) = lc_usage c"
      unfolding D(9) using a by (intro sum.cong) auto
    then have "lh_charge e + (\<Sum>x \<in> dom (lc_store c). lh_charge (the (((lc_store c)(?a \<mapsto> e)) x))) = lc_usage c + lh_charge e"
      by simp
    moreover have "dom ((lc_store c)(?a \<mapsto> e)) = insert ?a (dom (lc_store c))" by auto
    ultimately show ?case using a lc_inv_finite [OF inv] by simp
  qed (use D t a in \<open>auto split: if_splits\<close>)
qed

text \<open>The shard after an insertion, before the eviction loop.\<close>

definition insert_state :: "bytes \<Rightarrow> u32 \<Rightarrow> 'v \<Rightarrow> nat \<Rightarrow> 'v LRUCache \<Rightarrow> 'v LRUCache" where
  "insert_state key hash value charge c =
    (let a = lc_fresh c;
         e = \<lparr>lh_value = value, lh_charge = charge, lh_key = key, lh_refs = 2, lh_hash = hash\<rparr>;
         c = LRU_Append a (c\<lparr>lc_store := (lc_store c)(a \<mapsto> e), lc_fresh := Suc a\<rparr>);
         c = c\<lparr>lc_usage := lc_usage c + charge\<rparr>;
         (old, t) = HT_Insert (lc_store c) a (lc_table c);
         c = c\<lparr>lc_table := t\<rparr>
     in case old of Some old \<Rightarrow> LC_Unref old (LRU_Remove old c) | None \<Rightarrow> c)"

lemma LC_Insert_eq: "LC_Insert key hash value charge c = (lc_fresh c, evict_loop (insert_state key hash value charge c))"
  by (simp add: LC_Insert_def insert_state_def Let_def split: prod.split)

lemma insert_state_inv:
  fixes c :: "'v LRUCache" and key hash v charge
  assumes inv: "lc_inv c h"
  defines "a \<equiv> lc_fresh c" and "c' \<equiv> insert_state key hash v charge c"
  shows "lc_inv c' (h(a := 1)) \<and> set (lc_lru c') \<subseteq> insert a (set (lc_lru c)) \<and>
    lc_find c' key hash = Some v \<and> entry_id (lc_store c') a = (key, hash) \<and> lh_value (the (lc_store c' a)) = v \<and>
    (\<forall>b \<in> set (lc_lru c') - {a}. entry_id (lc_store c') b = entry_id (lc_store c) b \<and>
       lh_value (the (lc_store c' b)) = lh_value (the (lc_store c b))) \<and>
    (\<forall>b d. lc_store c' b = Some d \<longrightarrow> (if b = a then lh_hash d = hash else \<exists>e. lc_store c b = Some e \<and> lh_hash d = lh_hash e))"
proof -
  let ?e = "\<lparr>lh_value = v, lh_charge = charge, lh_key = key, lh_refs = 2, lh_hash = hash\<rparr>"
  let ?s = "(lc_store c)(a \<mapsto> ?e)" and ?S = "set (lc_lru c)"
  note D = lc_invD [OF inv]
  have a: "a \<notin> dom (lc_store c)" "a \<notin> ?S" using D(2,5) by (auto simp: a_def)
  have ids: "entry_id ?s b = entry_id (lc_store c) b" if "b \<in> ?S" for b using that a by (auto simp: entry_id_def)
  have ok: "ht_ok ?s (lc_table c) ?S" "inj_on (entry_id ?s) ?S"
    using ht_ok_cong [OF ids D(3)] D(4) ids by (auto simp: inj_on_def)
  define old t where "old = fst (HT_Insert ?s a (lc_table c))" and "t = snd (HT_Insert ?s a (lc_table c))"
  have ot: "HT_Insert ?s a (lc_table c) = (old, t)" by (simp add: old_def t_def)
  have old: "old = HT_Lookup ?s (lc_table c) key hash" and t: "ht_ok ?s t (insert a (?S - set_option old))"
    using HT_Insert_ok [OF ok a(2)] by (simp_all add: ot)
  have old_iff: "old = Some b \<longleftrightarrow> b \<in> ?S \<and> entry_id (lc_store c) b = (key, hash)" for b
    unfolding old HT_Lookup_ok [OF ok] using ids [of b] by metis
  let ?c1 = "c\<lparr>lc_store := ?s, lc_fresh := Suc a, lc_lru := lc_lru c @ [a], lc_usage := lc_usage c + charge, lc_table := t\<rparr>"
  let ?c2 = "\<lambda>b. c\<lparr>lc_store := ?s, lc_fresh := Suc a, lc_lru := remove1 b (lc_lru c) @ [a], lc_usage := lc_usage c + charge, lc_table := t\<rparr>"
  have main: "\<exists>c2. lc_inv c' (h(a := 1)) \<and> lc_sub c' c2 \<and> a \<in> set (lc_lru c') \<and> lc_store c2 = ?s \<and> set (lc_lru c2) \<subseteq> insert a ?S"
  proof (cases old)
    case None
    have "\<forall>b \<in> ?S. entry_id (lc_store c) b \<noteq> (key, hash)" using old_iff None by (metis option.distinct(1))
    then have "(key, hash) \<notin> entry_id (lc_store c) ` ?S" by (metis imageE)
    from add_entry_inv [OF inv, of ?e t] this have "lc_inv ?c1 (h(a := 1))"
      using t None by (simp add: a_def)
    moreover have "c' = ?c1" using None ot by (simp add: c'_def insert_state_def LRU_Append_def Let_def a_def)
    ultimately show ?thesis using lc_sub_refl by (intro exI [of _ ?c1]) auto
  next
    case (Some b)
    then have b: "b \<in> ?S" "entry_id (lc_store c) b = (key, hash)" using old_iff by auto
    define t0 where "t0 = snd (HT_Remove (lc_store c) key hash (lc_table c))"
    have "HT_Lookup (lc_store c) (lc_table c) key hash = Some b" unfolding HT_Lookup_ok [OF D(3,4)] using b by simp
    then have "ht_ok (lc_store c) t0 (?S - {b})" using HT_Remove_ok [OF D(3,4), of key hash] by (simp add: t0_def)
    from drop_entry_inv [OF inv b(1) this]
    have i0: "lc_inv (c\<lparr>lc_lru := remove1 b (lc_lru c), lc_table := t0\<rparr>) (h(b := h b + 1))" .
    have rs: "set (remove1 b (lc_lru c)) = ?S - {b}" using D(1) by (simp add: set_remove1_eq)
    have "(key, hash) \<notin> entry_id (lc_store c) ` (?S - {b})" using b D(4) by (auto simp: inj_on_def)
    from add_entry_inv [OF i0, of ?e t] this
    have i1: "lc_inv (?c2 b) ((h(b := h b + 1))(a := 1))"
      using t Some rs by (simp add: a_def)
    have ab: "a \<noteq> b" using a b by auto
    have "remove1 b (lc_lru c @ [a]) = remove1 b (lc_lru c) @ [a]" using b by (simp add: remove1_append)
    then have c': "c' = LC_Unref b (?c2 b)"
      using Some ot by (simp add: c'_def insert_state_def LRU_Append_def LRU_Remove_def Let_def a_def)
        (rule arg_cong [where f = "LC_Unref b"], simp)
    have "0 < ((h(b := h b + 1))(a := 1)) b" using ab by simp
    note un = LC_Unref_inv [OF i1 this, folded c']
    have hh: "((h(b := h b + 1))(a := 1))(b := ((h(b := h b + 1))(a := 1)) b - 1) = h(a := 1)" using ab by auto
    have "lc_inv c' (h(a := 1))" "lc_sub c' (?c2 b)" using un unfolding hh by blast+
    moreover have "a \<in> set (lc_lru c')" unfolding c' by (simp add: LC_Unref_def Let_def)
    ultimately show ?thesis using rs by (intro exI [of _ "?c2 b"]) auto
  qed
  then obtain c2 where c2: "lc_inv c' (h(a := 1))" "lc_sub c' c2" "a \<in> set (lc_lru c')" "lc_store c2 = ?s" "set (lc_lru c2) \<subseteq> insert a ?S"
    by blast
  have same: "entry_id (lc_store c') b = entry_id ?s b \<and> lh_value (the (lc_store c' b)) = lh_value (the (?s b))"
    if "b \<in> set (lc_lru c')" for b
  proof -
    from that obtain d where d: "lc_store c' b = Some d" using lc_invD(2) [OF c2(1)] by auto
    show ?thesis using lc_subD [OF c2(2) d] d c2(4) by simp
  qed
  have find: "lc_find c' key hash = Some v"
    unfolding lc_find_iff [OF c2(1)] using c2(3) same [OF c2(3)] by auto
  have lru: "set (lc_lru c') \<subseteq> insert a ?S" using c2(2,5) unfolding lc_sub_def by blast
  have hashes: "if b = a then lh_hash d = hash else \<exists>e. lc_store c b = Some e \<and> lh_hash d = lh_hash e"
    if d: "lc_store c' b = Some d" for b d
  proof -
    from lc_sub_hash [OF c2(2) d] obtain e where "lc_store c2 b = Some e" "lh_hash d = lh_hash e" .
    then show ?thesis using c2(4) by (auto split: if_splits)
  qed
  have others: "entry_id (lc_store c') b = entry_id (lc_store c) b \<and> lh_value (the (lc_store c' b)) = lh_value (the (lc_store c b))"
    if "b \<in> set (lc_lru c') - {a}" for b
    using that same [of b] by auto
  show ?thesis
    by (intro conjI ballI allI impI) (use c2(1) lru find same [OF c2(3)] others hashes in auto)
qed

lemma LC_Insert_inv:
  assumes inv: "lc_inv c h" and ins: "LC_Insert key hash v charge c = (a, c')"
  shows "lc_inv c' (h(a := 1)) \<and> h a = 0 \<and> lh_value (the (lc_store c' a)) = v \<and>
    (lc_find c' k s = Some w \<longrightarrow> (if (k, s) = (key, hash) then w = v else lc_find c k s = Some w)) \<and>
    (lc_usage c' \<le> lc_capacity c' \<or> lc_lru c' = []) \<and>
    (lc_store c' b = Some d \<longrightarrow> (if b = a then lh_hash d = hash else \<exists>e. lc_store c b = Some e \<and> lh_hash d = lh_hash e))"
proof -
  let ?c1 = "insert_state key hash v charge c"
  have a: "a = lc_fresh c" "c' = evict_loop ?c1" using ins by (simp_all add: LC_Insert_eq)
  note i1 = insert_state_inv [OF inv, of key hash v charge, folded a(1)]
  then have inv1: "lc_inv ?c1 (h(a := 1))" by blast
  note ev = evict_loop_inv [OF inv1, folded a(2)]
  then have inv': "lc_inv c' (h(a := 1))" and sub: "lc_sub c' ?c1" by blast+
  have "lc_store c a = None" using lc_invD(5) [OF inv] a(1) by auto
  then have ha: "h a = 0" by (rule lc_invD(6) [OF inv])
  obtain e where "lc_store c' a = Some e" using lc_inv_alive [OF inv', of a] by auto
  then have val: "lh_value (the (lc_store c' a)) = v" using sub i1 unfolding lc_sub_def by force
  have "if (k, s) = (key, hash) then w = v else lc_find c k s = Some w" if "lc_find c' k s = Some w"
  proof -
    have f1: "lc_find ?c1 k s = Some w" by (rule lc_find_sub [OF inv1 inv' sub that])
    then obtain b where b: "b \<in> set (lc_lru ?c1)" "entry_id (lc_store ?c1) b = (k, s)" "lh_value (the (lc_store ?c1 b)) = w"
      unfolding lc_find_iff [OF inv1] by blast
    show ?thesis
    proof (cases "(k, s) = (key, hash)")
      case True
      then show ?thesis using f1 i1 by simp
    next
      case False
      then have "b \<noteq> a" using b i1 by auto
      then have "b \<in> set (lc_lru c)" "entry_id (lc_store c) b = (k, s)" "lh_value (the (lc_store c b)) = w"
        using b i1 by auto
      then show ?thesis using False unfolding lc_find_iff [OF inv] by auto
    qed
  qed
  moreover have "if b = a then lh_hash d = hash else \<exists>e. lc_store c b = Some e \<and> lh_hash d = lh_hash e"
    if d: "lc_store c' b = Some d"
  proof -
    from lc_sub_hash [OF sub d] obtain d1 where "lc_store ?c1 b = Some d1" "lh_hash d = lh_hash d1" .
    then show ?thesis using i1 by (auto split: if_splits)
  qed
  ultimately show ?thesis using inv' ha val ev by blast
qed

lemma LC_Erase_inv:
  assumes inv: "lc_inv c h"
  shows "lc_inv (LC_Erase key hash c) h \<and> lc_sub (LC_Erase key hash c) c \<and> lc_find (LC_Erase key hash c) key hash = None"
proof -
  note D = lc_invD [OF inv]
  let ?c' = "LC_Erase key hash c"
  obtain t where rm: "HT_Remove (lc_store c) key hash (lc_table c) = (HT_Lookup (lc_store c) (lc_table c) key hash, t)"
    using HT_Remove_ok [OF D(3,4), of key hash] by (metis prod.collapse)
  show ?thesis
  proof (cases "HT_Lookup (lc_store c) (lc_table c) key hash")
    case None
    then have "?c' = c" using rm by (simp add: LC_Erase_def HT_Remove_def HT_Lookup_def Let_def split: if_splits)
    then show ?thesis using inv None lc_sub_refl by (simp add: lc_find_def)
  next
    case (Some a)
    have a: "a \<in> set (lc_lru c)" "entry_id (lc_store c) a = (key, hash)" using Some HT_Lookup_ok [OF D(3,4)] by auto
    have "ht_ok (lc_store c) t (set (lc_lru c) - {a})" using HT_Remove_ok [OF D(3,4), of key hash] Some rm by simp
    moreover have "?c' = LC_Unref a (c\<lparr>lc_lru := remove1 a (lc_lru c), lc_table := t\<rparr>)"
      using rm Some by (simp add: LC_Erase_def LRU_Remove_def Let_def) (rule arg_cong [where f = "LC_Unref a"], simp)
    ultimately have i: "lc_inv ?c' h \<and> lc_sub ?c' c" using drop_unref_inv [OF inv a(1)] by simp
    have lru: "set (lc_lru ?c') = set (lc_lru c) - {a}"
      using rm Some D(1) by (simp add: LC_Erase_def LRU_Remove_def LC_Unref_def Let_def set_remove1_eq split: prod.split)
    have "lc_find ?c' key hash \<noteq> Some w" for w
    proof
      assume "lc_find ?c' key hash = Some w"
      then obtain b where b: "b \<in> set (lc_lru ?c')" "entry_id (lc_store ?c') b = (key, hash)"
        using lc_find_iff [OF conjunct1 [OF i], of key hash w] by blast
      obtain d where "lc_store ?c' b = Some d" using b(1) lc_invD(2) [OF conjunct1 [OF i]] by auto
      then have "entry_id (lc_store ?c') b = entry_id (lc_store c) b" by (rule lc_subD(1) [OF conjunct2 [OF i]])
      then have "entry_id (lc_store c) b = entry_id (lc_store c) a" using b(2) a(2) by simp
      then show False using b(1) lru a(1) inj_onD [OF D(4)] by blast
    qed
    then show ?thesis using i by (cases "lc_find ?c' key hash") auto
  qed
qed

lemma mk_LRUCache_inv: "lc_inv (mk_LRUCache capacity) (\<lambda>_. 0)"
  by (simp add: lc_inv_def mk_LRUCache_def mk_HandleTable_ok)

section \<open>The cache interface\<close>

text \<open>The virtual interface of \<^verbatim>\<open>include/pebblesdb/cache.h\<close>, and what its clients may rely on:
  \<open>inv c H\<close> says that \<open>c\<close> is a state in which \<open>H\<close> counts the handles held, and \<open>cached c\<close> what is
  found.  A cache may forget an entry at any operation.\<close>

record ('v, 'h, 'c) Cache =
  ca_Insert :: "bytes \<Rightarrow> 'v \<Rightarrow> nat \<Rightarrow> 'c \<Rightarrow> 'h \<times> 'c"
  ca_Lookup :: "bytes \<Rightarrow> 'c \<Rightarrow> 'h option \<times> 'c"
  ca_Value :: "'h \<Rightarrow> 'c \<Rightarrow> 'v"
  ca_Release :: "'h \<Rightarrow> 'c \<Rightarrow> 'c"
  ca_Erase :: "bytes \<Rightarrow> 'c \<Rightarrow> 'c"

locale cache_contract =
  fixes C :: "('v, 'h, 'c) Cache" and inv :: "'c \<Rightarrow> ('h \<Rightarrow> nat) \<Rightarrow> bool" and cached :: "'c \<Rightarrow> bytes \<Rightarrow> 'v option"
  assumes Lookup_miss: "inv c H \<Longrightarrow> ca_Lookup C k c = (None, c') \<Longrightarrow> inv c' H \<and> cached c' \<subseteq>\<^sub>m cached c \<and> cached c k = None"
    and Lookup_hit: "inv c H \<Longrightarrow> ca_Lookup C k c = (Some h, c') \<Longrightarrow>
      inv c' (H(h := H h + 1)) \<and> cached c' \<subseteq>\<^sub>m cached c \<and> cached c k = Some (ca_Value C h c')"
    and Insert_new: "inv c H \<Longrightarrow> ca_Insert C k v n c = (h, c') \<Longrightarrow>
      inv c' (H(h := H h + 1)) \<and> cached c' \<subseteq>\<^sub>m (cached c)(k \<mapsto> v) \<and> ca_Value C h c' = v"
    and Release_held: "inv c H \<Longrightarrow> 0 < H h \<Longrightarrow> inv (ca_Release C h c) (H(h := H h - 1)) \<and> cached (ca_Release C h c) \<subseteq>\<^sub>m cached c"
    and Erase_key: "inv c H \<Longrightarrow> inv (ca_Erase C k c) H \<and> cached (ca_Erase C k c) \<subseteq>\<^sub>m (cached c)(k := None)"

definition sharded_cache :: "('v, CacheHandle, 'v ShardedLRUCache) Cache" where
  "sharded_cache = \<lparr>ca_Insert = SC_Insert, ca_Lookup = SC_Lookup, ca_Value = SC_Value, ca_Release = SC_Release, ca_Erase = SC_Erase\<rparr>"

text \<open>The handles that are held to the entries of shard \<open>i\<close>.\<close>

definition held :: "'v ShardedLRUCache \<Rightarrow> (CacheHandle \<Rightarrow> nat) \<Rightarrow> nat \<Rightarrow> nat \<Rightarrow> nat" where
  "held c H i a = (case lc_store (sc_shard c ! i) a of None \<Rightarrow> 0 | Some e \<Rightarrow> H (a, lh_hash e))"

definition sc_inv :: "'v ShardedLRUCache \<Rightarrow> (CacheHandle \<Rightarrow> nat) \<Rightarrow> bool" where
  "sc_inv c H \<longleftrightarrow> length (sc_shard c) = kNumShards \<and>
     (\<forall>i < kNumShards. lc_inv (sc_shard c ! i) (held c H i) \<and>
        (\<forall>a e. lc_store (sc_shard c ! i) a = Some e \<longrightarrow> Shard (lh_hash e) = i)) \<and>
     (\<forall>a hash. 0 < H (a, hash) \<longrightarrow> (\<exists>e. lc_store (sc_shard c ! Shard hash) a = Some e \<and> lh_hash e = hash))"

definition sc_cached :: "'v ShardedLRUCache \<Rightarrow> bytes \<Rightarrow> 'v option" where
  "sc_cached c key = lc_find (sc_shard c ! Shard (HashSlice key)) key (HashSlice key)"

lemma Shard_less: "Shard hash < kNumShards"
proof -
  have "unat (drop_bit 28 hash) = unat hash div 2 ^ 28" by (simp add: drop_bit_eq_div unat_div)
  moreover have "unat hash < 2 ^ 32" using unsigned_less [of hash] by simp
  ultimately show ?thesis by (simp add: Shard_def constants)
qed

lemma sc_update:
  assumes inv: "sc_inv c H" and i: "i < kNumShards" and s': "lc_inv s' g"
    and sh: "\<And>a e. lc_store s' a = Some e \<Longrightarrow> Shard (lh_hash e) = i \<and> H' (a, lh_hash e) = g a"
    and out: "\<And>a hash. Shard hash \<noteq> i \<Longrightarrow> H' (a, hash) = H (a, hash)"
    and alive: "\<And>a hash. Shard hash = i \<Longrightarrow> 0 < H' (a, hash) \<Longrightarrow> \<exists>e. lc_store s' a = Some e \<and> lh_hash e = hash"
  shows "sc_inv (c\<lparr>sc_shard := (sc_shard c)[i := s']\<rparr>) H'"
proof -
  let ?c = "c\<lparr>sc_shard := (sc_shard c)[i := s']\<rparr>"
  have len: "length (sc_shard c) = kNumShards" using inv by (simp add: sc_inv_def)
  have "held ?c H' i = g"
    using sh lc_invD(6) [OF s'] i len by (auto simp: held_def fun_eq_iff split: option.split)
  then have "lc_inv (sc_shard ?c ! i) (held ?c H' i)" using s' i len by simp
  moreover have "lc_inv (sc_shard ?c ! j) (held ?c H' j) \<and> (\<forall>a e. lc_store (sc_shard ?c ! j) a = Some e \<longrightarrow> Shard (lh_hash e) = j)"
    if j: "j < kNumShards" "j \<noteq> i" for j
  proof -
    have sj: "sc_shard ?c ! j = sc_shard c ! j" using j by simp
    have J: "lc_inv (sc_shard c ! j) (held c H j)" "\<And>a e. lc_store (sc_shard c ! j) a = Some e \<Longrightarrow> Shard (lh_hash e) = j"
      using inv j by (simp_all add: sc_inv_def)
    have "held ?c H' j = held c H j"
      using J(2) j(2) out by (auto simp: held_def sj fun_eq_iff split: option.split)
    then show ?thesis using J sj by simp
  qed
  moreover have "\<exists>e. lc_store (sc_shard ?c ! Shard hash) a = Some e \<and> lh_hash e = hash" if "0 < H' (a, hash)" for a hash
  proof (cases "Shard hash = i")
    case True
    then show ?thesis using alive [OF True that] i len by simp
  next
    case False
    then show ?thesis using inv that out [OF False] by (simp add: sc_inv_def)
  qed
  ultimately show ?thesis using len sh i unfolding sc_inv_def by (auto simp: nth_list_update)
qed

lemma sc_sub_update:
  assumes inv: "sc_inv c H" and i: "i < kNumShards" and s': "lc_inv s' g" and sub: "lc_sub s' (sc_shard c ! i)"
    and cnt: "\<And>a e. lc_store (sc_shard c ! i) a = Some e \<Longrightarrow> H' (a, lh_hash e) = g a"
    and out: "\<And>a hash. Shard hash \<noteq> i \<Longrightarrow> H' (a, hash) = H (a, hash)"
    and alive: "\<And>a hash. Shard hash = i \<Longrightarrow> 0 < H' (a, hash) \<Longrightarrow>
      \<exists>e. lc_store (sc_shard c ! i) a = Some e \<and> lh_hash e = hash"
  shows "sc_inv (c\<lparr>sc_shard := (sc_shard c)[i := s']\<rparr>) H'"
proof (rule sc_update [OF inv i s' _ out])
  show "Shard (lh_hash e') = i \<and> H' (a, lh_hash e') = g a" if "lc_store s' a = Some e'" for a e'
  proof -
    from lc_sub_hash [OF sub that] obtain e where "lc_store (sc_shard c ! i) a = Some e" "lh_hash e' = lh_hash e" .
    then show ?thesis using cnt inv i by (simp add: sc_inv_def)
  qed
  show "\<exists>e. lc_store s' a = Some e \<and> lh_hash e = hash" if h: "Shard hash = i" "0 < H' (a, hash)" for a hash
  proof -
    obtain e where e: "lc_store (sc_shard c ! i) a = Some e" "lh_hash e = hash" using alive [OF h] by blast
    then have "0 < g a" using cnt h by force
    then obtain e' where e': "lc_store s' a = Some e'" using lc_inv_alive [OF s'] by blast
    from lc_sub_hash [OF sub e'] show ?thesis using e e' by auto
  qed
qed

lemma sc_invD:
  assumes "sc_inv c H" and "i < kNumShards"
  shows "lc_inv (sc_shard c ! i) (held c H i)" and "i < length (sc_shard c)"
    and "\<And>a e. lc_store (sc_shard c ! i) a = Some e \<Longrightarrow> held c H i a = H (a, lh_hash e)"
    and "\<And>a hash. Shard hash = i \<Longrightarrow> 0 < H (a, hash) \<Longrightarrow> \<exists>e. lc_store (sc_shard c ! i) a = Some e \<and> lh_hash e = hash"
  using assms by (auto simp: sc_inv_def held_def)

lemma sc_cached_update:
  assumes "sc_inv c H" and "i < kNumShards"
    and "\<And>k hash v. lc_find s' k hash = Some v \<Longrightarrow> lc_find (sc_shard c ! i) k hash = Some v"
  shows "sc_cached (c\<lparr>sc_shard := (sc_shard c)[i := s']\<rparr>) \<subseteq>\<^sub>m sc_cached c"
  using assms(3) sc_invD(2) [OF assms(1,2)] by (auto simp: map_le_def sc_cached_def nth_list_update split: if_splits)

lemma SC_Lookup_inv:
  assumes inv: "sc_inv c H" and l: "SC_Lookup k c = (r, c')"
  shows "case r of None \<Rightarrow> sc_inv c' H \<and> sc_cached c' \<subseteq>\<^sub>m sc_cached c \<and> sc_cached c k = None
    | Some h \<Rightarrow> sc_inv c' (H(h := H h + 1)) \<and> sc_cached c' \<subseteq>\<^sub>m sc_cached c \<and> sc_cached c k = Some (SC_Value h c')"
proof -
  let ?hash = "HashSlice k" and ?i = "Shard (HashSlice k)"
  note D = sc_invD [OF inv Shard_less [of ?hash]]
  obtain x s' where x: "LC_Lookup k ?hash (sc_shard c ! ?i) = (x, s')" by fastforce
  have r: "r = map_option (\<lambda>a. (a, ?hash)) x" "c' = c\<lparr>sc_shard := (sc_shard c)[?i := s']\<rparr>"
    using l x by (simp_all add: SC_Lookup_def Let_def)
  note li = LC_Lookup_inv [OF D(1) x]
  show ?thesis
  proof (cases x)
    case None
    then show ?thesis using li r inv by (simp add: sc_cached_def)
  next
    case (Some a)
    let ?h = "(a, ?hash)"
    have s': "lc_inv s' ((held c H ?i)(a := held c H ?i a + 1))" "lc_sub s' (sc_shard c ! ?i)" "lc_sub (sc_shard c ! ?i) s'"
      "lc_find (sc_shard c ! ?i) k ?hash = Some (lh_value (the (lc_store s' a)))"
      using li Some by simp_all
    have "HT_Lookup (lc_store (sc_shard c ! ?i)) (lc_table (sc_shard c ! ?i)) k ?hash = Some a"
      using x Some by (auto simp: LC_Lookup_def Let_def split: option.splits)
    then have a: "a \<in> set (lc_lru (sc_shard c ! ?i))" "entry_id (lc_store (sc_shard c ! ?i)) a = (k, ?hash)"
      using HT_Lookup_ok [OF lc_invD(3,4) [OF D(1)]] by auto
    then obtain e where e: "lc_store (sc_shard c ! ?i) a = Some e" "lh_hash e = ?hash"
      using lc_invD(2) [OF D(1)] by (auto simp: entry_id_def)
    have "sc_inv c' (H(?h := H ?h + 1))"
      unfolding r(2)
      by (rule sc_sub_update [OF inv Shard_less s'(1,2)]) (use D(3,4) e in \<open>auto split: if_splits\<close>)
    moreover have "sc_cached c' \<subseteq>\<^sub>m sc_cached c"
      unfolding r(2) using lc_find_sub [OF D(1) s'(1,2)] by (intro sc_cached_update [OF inv Shard_less])
    moreover have "SC_Value ?h c' = lh_value (the (lc_store s' a))" using D(2) by (simp add: SC_Value_def r(2))
    ultimately show ?thesis using Some r(1) s'(4) by (simp add: sc_cached_def)
  qed
qed

lemma SC_Insert_inv:
  assumes inv: "sc_inv c H" and l: "SC_Insert k v n c = (h, c')"
  shows "sc_inv c' (H(h := H h + 1)) \<and> sc_cached c' \<subseteq>\<^sub>m (sc_cached c)(k \<mapsto> v) \<and> SC_Value h c' = v"
proof -
  let ?hash = "HashSlice k" and ?i = "Shard (HashSlice k)"
  note D = sc_invD [OF inv Shard_less [of ?hash]]
  let ?s = "sc_shard c ! ?i"
  obtain a s' where x: "LC_Insert k ?hash v n ?s = (a, s')" by fastforce
  have r: "h = (a, ?hash)" "c' = c\<lparr>sc_shard := (sc_shard c)[?i := s']\<rparr>"
    using l x by (simp_all add: SC_Insert_def Let_def)
  note li = LC_Insert_inv [OF D(1) x]
  have s': "lc_inv s' ((held c H ?i)(a := 1))" "lh_value (the (lc_store s' a)) = v" using li by blast+
  have st: "if b = a then lh_hash d = ?hash else \<exists>e. lc_store ?s b = Some e \<and> lh_hash d = lh_hash e"
    if "lc_store s' b = Some d" for b d using li that by blast
  have "lc_store ?s a = None" using lc_invD(5) [OF D(1)] x by (auto simp: LC_Insert_eq)
  then have Ha: "H (a, hs) = 0" if "Shard hs = ?i" for hs using D(4) [OF that, of a] by (cases "H (a, hs)") auto
  have "sc_inv c' (H(h := H h + 1))"
    unfolding r
  proof (rule sc_update [OF inv Shard_less s'(1)])
    show "Shard (lh_hash d) = ?i \<and> (H((a, ?hash) := H (a, ?hash) + 1)) (b, lh_hash d) = ((held c H ?i)(a := 1)) b"
      if d: "lc_store s' b = Some d" for b d
    proof (cases "b = a")
      case True
      then show ?thesis using st [OF d] Ha by simp
    next
      case False
      then obtain e where e: "lc_store ?s b = Some e" "lh_hash d = lh_hash e" using st [OF d] by auto
      moreover have "Shard (lh_hash e) = ?i" using inv e(1) Shard_less unfolding sc_inv_def by blast
      ultimately show ?thesis using False D(3) by simp
    qed
    show "\<exists>e. lc_store s' b = Some e \<and> lh_hash e = hs" if hs: "Shard hs = ?i" "0 < (H((a, ?hash) := H (a, ?hash) + 1)) (b, hs)" for b hs
    proof (cases "b = a")
      case True
      then have "hs = ?hash" using hs Ha by (auto split: if_splits)
      moreover obtain e where "lc_store s' a = Some e" using lc_inv_alive [OF s'(1), of a] by auto
      ultimately show ?thesis using st True by auto
    next
      case False
      then have "0 < H (b, hs)" using hs by simp
      then obtain e where e: "lc_store ?s b = Some e" "lh_hash e = hs" using D(4) [OF hs(1)] by blast
      then have "0 < ((held c H ?i)(a := 1)) b" using D(3) False \<open>0 < H (b, hs)\<close> by simp
      then obtain d where d: "lc_store s' b = Some d" using lc_inv_alive [OF s'(1)] by blast
      then show ?thesis using st [OF d] e False by auto
    qed
  qed auto
  moreover have "sc_cached c' \<subseteq>\<^sub>m (sc_cached c)(k \<mapsto> v)"
  proof (unfold map_le_def, rule ballI)
    fix k' assume "k' \<in> dom (sc_cached c')"
    then obtain w where w: "sc_cached c' k' = Some w" by blast
    show "sc_cached c' k' = ((sc_cached c)(k \<mapsto> v)) k'"
    proof (cases "Shard (HashSlice k') = ?i")
      case True
      then have "lc_find s' k' (HashSlice k') = Some w" using w D(2) by (simp add: sc_cached_def r(2))
      then show ?thesis using LC_Insert_inv [OF D(1) x, of k' "HashSlice k'" w] w True
        by (auto simp: sc_cached_def split: if_splits)
    next
      case False
      then show ?thesis using w by (auto simp: sc_cached_def r(2))
    qed
  qed
  moreover have "SC_Value h c' = v" using s'(2) D(2) by (simp add: SC_Value_def r)
  ultimately show ?thesis by blast
qed

lemma SC_Release_inv:
  assumes inv: "sc_inv c H" and h: "0 < H h"
  shows "sc_inv (SC_Release h c) (H(h := H h - 1)) \<and> sc_cached (SC_Release h c) \<subseteq>\<^sub>m sc_cached c"
proof -
  obtain a hash where ah: "h = (a, hash)" by fastforce
  let ?i = "Shard hash"
  note D = sc_invD [OF inv Shard_less [of hash]]
  let ?s = "sc_shard c ! ?i"
  obtain e where e: "lc_store ?s a = Some e" "lh_hash e = hash" using D(4) h ah by blast
  have ha: "held c H ?i a = H h" using D(3) [OF e(1)] e(2) ah by simp
  have u: "lc_inv (LC_Unref a ?s) ((held c H ?i)(a := held c H ?i a - 1))" "lc_sub (LC_Unref a ?s) ?s"
    using LC_Unref_inv [OF D(1), of a] h ha by simp_all
  have r: "SC_Release h c = c\<lparr>sc_shard := (sc_shard c)[?i := LC_Unref a ?s]\<rparr>"
    by (simp add: SC_Release_def LC_Release_def ah Let_def)
  have "sc_inv (SC_Release h c) (H(h := H h - 1))"
    unfolding r
  proof (rule sc_sub_update [OF inv Shard_less u])
    show "(H(h := H h - 1)) (b, lh_hash d) = ((held c H ?i)(a := held c H ?i a - 1)) b" if "lc_store ?s b = Some d" for b d
      using that D(3) [OF that] e ah ha by auto
    show "\<exists>d. lc_store ?s b = Some d \<and> lh_hash d = hs" if "Shard hs = ?i" "0 < (H(h := H h - 1)) (b, hs)" for b hs
      using D(4) [OF that(1), of b] that(2) by (auto split: if_splits)
  qed (use ah in auto)
  moreover have "sc_cached (SC_Release h c) \<subseteq>\<^sub>m sc_cached c"
    unfolding r using lc_find_sub [OF D(1) u] by (intro sc_cached_update [OF inv Shard_less])
  ultimately show ?thesis by blast
qed

lemma SC_Erase_inv:
  assumes inv: "sc_inv c H"
  shows "sc_inv (SC_Erase k c) H \<and> sc_cached (SC_Erase k c) \<subseteq>\<^sub>m (sc_cached c)(k := None)"
proof -
  let ?hash = "HashSlice k" and ?i = "Shard (HashSlice k)"
  note D = sc_invD [OF inv Shard_less [of ?hash]]
  let ?s = "sc_shard c ! ?i"
  note er = LC_Erase_inv [OF D(1), of k ?hash]
  then have u: "lc_inv (LC_Erase k ?hash ?s) (held c H ?i)" "lc_sub (LC_Erase k ?hash ?s) ?s" by blast+
  have r: "SC_Erase k c = c\<lparr>sc_shard := (sc_shard c)[?i := LC_Erase k ?hash ?s]\<rparr>"
    by (simp add: SC_Erase_def Let_def)
  have "sc_inv (SC_Erase k c) H"
    unfolding r by (rule sc_sub_update [OF inv Shard_less u]) (use D(3,4) in auto)
  moreover have m: "sc_cached (SC_Erase k c) \<subseteq>\<^sub>m sc_cached c"
    unfolding r using lc_find_sub [OF D(1) u] by (intro sc_cached_update [OF inv Shard_less])
  moreover have "sc_cached (SC_Erase k c) k = None" using er D(2) by (simp add: sc_cached_def r)
  ultimately show ?thesis by (auto simp: map_le_def dom_def)
qed

interpretation lru: cache_contract sharded_cache sc_inv sc_cached
proof (unfold_locales, goal_cases)
  case (1 c H k c')
  then show ?case using SC_Lookup_inv [of c H k None c'] by (simp add: sharded_cache_def)
next
  case (2 c H k h c')
  then show ?case using SC_Lookup_inv [of c H k "Some h" c'] by (simp add: sharded_cache_def)
next
  case (3 c H k v n h c')
  then show ?case using SC_Insert_inv by (simp add: sharded_cache_def)
next
  case (4 c H h)
  then show ?case using SC_Release_inv by (simp add: sharded_cache_def)
next
  case (5 c H k)
  then show ?case using SC_Erase_inv by (simp add: sharded_cache_def)
qed

section \<open>Properties\<close>

lemma mk_ShardedLRUCache_inv: "sc_inv (mk_ShardedLRUCache capacity :: 'v ShardedLRUCache) (\<lambda>_. 0)"
proof -
  define n where "n = (capacity + (kNumShards - 1)) div kNumShards"
  have h: "held (mk_ShardedLRUCache capacity :: 'v ShardedLRUCache) (\<lambda>_. 0) i = (\<lambda>_. 0)" for i
    by (auto simp: held_def fun_eq_iff split: option.split)
  have sh: "sc_shard (mk_ShardedLRUCache capacity :: 'v ShardedLRUCache) = replicate kNumShards (mk_LRUCache n)"
    by (simp add: mk_ShardedLRUCache_def n_def)
  have "lc_store (mk_LRUCache n :: 'v LRUCache) a = None" for a by (simp add: mk_LRUCache_def)
  then show ?thesis unfolding sc_inv_def h sh using mk_LRUCache_inv [where 'a = 'v, of n] by simp
qed

text \<open>Histories of a cache: the operations of its clients, with the count of the handles they hold.
  A client releases only what it holds.\<close>

inductive sc_reach :: "'v ShardedLRUCache \<Rightarrow> (CacheHandle \<Rightarrow> nat) \<Rightarrow> bool" where
  sc_new: "sc_reach (mk_ShardedLRUCache capacity) (\<lambda>_. 0)"
| sc_insert: "sc_reach c H \<Longrightarrow> SC_Insert k v n c = (h, c') \<Longrightarrow> sc_reach c' (H(h := H h + 1))"
| sc_hit: "sc_reach c H \<Longrightarrow> SC_Lookup k c = (Some h, c') \<Longrightarrow> sc_reach c' (H(h := H h + 1))"
| sc_miss: "sc_reach c H \<Longrightarrow> SC_Lookup k c = (None, c') \<Longrightarrow> sc_reach c' H"
| sc_release: "sc_reach c H \<Longrightarrow> 0 < H h \<Longrightarrow> sc_reach (SC_Release h c) (H(h := H h - 1))"
| sc_erase: "sc_reach c H \<Longrightarrow> sc_reach (SC_Erase k c) H"
| sc_id: "sc_reach c H \<Longrightarrow> sc_reach (snd (SC_NewId c)) H"

lemma sc_reach_inv: "sc_reach c H \<Longrightarrow> sc_inv c H"
proof (induction rule: sc_reach.induct)
  case (sc_hit c H k h c')
  have "sc_inv c' (H(h := H h + 1)) \<and> sc_cached c' \<subseteq>\<^sub>m sc_cached c \<and> sc_cached c k = Some (SC_Value h c')"
    using SC_Lookup_inv [OF sc_hit.IH sc_hit.hyps(2)] by (simp only: option.case)
  then show ?case by (rule conjunct1)
next
  case (sc_miss c H k c')
  then show ?case using SC_Lookup_inv [of c H k None c'] by simp
next
  case (sc_id c H)
  have "held (snd (SC_NewId c)) H = held c H" by (simp add: held_def fun_eq_iff SC_NewId_def Let_def)
  then show ?case using sc_id by (simp add: sc_inv_def) (simp add: SC_NewId_def Let_def)
next
  case (sc_insert c H k v n h c')
  show ?case by (rule conjunct1 [OF SC_Insert_inv [OF sc_insert.IH sc_insert.hyps(2)]])
next
  case (sc_release c H h)
  show ?case by (rule conjunct1 [OF SC_Release_inv [OF sc_release.IH sc_release.hyps(2)]])
next
  case (sc_erase c H k)
  show ?case by (rule conjunct1 [OF SC_Erase_inv [OF sc_erase.IH]])
qed (rule mk_ShardedLRUCache_inv)


definition sample_insert :: "CacheHandle \<times> nat ShardedLRUCache" where
  "sample_insert = SC_Insert [1, 2] 7 10 (mk_ShardedLRUCache 1000)"

lemma sample_insert_reach: "sc_reach (snd sample_insert) ((\<lambda>_. 0)(fst sample_insert := 0 + 1))"
  by (rule sc_insert [OF sc_new [of 1000], of "[1, 2]" 7 10]) (simp add: sample_insert_def)




end
