(* ===== verification/Table.thy ===== *)
theory Table
  imports TableBuilder Cache
begin

text \<open>
  Reading tables, \<^verbatim>\<open>table/table.cc\<close>.  The file and the block cache are arguments, the
  latter by its interface \<open>Cache\<close>.  \<open>FILE_LEVEL_FILTER\<close> is defined by
  \<^verbatim>\<open>db/version_set.h\<close>, so \<open>InternalGet\<close> does not consult the filter block.  Timers are left
  out.
\<close>

section \<open>Iterators without entries\<close>

definition ABI_Valid :: "AnyBlockIter \<Rightarrow> bool" where
  "ABI_Valid it = (case it of Iter i \<Rightarrow> BI_Valid i | _ \<Rightarrow> False)"

definition ABI_key :: "AnyBlockIter \<Rightarrow> bytes" where
  "ABI_key it = (case it of Iter i \<Rightarrow> bi_key i | _ \<Rightarrow> [])"

definition ABI_value :: "AnyBlockIter \<Rightarrow> bytes" where
  "ABI_value it = (case it of Iter i \<Rightarrow> BI_value i | _ \<Rightarrow> [])"

definition ABI_status :: "AnyBlockIter \<Rightarrow> Status" where
  "ABI_status it = (case it of Iter i \<Rightarrow> bi_status i | ErrorIterator s \<Rightarrow> s | EmptyIterator \<Rightarrow> OK)"

definition ABI_Seek :: "(bytes \<Rightarrow> bytes \<Rightarrow> int) \<Rightarrow> bytes \<Rightarrow> AnyBlockIter \<Rightarrow> AnyBlockIter" where
  "ABI_Seek cmp target it = (case it of Iter i \<Rightarrow> Iter (BI_Seek cmp target i) | _ \<Rightarrow> it)"

definition ABI_SeekToFirst :: "AnyBlockIter \<Rightarrow> AnyBlockIter" where
  "ABI_SeekToFirst it = (case it of Iter i \<Rightarrow> Iter (BI_SeekToFirst i) | _ \<Rightarrow> it)"

definition ABI_SeekToLast :: "AnyBlockIter \<Rightarrow> AnyBlockIter" where
  "ABI_SeekToLast it = (case it of Iter i \<Rightarrow> Iter (BI_SeekToLast i) | _ \<Rightarrow> it)"

definition ABI_Next :: "AnyBlockIter \<Rightarrow> AnyBlockIter" where
  "ABI_Next it = (case it of Iter i \<Rightarrow> Iter (BI_Next i) | _ \<Rightarrow> it)"

definition ABI_Prev :: "AnyBlockIter \<Rightarrow> AnyBlockIter" where
  "ABI_Prev it = (case it of Iter i \<Rightarrow> Iter (BI_Prev i) | _ \<Rightarrow> it)"

section \<open>Opening a table\<close>

record Table =
  t_options :: Options
  t_file :: RandomAccessFile
  t_cache_id :: u64
  t_filter :: "(FilterPolicy \<times> FilterBlockReader) option"
  t_metaindex_handle :: BlockHandle
  t_index_block :: Block

definition ReadFilter :: "Snappy \<Rightarrow> FilterPolicy \<Rightarrow> bytes \<Rightarrow> Table \<Rightarrow> Table" where
  "ReadFilter snappy policy filter_handle_value t =
    (case BH_DecodeFrom filter_handle_value of
       Inl _ \<Rightarrow> t
     | Inr (filter_handle, _) \<Rightarrow>
         (case ReadBlock snappy (t_file t) (ro_verify_checksums mk_ReadOptions) filter_handle of
            Inl _ \<Rightarrow> t
          | Inr block \<Rightarrow> t\<lparr>t_filter := Some (policy, mk_FilterBlockReader (bc_data block))\<rparr>))"

definition ReadMeta :: "Snappy \<Rightarrow> Footer \<Rightarrow> Table \<Rightarrow> Table" where
  "ReadMeta snappy footer t =
    (case opt_filter_policy (t_options t) of
       None \<Rightarrow> t
     | Some policy \<Rightarrow>
         (case ReadBlock snappy (t_file t) (ro_verify_checksums mk_ReadOptions) (ft_metaindex_handle footer) of
            Inl _ \<Rightarrow> t
          | Inr contents \<Rightarrow>
              let meta = mk_Block (bc_data contents);
                  key = str ''filter.'' @ fp_Name policy;
                  iter = ABI_Seek Slice_compare key (Block_NewIterator meta)
              in if ABI_Valid iter \<and> ABI_key iter = key then ReadFilter snappy policy (ABI_value iter) t else t))"

text \<open>\<open>new_id\<close> is what \<open>NewId\<close> of the block cache gives.\<close>

definition Table_Open :: "Snappy \<Rightarrow> u64 \<Rightarrow> Options \<Rightarrow> RandomAccessFile \<Rightarrow> u64 \<Rightarrow> Status + Table" where
  "Table_Open snappy new_id opt fl sz =
    (if sz < of_nat Footer_kEncodedLength
     then Inl (InvalidArgument (str ''file is too short to be an sstable'') [])
     else let (s, footer_input, _) = fl (sz - of_nat Footer_kEncodedLength) Footer_kEncodedLength
          in if \<not> ok s then Inl s
             else case Footer_DecodeFrom footer_input of
                    Inl s \<Rightarrow> Inl s
                  | Inr (footer, _) \<Rightarrow>
                      (case ReadBlock snappy fl (ro_verify_checksums mk_ReadOptions) (ft_index_handle footer) of
                         Inl s \<Rightarrow> Inl s
                       | Inr contents \<Rightarrow>
                           Inr (ReadMeta snappy footer
                             \<lparr>t_options = opt, t_file = fl,
                              t_cache_id = (if opt_block_cache opt \<noteq> None then new_id else 0), t_filter = None,
                              t_metaindex_handle = ft_metaindex_handle footer,
                              t_index_block = mk_Block (bc_data contents)\<rparr>)))"

section \<open>Reading\<close>

definition block_cache_key :: "Table \<Rightarrow> BlockHandle \<Rightarrow> bytes" where
  "block_cache_key t handle = EncodeFixed64 (t_cache_id t) @ EncodeFixed64 (bh_offset handle)"

text \<open>The iterator on a block, and the cache handle that its destruction releases: \<open>ReleaseBlock\<close> is
  its registered cleanup.  Without a handle the cleanup frees the block.\<close>

definition BlockReader ::
    "Snappy \<Rightarrow> (Block, 'h, 'c) Cache \<Rightarrow> ReadOptions \<Rightarrow> Table \<Rightarrow> bytes \<Rightarrow> 'c \<Rightarrow> AnyBlockIter \<times> 'h option \<times> 'c" where
  "BlockReader snappy C options t index_value cache =
    (case BH_DecodeFrom index_value of
       Inl s \<Rightarrow> (ErrorIterator s, None, cache)
     | Inr (handle, _) \<Rightarrow>
         if opt_block_cache (t_options t) \<noteq> None
         then let key = block_cache_key t handle;
                  (cache_handle, cache) = ca_Lookup C key cache
              in case cache_handle of
                   Some h \<Rightarrow> (Block_NewIterator (ca_Value C h cache), Some h, cache)
                 | None \<Rightarrow>
                     (case ReadBlock snappy (t_file t) (ro_verify_checksums options) handle of
                        Inl s \<Rightarrow> (ErrorIterator s, None, cache)
                      | Inr contents \<Rightarrow>
                          let block = mk_Block (bc_data contents)
                          in if bc_cachable contents \<and> ro_fill_cache options
                             then let (h, cache) = ca_Insert C key block (bl_size block) cache
                                  in (Block_NewIterator block, Some h, cache)
                             else (Block_NewIterator block, None, cache))
         else (case ReadBlock snappy (t_file t) (ro_verify_checksums options) handle of
                 Inl s \<Rightarrow> (ErrorIterator s, None, cache)
               | Inr contents \<Rightarrow> (Block_NewIterator (mk_Block (bc_data contents)), None, cache)))"

definition ReleaseBlock :: "(Block, 'h, 'c) Cache \<Rightarrow> 'h option \<Rightarrow> 'c \<Rightarrow> 'c" where
  "ReleaseBlock C cleanup cache = (case cleanup of Some h \<Rightarrow> ca_Release C h cache | None \<Rightarrow> cache)"

definition InternalGet ::
    "Snappy \<Rightarrow> (Block, 'h, 'c) Cache \<Rightarrow> ReadOptions \<Rightarrow> Table \<Rightarrow> bytes \<Rightarrow> ('a \<Rightarrow> bytes \<Rightarrow> bytes \<Rightarrow> 'a) \<Rightarrow> 'a \<Rightarrow> 'c \<Rightarrow> Status \<times> 'a \<times> 'c" where
  "InternalGet snappy C options t k saver arg cache =
    (let cmp = cm_Compare (opt_comparator (t_options t));
         iiter = ABI_Seek cmp k (Block_NewIterator (t_index_block t));
         (s, arg, cache) =
           (if ABI_Valid iiter
            then let (block_iter, cleanup, cache) = BlockReader snappy C options t (ABI_value iiter) cache;
                     block_iter = ABI_Seek cmp k block_iter;
                     arg = (if ABI_Valid block_iter then saver arg (ABI_key block_iter) (ABI_value block_iter) else arg)
                 in (ABI_status block_iter, arg, ReleaseBlock C cleanup cache)
            else (OK, arg, cache));
         s = (if ok s then ABI_status iiter else s)
     in (s, arg, cache))"

definition ApproximateOffsetOf :: "Table \<Rightarrow> bytes \<Rightarrow> u64" where
  "ApproximateOffsetOf t key =
    (let index_iter = ABI_Seek (cm_Compare (opt_comparator (t_options t))) key (Block_NewIterator (t_index_block t))
     in if ABI_Valid index_iter
        then case BH_DecodeFrom (ABI_value index_iter) of
               Inr (handle, _) \<Rightarrow> bh_offset handle
             | Inl _ \<Rightarrow> bh_offset (t_metaindex_handle t)
        else bh_offset (t_metaindex_handle t))"


section \<open>Sizes\<close>

definition entries_size :: "(bytes \<times> bytes) list \<Rightarrow> nat" where
  "entries_size es = sum_list (map (\<lambda>e. length (fst e) + length (snd e) + 40) es) + 8"

lemma piece_bytes_length_le: "length (piece_bytes p) \<le> length (piece_key p) + length (piece_value p) + 15"
proof (cases p)
  case (fields s k v)
  then show ?thesis
    using length_EncodeVarint32 [of "of_nat s"] length_EncodeVarint32 [of "of_nat (length k - s)"]
      length_EncodeVarint32 [of "of_nat (length v)"] by simp
qed

lemma restarts_length:
  assumes "restarts_ok ps rs"
  shows "length rs \<le> length ps + 1"
proof -
  have "set rs \<subseteq> {..length ps}" using assms by (auto simp: restarts_ok_def)
  then have "card (set rs) \<le> length ps + 1" using card_mono [of "{..length ps}" "set rs"] by simp
  moreover have "distinct rs" using assms by (simp add: restarts_ok_def strict_sorted_iff)
  ultimately show ?thesis by (simp add: distinct_card)
qed

lemma block_of_length:
  assumes "1 \<le> interval"
  shows "length (block_of interval es) \<le> sum_list (map (\<lambda>e. length (fst e) + length (snd e) + 19) es) + 8"
proof -
  obtain ps rs where r: "builder_rep interval (foldl (\<lambda>b e. BB_Add interval (fst e) (snd e) b) mk_BlockBuilder es) ps rs"
    "map snd ps = es"
    using BB_Adds_rep [OF assms mk_BlockBuilder_rep(1), of es] by auto
  have "length (concat (map piece_bytes ps)) \<le> sum_list (map (\<lambda>p. length (piece_key p) + length (piece_value p) + 15) ps)"
    using piece_bytes_length_le by (induction ps) (auto intro: add_mono)
  moreover have "length rs \<le> length ps + 1" using r restarts_length by (auto simp: builder_rep_def)
  moreover have "sum_list (map (\<lambda>p. length (piece_key p) + length (piece_value p) + 15) ps) + 4 * length ps =
      sum_list (map (\<lambda>p. length (piece_key p) + length (piece_value p) + 19) ps)"
    by (induction ps) auto
  moreover have "sum_list (map (\<lambda>e. length (fst e) + length (snd e) + 19) es) =
      sum_list (map (\<lambda>p. length (piece_key p) + length (piece_value p) + 19) ps)"
    unfolding r(2) [symmetric] by (simp add: comp_def)
  moreover have "length (block_of interval es) = length (concat (map piece_bytes ps)) + 4 * length rs + 4"
    using BB_Finish_rep [OF r(1)] by (simp add: block_of_def block_bytes_def concat_EncodeFixed32_length)
  ultimately show ?thesis by simp
qed

section \<open>Seeking in a finished block\<close>

context key_comparator
begin

lemma block_seek_at:
  fixes k
  assumes "1 \<le> interval" and "length (block_of interval es) < 2 ^ 32"
    and "sorted_wrt (\<lambda>a b. Compare (fst a) (fst b) < 0) es"
  defines "it \<equiv> ABI_Seek Compare k (Block_NewIterator (mk_Block (block_of interval es)))"
    and "n \<equiv> length (takeWhile (\<lambda>e. Compare (fst e) k < 0) es)"
  shows "ABI_status it = OK" and "ABI_Valid it \<longleftrightarrow> n < length es"
    and "n < length es \<Longrightarrow> ABI_key it = fst (es ! n) \<and> ABI_value it = snd (es ! n)"
proof -
  obtain ps rs where l: "layout (block_of interval es) ps rs" "map snd ps = es"
    using block_of_layout [OF assms(1,2)] by blast
  then have len: "length ps = length es" by auto
  obtain i where i: "Block_NewIterator (mk_Block (block_of interval es)) = Iter i" "iter_on i ps rs"
    using NewIterator_layout [OF l(1)] by blast
  have s: "sorted_wrt (\<lambda>p q. Compare (piece_key p) (piece_key q) < 0) ps"
    using assms(3) unfolding l(2) [symmetric] by (simp add: sorted_wrt_map)
  have n: "n = length (takeWhile (\<lambda>q. Compare (piece_key q) k < 0) ps)"
    unfolding n_def l(2) [symmetric] by (simp add: takeWhile_map comp_def)
  note at = BI_Seek_at [OF i(2) s, of k, folded n]
  have it: "it = Iter (BI_Seek Compare k i)" by (simp add: it_def ABI_Seek_def i(1))
  show "ABI_status it = OK" using at by (simp add: it ABI_status_def block_at_def iter_on_def)
  show "ABI_Valid it \<longleftrightarrow> n < length es"
  proof (cases "n < length es")
    case True
    then have "at_entry (BI_Seek Compare k i) ps rs n" "iter_on (BI_Seek Compare k i) ps rs"
      using at len by (simp_all add: block_at_def)
    then show ?thesis using True len at_entry_valid by (simp add: it ABI_Valid_def)
  next
    case False
    then show ?thesis using at len by (simp add: it ABI_Valid_def block_at_def)
  qed
  show "ABI_key it = fst (es ! n) \<and> ABI_value it = snd (es ! n)" if n: "n < length es"
  proof -
    have "map snd ps ! n = snd (ps ! n)" by (rule nth_map) (use n len in simp)
    then have "es ! n = snd (ps ! n)" unfolding l(2) .
    then show ?thesis using at n len by (simp add: it ABI_key_def ABI_value_def block_at_def at_entry_def)
  qed
qed

end

section \<open>The order of the index\<close>

lemma sorted_wrt_concat:
  assumes "sorted_wrt P (concat bss)"
  shows "i < length bss \<Longrightarrow> sorted_wrt P (bss ! i)"
    and "i < j \<Longrightarrow> j < length bss \<Longrightarrow> x \<in> set (bss ! i) \<Longrightarrow> y \<in> set (bss ! j) \<Longrightarrow> P x y"
proof -
  have "(i < length bss \<longrightarrow> sorted_wrt P (bss ! i)) \<and>
    (i < j \<and> j < length bss \<and> x \<in> set (bss ! i) \<and> y \<in> set (bss ! j) \<longrightarrow> P x y)" for i j
    using assms
  proof (induction bss arbitrary: i j)
    case (Cons b bss)
    have b: "sorted_wrt P b" "sorted_wrt P (concat bss)" "\<forall>x \<in> set b. \<forall>y \<in> set (concat bss). P x y"
      using Cons.prems by (simp_all add: sorted_wrt_append)
    note IH = Cons.IH [OF b(2)]
    show ?case
    proof (cases i)
      case 0
      then show ?thesis using b by (cases j) (auto intro: nth_mem)
    next
      case (Suc i')
      then show ?thesis using IH [of i'] IH [of i' "j - 1"] by (cases j) auto
    qed
  qed simp
  then show "i < length bss \<Longrightarrow> sorted_wrt P (bss ! i)"
    "i < j \<Longrightarrow> j < length bss \<Longrightarrow> x \<in> set (bss ! i) \<Longrightarrow> y \<in> set (bss ! j) \<Longrightarrow> P x y" by blast+
qed

context key_shortener
begin

lemma sorted_hd_last:
  assumes "sorted_wrt (\<lambda>a b. Compare (fst a) (fst b) < 0) es" and "e \<in> set es"
  shows "Compare (fst e) (fst (last es)) \<le> 0" and "Compare (fst (hd es)) (fst e) \<le> 0"
proof -
  from assms(2) obtain i where i: "i < length es" "e = es ! i" by (auto simp: in_set_conv_nth)
  moreover have "es \<noteq> []" using assms(2) by auto
  ultimately have l: "last es = es ! (length es - 1)" "hd es = es ! 0" by (simp_all add: last_conv_nth hd_conv_nth)
  show "Compare (fst e) (fst (last es)) \<le> 0"
    using assms(1) i l Compare_refl by (cases "i = length es - 1") (auto simp: sorted_wrt_iff_nth_less intro: less_imp_le)
  show "Compare (fst (hd es)) (fst e) \<le> 0"
    using assms(1) i l Compare_refl by (cases "i = 0") (auto simp: sorted_wrt_iff_nth_less intro: less_imp_le)
qed

lemma table_blocks_order:
  assumes tb: "table_blocks opt bss keys" and srt: "sorted_wrt (\<lambda>a b. Compare (fst a) (fst b) < 0) (concat bss)"
    and cm: "cm_FindShortestSeparator (opt_comparator opt) = FindShortestSeparator"
      "cm_FindShortSuccessor (opt_comparator opt) = FindShortSuccessor"
  shows "i < length bss \<Longrightarrow> e \<in> set (bss ! i) \<Longrightarrow> Compare (fst e) (keys ! i) \<le> 0"
    and "i < j \<Longrightarrow> j < length bss \<Longrightarrow> e \<in> set (bss ! j) \<Longrightarrow> Compare (keys ! i) (fst e) < 0"
    and "sorted_wrt (\<lambda>a b. Compare a b < 0) keys"
proof -
  have ne: "bss ! i \<noteq> []" if "i < length bss" for i using tb that unfolding table_blocks_def by (metis nth_mem)
  have lower: "Compare (fst (last (bss ! i))) (keys ! i) \<le> 0" if i: "i < length bss" for i
  proof (cases "Suc i < length bss")
    case True
    have "Compare (fst (last (bss ! i))) (fst (hd (bss ! Suc i))) < 0"
      using sorted_wrt_concat(2) [OF srt, of i "Suc i" "last (bss ! i)" "hd (bss ! Suc i)"] ne i True by simp
    then show ?thesis using tb True i separator_lower by (simp add: table_blocks_def cm)
  next
    case False
    then show ?thesis using tb i successor_lower by (simp add: table_blocks_def cm)
  qed
  have upper: "Compare (keys ! i) (fst (hd (bss ! Suc i))) < 0" if i: "Suc i < length bss" for i
  proof -
    have "Compare (fst (last (bss ! i))) (fst (hd (bss ! Suc i))) < 0"
      using sorted_wrt_concat(2) [OF srt, of i "Suc i" "last (bss ! i)" "hd (bss ! Suc i)"] ne i by simp
    then show ?thesis using tb i separator_upper by (simp add: table_blocks_def cm)
  qed
  show le: "Compare (fst e) (keys ! i) \<le> 0" if "i < length bss" "e \<in> set (bss ! i)" for i e
    using sorted_hd_last(1) [OF sorted_wrt_concat(1) [OF srt that(1)] that(2)] lower [OF that(1)] Compare_trans by blast
  show gt: "Compare (keys ! i) (fst e) < 0" if ij: "i < j" "j < length bss" "e \<in> set (bss ! j)" for i j e
  proof -
    have "Compare (fst (hd (bss ! Suc i))) (fst e) \<le> 0"
    proof (cases "j = Suc i")
      case True
      then show ?thesis using sorted_hd_last(2) [OF sorted_wrt_concat(1) [OF srt ij(2)] ij(3)] by simp
    next
      case False
      then show ?thesis
        using sorted_wrt_concat(2) [OF srt, of "Suc i" j "hd (bss ! Suc i)" e] ij ne [of "Suc i"] by simp
    qed
    moreover have "Compare (keys ! i) (fst (hd (bss ! Suc i))) < 0" using ij by (intro upper) simp
    ultimately show ?thesis using Compare_less_le_trans by blast
  qed
  have "Compare (keys ! i) (keys ! j) < 0" if ij: "i < j" "j < length keys" for i j
  proof -
    have j: "j < length bss" using ij tb by (simp add: table_blocks_def)
    then have "Compare (keys ! i) (fst (hd (bss ! j))) < 0" "Compare (fst (hd (bss ! j))) (keys ! j) \<le> 0"
      using gt [OF ij(1) j, of "hd (bss ! j)"] le [OF j, of "hd (bss ! j)"] ne [OF j] by simp_all
    then show ?thesis by (rule Compare_less_le_trans)
  qed
  then show "sorted_wrt (\<lambda>a b. Compare a b < 0) keys" by (simp add: sorted_wrt_iff_nth_less)
qed

end

context user_order
begin

lemma separator_user:
  assumes "InternalKey_Compare Compare s l < 0"
    and "InternalKey_FindShortestSeparator Compare FindShortestSeparator s l \<noteq> s"
  shows "Compare (ExtractUserKey (InternalKey_FindShortestSeparator Compare FindShortestSeparator s l)) (ExtractUserKey l) < 0"
proof -
  let ?us = "ExtractUserKey s" and ?ul = "ExtractUserKey l"
  let ?tmp = "FindShortestSeparator ?us ?ul"
  have t: "length ?tmp < length ?us" "Compare ?us ?tmp < 0"
    using assms(2) by (auto simp: InternalKey_FindShortestSeparator_def Let_def split: if_splits)
  have le: "Compare ?us ?ul \<le> 0" using assms(1) internal_le_iff [of s l] by force
  have "Compare ?us ?ul < 0"
  proof (rule ccontr)
    assume "\<not> Compare ?us ?ul < 0"
    with le have "Compare ?us ?ul = 0" by simp
    then have "Compare ?tmp ?ul \<le> 0" "Compare ?ul ?us = 0"
      using separator_equal Compare_zero_sym by blast+
    then show False using t Compare_trans Compare_less_iff by (metis order.refl)
  qed
  then have "Compare ?tmp ?ul < 0" by (rule separator_upper)
  then show ?thesis using t by (simp add: InternalKey_FindShortestSeparator_def Let_def)
qed

end

lemma shortened_length:
  "length (InternalKey_FindShortestSeparator ucmp usep s l) \<le> length s"
  "length (InternalKey_FindShortSuccessor ucmp usucc s) \<le> length s"
  by (auto simp: InternalKey_FindShortestSeparator_def InternalKey_FindShortSuccessor_def Let_def
      ExtractUserKey_def PutFixed64_def)

section \<open>Reading a finished table\<close>

lemma ReadBlock_stored_raw:
  assumes "snappy_ok snappy" and "data = pre @ stored_raw snappy opt raw @ post" and "length pre < 2 ^ 64"
    and "length raw < 2 ^ 32 - 1"
  shows "\<exists>c. ReadBlock snappy (mem_Read scr data) verify
    \<lparr>bh_offset = of_nat (length pre), bh_size = of_nat (stored_len snappy opt raw)\<rparr> = Inr c \<and> bc_data c = raw"
proof -
  obtain c t where ct: "stored_form snappy opt raw = (c, t)" by fastforce
  then have "(t = kNoCompression \<and> raw = c) \<or> (t = kSnappyCompression \<and>
      sn_GetUncompressedLength snappy c = Some (length raw) \<and> sn_Uncompress snappy c = Some raw)" "length c \<le> length raw"
    using assms(1) by (auto simp: stored_form_def snappy_ok_def split: if_splits option.splits)
  then show ?thesis
    using ReadBlock_stored [of data pre c t post raw snappy scr verify] assms ct by (simp add: stored_raw_def stored_len_def)
qed

lemma data_bytes_nth:
  assumes "i < length bss"
  shows "data_bytes snappy opt bss = data_bytes snappy opt (take i bss) @ stored_raw snappy opt (data_raw opt (bss ! i)) @
    data_bytes snappy opt (drop (Suc i) bss)"
proof -
  have "data_bytes snappy opt bss = data_bytes snappy opt (take i bss @ bss ! i # drop (Suc i) bss)"
    using assms by (simp add: id_take_nth_drop [symmetric])
  then show ?thesis by (simp add: data_bytes_def)
qed

lemma data_bytes_offset_less:
  assumes "i < j" and "j \<le> length bss"
  shows "length (data_bytes snappy opt (take i bss)) < length (data_bytes snappy opt (take j bss))"
proof -
  have "data_bytes snappy opt (take j bss) = data_bytes snappy opt (take i bss) @
      stored_raw snappy opt (data_raw opt (bss ! i)) @ data_bytes snappy opt (drop (Suc i) (take j bss))"
    using data_bytes_nth [of i "take j bss" snappy opt] assms by (simp add: min_absorb1)
  then show ?thesis by (simp add: length_stored_raw constants)
qed

definition table_of :: "Snappy \<Rightarrow> Options \<Rightarrow> (bytes \<times> bytes) list list \<Rightarrow> bytes list \<Rightarrow> Table \<Rightarrow> bool" where
  "table_of snappy opt bss keys t \<longleftrightarrow> t_options t = opt \<and>
     t_index_block t = mk_Block (index_raw snappy opt bss keys) \<and>
     (\<exists>mid m scr. t_file t = mem_Read scr (table_bytes snappy opt bss keys mid m) \<and>
        length (table_bytes snappy opt bss keys mid m) < 2 ^ 64)"

lemma table_of_ReadBlock:
  assumes "snappy_ok snappy" and "table_of snappy opt bss keys t" and "i < length bss"
    and "length (data_raw opt (bss ! i)) < 2 ^ 32 - 1"
  shows "\<exists>c. ReadBlock snappy (t_file t) verify (block_handle snappy opt bss i) = Inr c \<and> bc_data c = data_raw opt (bss ! i)"
proof -
  obtain mid m scr where f: "t_file t = mem_Read scr (table_bytes snappy opt bss keys mid m)"
    "length (table_bytes snappy opt bss keys mid m) < 2 ^ 64"
    using assms(2) by (auto simp: table_of_def)
  obtain post where "table_bytes snappy opt bss keys mid m =
      data_bytes snappy opt (take i bss) @ stored_raw snappy opt (data_raw opt (bss ! i)) @ post"
    using data_bytes_nth [OF assms(3), of snappy opt] by (auto simp: table_bytes_def Let_def)
  then show ?thesis
    using ReadBlock_stored_raw [OF assms(1) _ _ assms(4), of _ "data_bytes snappy opt (take i bss)" opt post scr verify] f
    by (simp add: block_handle_def)
qed

lemma u64_of_nat: "n < 2 ^ 64 \<Longrightarrow> unat (of_nat n :: u64) = n"
  by simp

lemma block_cache_key_inj:
  assumes "table_of snappy opt bss keys t" and "i < length bss" and "j < length bss"
    and "block_cache_key t (block_handle snappy opt bss i) = block_cache_key t (block_handle snappy opt bss j)"
  shows "i = j"
proof (rule ccontr)
  assume "i \<noteq> j"
  let ?o = "\<lambda>i. length (data_bytes snappy opt (take i bss))"
  have "EncodeFixed64 (of_nat (?o i)) = EncodeFixed64 (of_nat (?o j))"
    using assms(4) by (simp add: block_cache_key_def block_handle_def)
  then have "of_nat (?o i) = (of_nat (?o j) :: u64)" by (metis DecodeFixed64_self)
  moreover have "?o i < 2 ^ 64" "?o j < 2 ^ 64"
  proof -
    have "length (data_bytes snappy opt bss) < 2 ^ 64"
      using assms(1) by (auto simp: table_of_def table_bytes_def Let_def)
    moreover have "?o n \<le> length (data_bytes snappy opt bss)" if "n < length bss" for n
      by (subst data_bytes_nth [OF that]) simp
    ultimately show "?o i < 2 ^ 64" "?o j < 2 ^ 64" using assms(2,3) by (meson le_less_trans)+
  qed
  ultimately have "?o i = ?o j" by (metis u64_of_nat)
  then show False
    using \<open>i \<noteq> j\<close> data_bytes_offset_less [of i j bss snappy opt] data_bytes_offset_less [of j i bss snappy opt] assms(2,3)
    by (cases i j rule: linorder_cases) auto
qed

definition coherent :: "('c \<Rightarrow> bytes \<Rightarrow> Block option) \<Rightarrow> 'c \<Rightarrow> Snappy \<Rightarrow> Options \<Rightarrow> (bytes \<times> bytes) list list \<Rightarrow> Table \<Rightarrow> bool" where
  "coherent cached c snappy opt bss t \<longleftrightarrow> (opt_block_cache opt \<noteq> None \<longrightarrow> (\<forall>i < length bss. \<forall>b.
     cached c (block_cache_key t (block_handle snappy opt bss i)) = Some b \<longrightarrow> b = mk_Block (data_raw opt (bss ! i))))"

lemma coherent_mono: "cached c' \<subseteq>\<^sub>m cached c \<Longrightarrow> coherent cached c snappy opt bss t \<Longrightarrow> coherent cached c' snappy opt bss t"
  by (auto simp: coherent_def map_le_def dom_def)

lemma sum_list_concat_mem: "x \<in> set xss \<Longrightarrow> sum_list (map f x) \<le> sum_list (map f (concat xss))" for f :: "'a \<Rightarrow> nat"
  by (induction xss) auto

lemma data_raw_length:
  assumes "1 \<le> opt_block_restart_interval opt" and "i < length bss"
  shows "length (data_raw opt (bss ! i)) \<le> entries_size (concat bss)"
proof -
  let ?f = "\<lambda>n e :: bytes \<times> bytes. length (fst e) + length (snd e) + n"
  have "sum_list (map (?f 19) (bss ! i)) \<le> sum_list (map (?f 40) (bss ! i))" by (intro sum_list_mono) simp
  also have "\<dots> \<le> sum_list (map (?f 40) (concat bss))" using assms(2) by (intro sum_list_concat_mem) simp
  finally show ?thesis
    using block_of_length [OF assms(1), of "bss ! i"] by (simp add: data_raw_def entries_size_def)
qed

lemma index_raw_length:
  assumes tb: "table_blocks opt bss keys" and cm: "opt_comparator opt = InternalKeyComparator adr ucmp"
  shows "length (index_raw snappy opt bss keys) \<le> entries_size (concat bss)"
proof -
  let ?f = "\<lambda>n e :: bytes \<times> bytes. length (fst e) + length (snd e) + n"
  have len: "length keys = length bss" using tb by (simp add: table_blocks_def)
  have "sum_list (map (?f 19) (index_entries snappy opt bss keys)) =
      sum_list (map (\<lambda>i. ?f 19 (keys ! i, BH_EncodeTo (block_handle snappy opt bss i) [])) [0..<length bss])"
    by (simp add: index_entries_def len comp_def)
  also have "\<dots> \<le> sum_list (map (\<lambda>i. sum_list (map (?f 40) (bss ! i))) [0..<length bss])"
  proof (rule sum_list_mono)
    fix i assume "i \<in> set [0..<length bss]"
    then have i: "i < length bss" by simp
    have ne: "bss ! i \<noteq> []" using tb i unfolding table_blocks_def by (metis nth_mem)
    have "length (keys ! i) \<le> length (fst (last (bss ! i)))"
      using tb i shortened_length by (auto simp: table_blocks_def cm InternalKeyComparator_def)
    moreover have "?f 40 (last (bss ! i)) \<le> sum_list (map (?f 40) (bss ! i))"
      using ne by (intro member_le_sum_list) simp_all
    ultimately show "?f 19 (keys ! i, BH_EncodeTo (block_handle snappy opt bss i) []) \<le> sum_list (map (?f 40) (bss ! i))"
      using BH_EncodeTo_length [of "block_handle snappy opt bss i"] by simp
  qed
  also have "\<dots> = sum_list (map (?f 40) (concat bss))"
  proof -
    have "sum_list (map (\<lambda>i. sum_list (map (?f 40) (bss ! i))) [0..<length bss]) = sum_list (map (\<lambda>b. sum_list (map (?f 40) b)) bss)"
      by (metis (no_types, lifting) map_nth map_map comp_def map_eq_conv)
    also have "\<dots> = sum_list (map (?f 40) (concat bss))" by (induction bss) simp_all
    finally show ?thesis .
  qed
  finally show ?thesis
    using block_of_length [of 1 "index_entries snappy opt bss keys"] by (simp add: index_raw_def entries_size_def)
qed

locale table_reader =
  user_order Compare FindShortestSeparator FindShortSuccessor + cache_contract C inv cached
  for Compare FindShortestSeparator FindShortSuccessor and C :: "(Block, 'h, 'c) Cache" and inv cached
begin

lemma BlockReader_ok:
  assumes so: "snappy_ok snappy" and t: "table_of snappy opt bss keys t" and i: "i < length bss"
    and len: "length (data_raw opt (bss ! i)) < 2 ^ 32 - 1" and inv: "inv c H" and coh: "coherent cached c snappy opt bss t"
  shows "\<exists>cl c'. BlockReader snappy C options t (BH_EncodeTo (block_handle snappy opt bss i) []) c =
      (Block_NewIterator (mk_Block (data_raw opt (bss ! i))), cl, c') \<and>
    inv (ReleaseBlock C cl c') H \<and> coherent cached (ReleaseBlock C cl c') snappy opt bss t"
proof -
  let ?h = "block_handle snappy opt bss i" and ?b = "mk_Block (data_raw opt (bss ! i))"
  let ?k = "block_cache_key t ?h"
  have dec: "BH_DecodeFrom (BH_EncodeTo ?h []) = Inr (?h, [])" using BH_roundtrip [of ?h "[]"] by simp
  obtain bc where rb: "ReadBlock snappy (t_file t) (ro_verify_checksums options) ?h = Inr bc" "bc_data bc = data_raw opt (bss ! i)"
    using table_of_ReadBlock [OF so t i len] by blast
  have opt: "t_options t = opt" using t by (simp add: table_of_def)
  have rel: "inv (ReleaseBlock C (Some h) c') H \<and> coherent cached (ReleaseBlock C (Some h) c') snappy opt bss t"
    if "inv c' (H(h := H h + 1))" "coherent cached c' snappy opt bss t" for h c'
    using Release_held [OF that(1), of h] coherent_mono [OF _ that(2)] by (simp add: ReleaseBlock_def)
  show ?thesis
  proof (cases "opt_block_cache opt")
    case None
    then show ?thesis using dec rb opt inv coh
      by (intro exI [of _ None] exI [of _ c]) (simp add: BlockReader_def ReleaseBlock_def)
  next
    case (Some adr)
    obtain r c1 where l: "ca_Lookup C ?k c = (r, c1)" by fastforce
    show ?thesis
    proof (cases r)
      case (Some h)
      have hit: "inv c1 (H(h := H h + 1))" "cached c1 \<subseteq>\<^sub>m cached c" "cached c ?k = Some (ca_Value C h c1)"
        using Lookup_hit [OF inv] l Some by blast+
      then have "ca_Value C h c1 = ?b" using coh i \<open>opt_block_cache opt = _\<close> by (simp add: coherent_def)
      moreover have "coherent cached c1 snappy opt bss t" by (rule coherent_mono [OF hit(2) coh])
      ultimately show ?thesis using rel [OF hit(1)] dec l Some opt \<open>opt_block_cache opt = _\<close>
        by (intro exI [of _ "Some h"] exI [of _ c1]) (simp add: BlockReader_def)
    next
      case None
      have miss: "inv c1 H" "cached c1 \<subseteq>\<^sub>m cached c" using Lookup_miss [OF inv] l None by blast+
      have coh1: "coherent cached c1 snappy opt bss t" by (rule coherent_mono [OF miss(2) coh])
      show ?thesis
      proof (cases "bc_cachable bc \<and> ro_fill_cache options")
        case True
        obtain h c2 where ins: "ca_Insert C ?k ?b (bl_size ?b) c1 = (h, c2)" by fastforce
        have n: "inv c2 (H(h := H h + 1))" "cached c2 \<subseteq>\<^sub>m (cached c1)(?k \<mapsto> ?b)" using Insert_new [OF miss(1) ins] by blast+
        have "coherent cached c2 snappy opt bss t"
          unfolding coherent_def
        proof (intro allI impI)
          fix j b assume j: "j < length bss" "cached c2 (block_cache_key t (block_handle snappy opt bss j)) = Some b"
          then have "((cached c1)(?k \<mapsto> ?b)) (block_cache_key t (block_handle snappy opt bss j)) = Some b"
            using n(2) by (auto simp: map_le_def dom_def)
          then show "b = mk_Block (data_raw opt (bss ! j))"
            using coh1 j(1) \<open>opt_block_cache opt = _\<close> block_cache_key_inj [OF t i j(1)] by (auto simp: coherent_def split: if_splits)
        qed
        then show ?thesis using rel [OF n(1)] dec rb l None ins True opt \<open>opt_block_cache opt = _\<close>
          by (intro exI [of _ "Some h"] exI [of _ c2]) (simp add: BlockReader_def Let_def)
      next
        case False
        then show ?thesis using dec rb l None opt miss coh1 \<open>opt_block_cache opt = _\<close>
          by (intro exI [of _ None] exI [of _ c1]) (auto simp: BlockReader_def ReleaseBlock_def Let_def)
      qed
    qed
  qed
qed

lemma find_skip: "\<forall>x \<in> set xs. \<not> P x \<Longrightarrow> find P (xs @ ys) = find P ys"
  by (induction xs) auto

lemma InternalGet_ok:
  assumes so: "snappy_ok snappy" and t: "table_of snappy opt bss keys t" and tb: "table_blocks opt bss keys"
    and cm: "opt_comparator opt = InternalKeyComparator adr ucmp" and u: "cm_Compare ucmp = Compare"
      "cm_FindShortestSeparator ucmp = FindShortestSeparator" "cm_FindShortSuccessor ucmp = FindShortSuccessor"
    and I: "1 \<le> opt_block_restart_interval opt" and size: "entries_size (concat bss) < 2 ^ 32 - 1"
    and srt: "sorted_wrt (\<lambda>a b. InternalKey_Compare Compare (fst a) (fst b) < 0) (concat bss)"
    and inv: "inv c H" and coh: "coherent cached c snappy opt bss t"
  shows "\<exists>r c'. InternalGet snappy C options t k saver arg c = (OK, r, c') \<and> inv c' H \<and> coherent cached c' snappy opt bss t \<and>
    (case find (\<lambda>e. \<not> InternalKey_Compare Compare (fst e) k < 0) (concat bss) of
       None \<Rightarrow> r = arg
     | Some e \<Rightarrow> r = saver arg (fst e) (snd e) \<or> (r = arg \<and> Compare (ExtractUserKey (fst e)) (ExtractUserKey k) > 0))"
proof -
  let ?cmp = "InternalKey_Compare Compare" and ?idx = "index_entries snappy opt bss keys"
  let ?P = "\<lambda>e :: bytes \<times> bytes. \<not> ?cmp (fst e) k < 0"
  have cms: "cm_Compare (opt_comparator opt) = ?cmp"
    "cm_FindShortestSeparator (opt_comparator opt) = InternalKey_FindShortestSeparator Compare FindShortestSeparator"
    "cm_FindShortSuccessor (opt_comparator opt) = InternalKey_FindShortSuccessor Compare FindShortSuccessor"
    by (simp_all add: cm u InternalKeyComparator_def)
  note ord = internal.table_blocks_order [OF tb srt cms(2,3)]
  have len: "length keys = length bss" "length ?idx = length bss" using tb by (simp_all add: table_blocks_def index_entries_def)
  have idx: "?idx ! i = (keys ! i, BH_EncodeTo (block_handle snappy opt bss i) [])" if "i < length bss" for i
    using that len by (simp add: index_entries_def)
  have mi: "map fst ?idx = keys" using len map_nth [of keys] by (simp add: index_entries_def comp_def)
  have sidx: "sorted_wrt (\<lambda>a b. ?cmp (fst a) (fst b) < 0) ?idx"
    using ord(3) sorted_wrt_map [of "\<lambda>a b. ?cmp a b < 0" fst ?idx] mi by simp
  have lidx: "length (block_of 1 ?idx) < 2 ^ 32"
    using index_raw_length [OF tb cm, of snappy] size by (simp add: index_raw_def)
  define j where "j = length (takeWhile (\<lambda>e. ?cmp (fst e) k < 0) ?idx)"
  note isk = internal.block_seek_at [OF _ lidx sidx, of k, folded j_def index_raw_def, simplified]
  let ?ii = "ABI_Seek ?cmp k (Block_NewIterator (mk_Block (index_raw snappy opt bss keys)))"
  have tt: "t_options t = opt" "t_index_block t = mk_Block (index_raw snappy opt bss keys)" using t by (simp_all add: table_of_def)
  have before: "\<not> ?P e" if "i < j" "e \<in> set (bss ! i)" for i e
  proof -
    have i: "i < length bss" using that(1) length_takeWhile_le [of _ ?idx] len by (simp add: j_def) (meson le_trans less_le_trans)
    have "?cmp (fst (?idx ! i)) k < 0"
      using that(1) nth_mem [of i "takeWhile (\<lambda>e. ?cmp (fst e) k < 0) ?idx"] set_takeWhileD takeWhile_nth unfolding j_def by metis
    then have "?cmp (keys ! i) k < 0" using idx [OF i] by simp
    then show ?thesis using ord(1) [OF i that(2)] internal.Compare_le_less_trans by blast
  qed
  have low: "\<not> ?P e" if "e \<in> set (concat (take j bss))" for e
  proof -
    from that obtain b where "b \<in> set (take j bss)" "e \<in> set b" by auto
    moreover from this obtain i where "i < length (take j bss)" "take j bss ! i = b" unfolding in_set_conv_nth by blast
    ultimately show ?thesis using before [of i e] by simp
  qed
  show ?thesis
  proof (cases "j < length bss")
    case False
    then have "find ?P (concat bss) = None" using low unfolding find_None_iff by fastforce
    moreover have "InternalGet snappy C options t k saver arg c = (OK, arg, c)"
      using isk False len by (simp add: InternalGet_def tt cms Let_def)
    ultimately show ?thesis using inv coh by simp
  next
    case True
    let ?b = "bss ! j"
    define m where "m = length (takeWhile (\<lambda>e. ?cmp (fst e) k < 0) ?b)"
    have dl: "length (data_raw opt ?b) < 2 ^ 32 - 1" using data_raw_length [OF I True] size by (rule le_less_trans)
    note bs = internal.block_seek_at [OF I _ sorted_wrt_concat(1) [OF srt True], of k, folded m_def data_raw_def]
    obtain cl c' where br: "BlockReader snappy C options t (BH_EncodeTo (block_handle snappy opt bss j) []) c =
        (Block_NewIterator (mk_Block (data_raw opt ?b)), cl, c')"
      and c': "inv (ReleaseBlock C cl c') H" "coherent cached (ReleaseBlock C cl c') snappy opt bss t"
      using BlockReader_ok [OF so t True dl inv coh] by blast
    have get: "InternalGet snappy C options t k saver arg c =
        (OK, (if m < length ?b then saver arg (fst (?b ! m)) (snd (?b ! m)) else arg), ReleaseBlock C cl c')"
      using isk True len idx [OF True] bs dl br by (simp add: InternalGet_def tt cms Let_def)
    have split: "concat bss = concat (take j bss) @ ?b @ concat (drop (Suc j) bss)"
      using id_take_nth_drop [OF True] by (metis concat.simps(2) concat_append)
    have "\<forall>e \<in> set (concat (take j bss)). \<not> ?P e" using low by blast
    then have f: "find ?P (concat bss) = find ?P (?b @ concat (drop (Suc j) bss))" unfolding split by (rule find_skip)
    have m: "\<forall>e \<in> set (take m ?b). \<not> ?P e" using set_takeWhileD unfolding m_def takeWhile_eq_take [symmetric] by fastforce
    have key: "\<not> ?cmp (keys ! j) k < 0"
      using nth_length_takeWhile [of "\<lambda>e. ?cmp (fst e) k < 0" ?idx] True len idx [OF True] by (simp add: j_def)
    show ?thesis
    proof (cases "m < length ?b")
      case True
      then have sp: "?b @ concat (drop (Suc j) bss) = take m ?b @ ?b ! m # drop (Suc m) ?b @ concat (drop (Suc j) bss)"
        using id_take_nth_drop [OF True] by (metis append_assoc append_Cons)
      have "?P (?b ! m)" using nth_length_takeWhile [of "\<lambda>e. ?cmp (fst e) k < 0" ?b] True by (simp add: m_def)
      then have "find ?P (concat bss) = Some (?b ! m)"
        unfolding f sp using find_skip [OF m, of "?b ! m # drop (Suc m) ?b @ concat (drop (Suc j) bss)"] by simp
      then show ?thesis using get True c' by simp
    next
      case False
      then have "take m ?b = ?b" by simp
      then have f': "find ?P (concat bss) = find ?P (concat (drop (Suc j) bss))" using f find_skip [OF m] by simp
      show ?thesis
      proof (cases "Suc j < length bss")
        case False
        then show ?thesis using f' get c' \<open>\<not> m < length ?b\<close> by simp
      next
        case True
        let ?e = "hd (bss ! Suc j)" and ?l = "fst (last ?b)"
        have ne: "bss ! Suc j \<noteq> []" "?b \<noteq> []" using tb True \<open>j < length bss\<close> unfolding table_blocks_def by (metis nth_mem)+
        have kj: "keys ! j = InternalKey_FindShortestSeparator Compare FindShortestSeparator ?l (fst ?e)"
          using tb True \<open>j < length bss\<close> by (simp add: table_blocks_def cms)
        have "?cmp ?l (fst ?e) < 0"
          using sorted_wrt_concat(2) [OF srt, of j "Suc j" "last ?b" ?e] ne True by simp
        moreover have "?cmp ?l k < 0" using m \<open>take m ?b = ?b\<close> ne(2) by simp
        ultimately have "Compare (ExtractUserKey (keys ! j)) (ExtractUserKey (fst ?e)) < 0"
          using separator_user [of ?l "fst ?e"] key unfolding kj by metis
        moreover have "?cmp k (keys ! j) \<le> 0" using key internal.Compare_less_iff by blast
        then have "Compare (ExtractUserKey k) (ExtractUserKey (keys ! j)) \<le> 0" using internal_le_iff by force
        ultimately have "Compare (ExtractUserKey k) (ExtractUserKey (fst ?e)) < 0" by (metis Compare_le_less_trans)
        then have gt: "Compare (ExtractUserKey (fst ?e)) (ExtractUserKey k) > 0" using Compare_less_iff by force
        then have "?P ?e" by (simp add: InternalKey_Compare_def Let_def)
        then have "find ?P (concat (drop (Suc j) bss)) = Some ?e"
          using ne True by (cases "bss ! Suc j") (simp_all add: Cons_nth_drop_Suc [symmetric])
        then show ?thesis using f' get c' gt \<open>\<not> m < length ?b\<close> by simp
      qed
    qed
  qed
qed

end

section \<open>Opening a finished table\<close>

lemma ReadMeta_frame:
  "t_options (ReadMeta snappy footer t) = t_options t" "t_file (ReadMeta snappy footer t) = t_file t"
  "t_cache_id (ReadMeta snappy footer t) = t_cache_id t" "t_index_block (ReadMeta snappy footer t) = t_index_block t"
  by (auto simp: ReadMeta_def ReadFilter_def Let_def split: option.split sum.split)

lemma Table_Open_ok:
  assumes so: "snappy_ok snappy" and F: "F = table_bytes snappy opt bss keys mid m" and len: "length F < 2 ^ 64"
    and idx: "length (index_raw snappy opt bss keys) < 2 ^ 32 - 1"
  shows "\<exists>t. Table_Open snappy new_id opt (mem_Read scr F) (of_nat (length F)) = Inr t \<and> table_of snappy opt bss keys t \<and>
    (opt_block_cache opt \<noteq> None \<longrightarrow> t_cache_id t = new_id)"
proof -
  let ?raw = "index_raw snappy opt bss keys"
  define pre where "pre = data_bytes snappy opt bss @ mid"
  let ?h = "\<lparr>bh_offset = of_nat (length pre), bh_size = of_nat (stored_len snappy opt ?raw)\<rparr>"
  let ?f = "\<lparr>ft_metaindex_handle = m, ft_index_handle = ?h\<rparr>"
  have Feq: "F = (pre @ stored_raw snappy opt ?raw) @ Footer_EncodeTo ?f []"
    using F by (simp add: table_bytes_def pre_def Let_def)
  have l48: "length (Footer_EncodeTo ?f []) = 48" using Footer_length by (simp add: constants)
  have ge: "48 \<le> length F" unfolding Feq using l48 by simp
  then have n: "unat (of_nat (length F) - 48 :: u64) = length F - 48"
    using len unat_sub [of 48 "of_nat (length F) :: u64"] by (simp add: word_le_nat_alt)
  have small: "\<not> (of_nat (length F) :: u64) < 48" using ge len by (simp add: word_less_nat_alt)
  have foot: "take 48 (drop (length F - 48) F) = Footer_EncodeTo ?f []"
    unfolding Feq using l48 by simp
  have dec: "Footer_DecodeFrom (Footer_EncodeTo ?f []) = Inr (?f, [])" using Footer_roundtrip [of ?f "[]"] by simp
  obtain c where rb: "ReadBlock snappy (mem_Read scr F) (ro_verify_checksums mk_ReadOptions) ?h = Inr c" "bc_data c = ?raw"
    using ReadBlock_stored_raw [OF so, of F pre opt ?raw "Footer_EncodeTo ?f []" scr] Feq len idx by auto
  let ?t = "ReadMeta snappy ?f \<lparr>t_options = opt, t_file = mem_Read scr F,
     t_cache_id = (if opt_block_cache opt \<noteq> None then new_id else 0), t_filter = None,
     t_metaindex_handle = m, t_index_block = mk_Block ?raw\<rparr>"
  have "mem_Read scr F (of_nat (length F) - 48) 48 = (OK, Footer_EncodeTo ?f [], scr)"
    using n foot l48 by (simp add: mem_Read_def)
  then have "Table_Open snappy new_id opt (mem_Read scr F) (of_nat (length F)) = Inr ?t"
    using small dec rb by (simp add: Table_Open_def constants)
  moreover have "table_of snappy opt bss keys ?t" using F len by (auto simp: table_of_def ReadMeta_frame)
  ultimately show ?thesis by (auto simp: ReadMeta_frame)
qed

section \<open>Properties\<close>

interpretation reader: table_reader Slice_compare bytewise_FindShortestSeparator bytewise_FindShortSuccessor
  sharded_cache sc_inv sc_cached
  by unfold_locales

text \<open>A sequence of lookups, each with the cache that the one before left.\<close>

fun table_gets :: "Snappy \<Rightarrow> (Block, 'h, 'c) Cache \<Rightarrow> ReadOptions \<Rightarrow> Table \<Rightarrow> bytes list \<Rightarrow> 'c \<Rightarrow>
    (Status \<times> (bytes \<times> bytes) option) list \<times> 'c" where
  "table_gets snappy C options t [] c = ([], c)"
| "table_gets snappy C options t (k # ks) c =
    (let (s, r, c) = InternalGet snappy C options t k (\<lambda>_ k v. Some (k, v)) None c;
         (rs, c) = table_gets snappy C options t ks c
     in ((s, r) # rs, c))"

definition found :: "(bytes \<times> bytes) list \<Rightarrow> bytes \<Rightarrow> Status \<times> (bytes \<times> bytes) option \<Rightarrow> bool" where
  "found es k sr \<longleftrightarrow> fst sr = OK \<and>
    (case find (\<lambda>e. \<not> InternalKey_Compare Slice_compare (fst e) k < 0) es of
       None \<Rightarrow> snd sr = None
     | Some e \<Rightarrow> snd sr = Some e \<or> (snd sr = None \<and> Slice_compare (ExtractUserKey (fst e)) (ExtractUserKey k) > 0))"

lemma table_gets_found:
  assumes so: "snappy_ok snappy" and t: "table_of snappy opt bss keys t" and tb: "table_blocks opt bss keys"
    and cm: "opt_comparator opt = InternalKeyComparator adr (BytewiseComparator adr')"
    and I: "1 \<le> opt_block_restart_interval opt" and size: "entries_size (concat bss) < 2 ^ 32 - 1"
    and srt: "sorted_wrt (\<lambda>a b. InternalKey_Compare Slice_compare (fst a) (fst b) < 0) (concat bss)"
    and inv: "sc_inv c H" and coh: "coherent sc_cached c snappy opt bss t"
  shows "\<exists>rs c'. table_gets snappy sharded_cache options t ks c = (rs, c') \<and> sc_inv c' H \<and>
    coherent sc_cached c' snappy opt bss t \<and> list_all2 (found (concat bss)) ks rs"
  using inv coh
proof (induction ks arbitrary: c)
  case (Cons k ks)
  have b: "cm_Compare (BytewiseComparator adr') = Slice_compare"
    "cm_FindShortestSeparator (BytewiseComparator adr') = bytewise_FindShortestSeparator"
    "cm_FindShortSuccessor (BytewiseComparator adr') = bytewise_FindShortSuccessor"
    by (simp_all add: BytewiseComparator_def)
  obtain r c1 where g: "InternalGet snappy sharded_cache options t k (\<lambda>_ k v. Some (k, v)) None c = (OK, r, c1)"
    "sc_inv c1 H" "coherent sc_cached c1 snappy opt bss t"
    "case find (\<lambda>e. \<not> InternalKey_Compare Slice_compare (fst e) k < 0) (concat bss) of None \<Rightarrow> r = None
     | Some e \<Rightarrow> r = Some (fst e, snd e) \<or> (r = None \<and> Slice_compare (ExtractUserKey (fst e)) (ExtractUserKey k) > 0)"
    using reader.InternalGet_ok [OF so t tb cm b I size srt Cons.prems, of options k "\<lambda>_ k v. Some (k, v)" None] by metis
  have "found (concat bss) k (OK, r)" using g(4) by (cases "find (\<lambda>e. \<not> InternalKey_Compare Slice_compare (fst e) k < 0) (concat bss)") (auto simp: found_def)
  then show ?case using g(1) Cons.IH [OF g(2,3)] by auto
qed simp


definition small_options :: Options where
  "small_options = (mk_Options 0)\<lparr>opt_comparator := InternalKeyComparator 1 (BytewiseComparator 2), opt_block_cache := Some 3\<rparr>"

definition two_entries :: "(bytes \<times> bytes) list" where
  "two_entries = [([1, 1, 7, 0, 0, 0, 0, 0, 0], [10]), ([2, 1, 5, 0, 0, 0, 0, 0, 0], [])]"

lemma two_entries_file:
  "length (tb_file (snd (TB_Finish mem_WritableFile no_snappy
    (foldl (\<lambda>r e. TB_Add mem_WritableFile no_snappy (fst e) (snd e) r) (mk_TableBuilder small_options []) two_entries)))) < 2 ^ 64"
proof -
  have "length (cm_FindShortSuccessor (InternalKeyComparator (Suc 0) (BytewiseComparator 2)) [2, 1, 5, 0, 0, 0, 0, 0, 0]) \<le> 9"
    by (simp add: InternalKeyComparator_def) (rule order.trans [OF shortened_length(2)], simp)
  moreover have "length (BH_EncodeTo \<lparr>bh_offset = 0, bh_size = 33\<rparr> []) \<le> 20" by (rule BH_EncodeTo_length)
  ultimately show ?thesis
    by (simp add: TB_Finish_def TB_Flush_def TB_Add_def mk_TableBuilder_def mk_Options_def mem_WritableFile_def
        no_snappy_def WriteBlock_def WriteRawBlock_def stored_form_def BB_empty_def BB_Add_def mk_BlockBuilder_def
        PutVarint32_def EncodeVarint32_def BB_CurrentSizeEstimate_def BB_Finish_def Let_def constants small_options_def
        two_entries_def finish_filter_def finish_metaindex_def finish_index_def finish_footer_def add_index_entry_def
        BB_Reset_def index_options_def PutFixed32_def length_EncodeFixed32 Footer_length split: prod.split)
qed

lemma sc_cached_new: "sc_cached (mk_ShardedLRUCache capacity :: 'v ShardedLRUCache) k = None"
proof (cases "sc_cached (mk_ShardedLRUCache capacity :: 'v ShardedLRUCache) k")
  case (Some v)
  then have "lc_find (mk_LRUCache ((capacity + (kNumShards - 1)) div kNumShards)) k (HashSlice k) = Some v"
    using Shard_less [of "HashSlice k"] by (simp add: sc_cached_def mk_ShardedLRUCache_def)
  moreover have "lc_lru (mk_LRUCache n) = []" for n by (simp add: mk_LRUCache_def)
  ultimately show ?thesis using lc_find_iff [OF mk_LRUCache_inv] by (metis empty_iff list.set(1))
qed simp


end
