(* ===== verification/Iterator.thy ===== *)
theory Iterator
  imports Table MemTable "HOL-Library.Monad_Syntax" "HOL-Library.Multiset"
begin

text \<open>
  The interface \<^verbatim>\<open>include/pebblesdb/iterator.h\<close> and the wrapper \<^verbatim>\<open>table/iterator_wrapper.h\<close>.
  An operation that moves an iterator gives \<open>None\<close> when it does not return.  The contract of an
  iterator, the locale \<open>iterator\<close>, says that it walks over a sorted list of entries; the block
  iterator and the memtable iterator satisfy it.
\<close>

section \<open>The interface\<close>

record 's Iterator =
  it_Valid :: "'s \<Rightarrow> bool"
  it_SeekToFirst :: "'s \<Rightarrow> 's option"
  it_SeekToLast :: "'s \<Rightarrow> 's option"
  it_Seek :: "bytes \<Rightarrow> 's \<Rightarrow> 's option"
  it_Next :: "'s \<Rightarrow> 's option"
  it_Prev :: "'s \<Rightarrow> 's option"
  it_key :: "'s \<Rightarrow> bytes"
  it_value :: "'s \<Rightarrow> bytes"
  it_status :: "'s \<Rightarrow> Status"

definition block_iterator :: "(bytes \<Rightarrow> bytes \<Rightarrow> int) \<Rightarrow> AnyBlockIter Iterator" where
  "block_iterator cmp =
    \<lparr>it_Valid = ABI_Valid, it_SeekToFirst = \<lambda>s. Some (ABI_SeekToFirst s), it_SeekToLast = \<lambda>s. Some (ABI_SeekToLast s),
     it_Seek = \<lambda>k s. Some (ABI_Seek cmp k s), it_Next = \<lambda>s. Some (ABI_Next s), it_Prev = \<lambda>s. Some (ABI_Prev s),
     it_key = ABI_key, it_value = ABI_value, it_status = ABI_status\<rparr>"

lemma block_iterator_simps [simp]:
  "it_Valid (block_iterator cmp) = ABI_Valid" "it_key (block_iterator cmp) = ABI_key"
  "it_value (block_iterator cmp) = ABI_value" "it_status (block_iterator cmp) = ABI_status"
  "it_SeekToFirst (block_iterator cmp) s = Some (ABI_SeekToFirst s)"
  "it_SeekToLast (block_iterator cmp) s = Some (ABI_SeekToLast s)" "it_Seek (block_iterator cmp) k s = Some (ABI_Seek cmp k s)"
  "it_Next (block_iterator cmp) s = Some (ABI_Next s)" "it_Prev (block_iterator cmp) s = Some (ABI_Prev s)"
  by (simp_all add: block_iterator_def)

text \<open>What a client sees that walks from the current position to an end.  The walk is \<open>None\<close> when a
  step does not return or the fuel does not suffice.\<close>

fun it_walk :: "nat \<Rightarrow> 's Iterator \<Rightarrow> 's \<Rightarrow> (bytes \<times> bytes) list option" where
  "it_walk 0 I s = None"
| "it_walk (Suc n) I s =
    (if it_Valid I s then do { s' \<leftarrow> it_Next I s; es \<leftarrow> it_walk n I s'; Some ((it_key I s, it_value I s) # es) } else Some [])"

fun it_walk_back :: "nat \<Rightarrow> 's Iterator \<Rightarrow> 's \<Rightarrow> (bytes \<times> bytes) list option" where
  "it_walk_back 0 I s = None"
| "it_walk_back (Suc n) I s =
    (if it_Valid I s then do { s' \<leftarrow> it_Prev I s; es \<leftarrow> it_walk_back n I s'; Some ((it_key I s, it_value I s) # es) } else Some [])"

section \<open>The wrapper\<close>

record 's IteratorWrapper =
  iw_iter :: "'s option"
  iw_valid :: bool
  iw_key :: bytes

definition IW_Update :: "'s Iterator \<Rightarrow> 's \<Rightarrow> 's IteratorWrapper \<Rightarrow> 's IteratorWrapper" where
  "IW_Update I s w = w\<lparr>iw_iter := Some s, iw_valid := it_Valid I s, iw_key := (if it_Valid I s then it_key I s else iw_key w)\<rparr>"

definition IW_Set :: "'s Iterator \<Rightarrow> 's option \<Rightarrow> 's IteratorWrapper \<Rightarrow> 's IteratorWrapper" where
  "IW_Set I it w = (case it of None \<Rightarrow> w\<lparr>iw_iter := None, iw_valid := False\<rparr> | Some s \<Rightarrow> IW_Update I s w)"

definition mk_IteratorWrapper :: "'s Iterator \<Rightarrow> 's option \<Rightarrow> 's IteratorWrapper" where
  "mk_IteratorWrapper I it = IW_Set I it \<lparr>iw_iter = None, iw_valid = False, iw_key = []\<rparr>"

text \<open>The operations that need an iterator; without one the assertion fails.\<close>

definition IW_move :: "'s Iterator \<Rightarrow> ('s \<Rightarrow> 's option) \<Rightarrow> 's IteratorWrapper \<Rightarrow> 's IteratorWrapper option" where
  "IW_move I f w = do { s \<leftarrow> iw_iter w; s \<leftarrow> f s; Some (IW_Update I s w) }"

definition IW_Next :: "'s Iterator \<Rightarrow> 's IteratorWrapper \<Rightarrow> 's IteratorWrapper option" where
  "IW_Next I = IW_move I (it_Next I)"

definition IW_Prev :: "'s Iterator \<Rightarrow> 's IteratorWrapper \<Rightarrow> 's IteratorWrapper option" where
  "IW_Prev I = IW_move I (it_Prev I)"

definition IW_Seek :: "'s Iterator \<Rightarrow> bytes \<Rightarrow> 's IteratorWrapper \<Rightarrow> 's IteratorWrapper option" where
  "IW_Seek I k = IW_move I (it_Seek I k)"

definition IW_SeekToFirst :: "'s Iterator \<Rightarrow> 's IteratorWrapper \<Rightarrow> 's IteratorWrapper option" where
  "IW_SeekToFirst I = IW_move I (it_SeekToFirst I)"

definition IW_SeekToLast :: "'s Iterator \<Rightarrow> 's IteratorWrapper \<Rightarrow> 's IteratorWrapper option" where
  "IW_SeekToLast I = IW_move I (it_SeekToLast I)"

definition IW_value :: "'s Iterator \<Rightarrow> 's IteratorWrapper \<Rightarrow> bytes" where
  "IW_value I w = it_value I (the (iw_iter w))"

definition IW_status :: "'s Iterator \<Rightarrow> 's IteratorWrapper \<Rightarrow> Status" where
  "IW_status I w = it_status I (the (iw_iter w))"

definition IW_MakeInvalid :: "'s IteratorWrapper \<Rightarrow> 's IteratorWrapper" where
  "IW_MakeInvalid w = w\<lparr>iw_valid := False\<rparr>"

section \<open>The contract\<close>

text \<open>\<open>at es s p\<close>: the iterator in state \<open>s\<close> walks over \<open>es\<close> and stands at entry \<open>p\<close>, or
  nowhere when \<open>p\<close> is the number of entries.\<close>

definition below :: "(bytes \<Rightarrow> bytes \<Rightarrow> int) \<Rightarrow> bytes \<Rightarrow> (bytes \<times> bytes) list \<Rightarrow> nat" where
  "below cmp k es = length (takeWhile (\<lambda>e. cmp (fst e) k < 0) es)"

lemma below_le: "below cmp k es \<le> length es"
  by (simp add: below_def length_takeWhile_le)

lemma below_nth: "i < below cmp k es \<Longrightarrow> cmp (fst (es ! i)) k < 0"
  using nth_mem [of i "takeWhile (\<lambda>e. cmp (fst e) k < 0) es"] by (auto simp: below_def takeWhile_nth dest: set_takeWhileD)

lemma below_nth_not: "below cmp k es < length es \<Longrightarrow> \<not> cmp (fst (es ! below cmp k es)) k < 0"
  using nth_length_takeWhile [of "\<lambda>e. cmp (fst e) k < 0" es] by (simp add: below_def)

context key_comparator
begin

lemma below_above:
  assumes "sorted_wrt (\<lambda>a b. Compare (fst a) (fst b) < 0) es" and "below Compare k es \<le> q" and "q < length es"
  shows "\<not> Compare (fst (es ! q)) k < 0"
proof (cases "below Compare k es = q")
  case True
  then show ?thesis using below_nth_not [of Compare k es] assms(3) by simp
next
  case False
  then have "Compare (fst (es ! below Compare k es)) (fst (es ! q)) < 0"
    using assms by (simp add: sorted_wrt_iff_nth_less)
  then show ?thesis using below_nth_not [of Compare k es] assms(2,3) Compare_less_trans by (meson le_less_trans)
qed

lemma below_eq:
  assumes "sorted_wrt (\<lambda>a b. Compare (fst a) (fst b) < 0) es" and "n \<le> length es"
    and "\<And>q. q < n \<Longrightarrow> Compare (fst (es ! q)) k < 0" and "n < length es \<Longrightarrow> \<not> Compare (fst (es ! n)) k < 0"
  shows "below Compare k es = n"
proof (rule linorder_cases [of "below Compare k es" n])
  assume "below Compare k es < n"
  then show ?thesis using assms(2,3) below_nth_not [of Compare k es] by force
next
  assume "n < below Compare k es"
  then show ?thesis using assms(4) below_nth [of n Compare k es] below_le [of Compare k es] by force
qed

end

locale iterator =
  fixes I :: "'s Iterator" and cmp :: "bytes \<Rightarrow> bytes \<Rightarrow> int" and seekable :: "bytes \<Rightarrow> bool"
    and "at" :: "(bytes \<times> bytes) list \<Rightarrow> 's \<Rightarrow> nat \<Rightarrow> bool"
  assumes at_sorted: "at es s p \<Longrightarrow> sorted_wrt (\<lambda>a b. cmp (fst a) (fst b) < 0) es"
    and at_seekable: "at es s p \<Longrightarrow> e \<in> set es \<Longrightarrow> seekable (fst e)"
    and at_le: "at es s p \<Longrightarrow> p \<le> length es"
    and at_Valid: "at es s p \<Longrightarrow> it_Valid I s \<longleftrightarrow> p < length es"
    and at_key: "at es s p \<Longrightarrow> p < length es \<Longrightarrow> it_key I s = fst (es ! p)"
    and at_value: "at es s p \<Longrightarrow> p < length es \<Longrightarrow> it_value I s = snd (es ! p)"
    and at_status: "at es s p \<Longrightarrow> it_status I s = OK"
    and at_SeekToFirst: "at es s p \<Longrightarrow> \<exists>s'. it_SeekToFirst I s = Some s' \<and> at es s' 0"
    and at_SeekToLast: "at es s p \<Longrightarrow> \<exists>s'. it_SeekToLast I s = Some s' \<and> at es s' (length es - 1)"
    and at_Seek: "at es s p \<Longrightarrow> seekable k \<Longrightarrow> \<exists>s'. it_Seek I k s = Some s' \<and> at es s' (below cmp k es)"
    and at_Next: "at es s p \<Longrightarrow> p < length es \<Longrightarrow> \<exists>s'. it_Next I s = Some s' \<and> at es s' (p + 1)"
    and at_Prev: "at es s p \<Longrightarrow> p < length es \<Longrightarrow> \<exists>s'. it_Prev I s = Some s' \<and> at es s' (if p = 0 then length es else p - 1)"
begin

lemma it_walk_at:
  assumes "at es s p" and "length es - p < n"
  shows "it_walk n I s = Some (drop p es)"
  using assms
proof (induction n arbitrary: s p)
  case (Suc n)
  show ?case
  proof (cases "p < length es")
    case True
    obtain s' where "it_Next I s = Some s'" "at es s' (p + 1)" using at_Next [OF Suc.prems(1) True] by blast
    moreover from this have "it_walk n I s' = Some (drop (p + 1) es)" using Suc.IH Suc.prems(2) True by simp
    ultimately show ?thesis
      using True at_Valid [OF Suc.prems(1)] at_key [OF Suc.prems(1)] at_value [OF Suc.prems(1)]
      by (simp add: Cons_nth_drop_Suc [symmetric])
  next
    case False
    then show ?thesis using at_Valid [OF Suc.prems(1)] at_le [OF Suc.prems(1)] by simp
  qed
qed simp

lemma it_walk_back_at:
  assumes "at es s p" and "p < length es" and "Suc p < n"
  shows "it_walk_back n I s = Some (rev (take (Suc p) es))"
  using assms
proof (induction n arbitrary: s p)
  case (Suc n)
  obtain s' where s': "it_Prev I s = Some s'" "at es s' (if p = 0 then length es else p - 1)"
    using at_Prev [OF Suc.prems(1,2)] by blast
  have "it_walk_back n I s' = Some (rev (take p es))"
  proof (cases p)
    case 0
    obtain m where "n = Suc m" using Suc.prems(3) by (cases n) auto
    then show ?thesis using 0 s'(2) at_Valid [of es s' "length es"] by simp
  next
    case (Suc q)
    then show ?thesis using Suc.IH [of s' q] Suc.prems s'(2) by simp
  qed
  then show ?case
    using Suc.prems(2) s'(1) at_Valid [OF Suc.prems(1)] at_key [OF Suc.prems(1)] at_value [OF Suc.prems(1)]
    by (simp add: take_Suc_conv_app_nth)
qed simp

text \<open>A complete walk in either direction, from any position.\<close>

lemma it_walks:
  assumes "at es s p" and "length es + 1 < n"
  shows "do { s \<leftarrow> it_SeekToFirst I s; it_walk n I s } = Some es"
    and "do { s \<leftarrow> it_SeekToLast I s; it_walk_back n I s } = Some (rev es)"
    and "seekable k \<Longrightarrow> do { s \<leftarrow> it_Seek I k s; it_walk n I s } = Some (drop (below cmp k es) es)"
proof -
  show "do { s \<leftarrow> it_SeekToFirst I s; it_walk n I s } = Some es"
    using at_SeekToFirst [OF assms(1)] it_walk_at [of es _ 0 n] assms(2) by auto
  show "seekable k \<Longrightarrow> do { s \<leftarrow> it_Seek I k s; it_walk n I s } = Some (drop (below cmp k es) es)"
    using at_Seek [OF assms(1)] it_walk_at [of es _ "below cmp k es" n] assms(2) by fastforce
  obtain s' where s': "it_SeekToLast I s = Some s'" "at es s' (length es - 1)" using at_SeekToLast [OF assms(1)] by blast
  have "it_walk_back n I s' = Some (rev es)"
  proof (cases "es = []")
    case True
    obtain m where "n = Suc m" using assms(2) by (cases n) auto
    then show ?thesis using at_Valid [OF s'(2)] True by simp
  next
    case False
    then show ?thesis using it_walk_back_at [OF s'(2)] assms(2) by simp
  qed
  then show "do { s \<leftarrow> it_SeekToLast I s; it_walk_back n I s } = Some (rev es)" using s'(1) by simp
qed

text \<open>A wrapper around such an iterator caches what the iterator would answer.\<close>

definition iw_at :: "(bytes \<times> bytes) list \<Rightarrow> 's IteratorWrapper \<Rightarrow> nat \<Rightarrow> bool" where
  "iw_at es w p \<longleftrightarrow> (\<exists>s. iw_iter w = Some s \<and> at es s p \<and> (iw_valid w \<longleftrightarrow> p < length es) \<and>
     (p < length es \<longrightarrow> iw_key w = fst (es ! p)))"

lemma iw_atD:
  assumes "iw_at es w p"
  shows "iw_valid w \<longleftrightarrow> p < length es" and "p < length es \<Longrightarrow> iw_key w = fst (es ! p)"
    and "p < length es \<Longrightarrow> IW_value I w = snd (es ! p)" and "IW_status I w = OK" and "iw_iter w \<noteq> None"
    and "sorted_wrt (\<lambda>a b. cmp (fst a) (fst b) < 0) es" and "p \<le> length es"
    and "e \<in> set es \<Longrightarrow> seekable (fst e)"
  using assms at_value at_status at_sorted at_le by (auto simp: iw_at_def IW_value_def IW_status_def intro: at_seekable)

lemma IW_Update_at: "at es s p \<Longrightarrow> iw_at es (IW_Update I s w) p"
  using at_Valid [of es s p] at_key [of es s p] by (simp add: iw_at_def IW_Update_def)

lemma mk_IteratorWrapper_at: "at es s p \<Longrightarrow> iw_at es (mk_IteratorWrapper I (Some s)) p"
  by (simp add: mk_IteratorWrapper_def IW_Set_def IW_Update_at)

lemma IW_move_at:
  assumes "iw_at es w p" and "\<And>s. at es s p \<Longrightarrow> \<exists>s'. f s = Some s' \<and> at es s' q"
  shows "\<exists>w'. IW_move I f w = Some w' \<and> iw_at es w' q"
proof -
  from assms(1) obtain s where s: "iw_iter w = Some s" "at es s p" by (auto simp: iw_at_def)
  then obtain s' where "f s = Some s'" "at es s' q" using assms(2) by blast
  then show ?thesis using s(1) IW_Update_at by (auto simp: IW_move_def)
qed

lemma IW_ops_at:
  assumes "iw_at es w p"
  shows "\<exists>w'. IW_SeekToFirst I w = Some w' \<and> iw_at es w' 0"
    and "\<exists>w'. IW_SeekToLast I w = Some w' \<and> iw_at es w' (length es - 1)"
    and "seekable k \<Longrightarrow> \<exists>w'. IW_Seek I k w = Some w' \<and> iw_at es w' (below cmp k es)"
    and "p < length es \<Longrightarrow> \<exists>w'. IW_Next I w = Some w' \<and> iw_at es w' (p + 1)"
    and "p < length es \<Longrightarrow> \<exists>w'. IW_Prev I w = Some w' \<and> iw_at es w' (if p = 0 then length es else p - 1)"
  subgoal unfolding IW_SeekToFirst_def by (rule IW_move_at [OF assms at_SeekToFirst])
  subgoal unfolding IW_SeekToLast_def by (rule IW_move_at [OF assms at_SeekToLast])
  subgoal unfolding IW_Seek_def by (rule IW_move_at [OF assms at_Seek])
  subgoal unfolding IW_Next_def by (rule IW_move_at [OF assms at_Next])
  subgoal unfolding IW_Prev_def by (rule IW_move_at [OF assms at_Prev])
  done

end

section \<open>Sequences of moves\<close>

text \<open>A client moves an iterator and looks at the entry it stands at.  The specification is a cursor
  over a sorted list: \<open>Next\<close> and \<open>Prev\<close> need an entry under the cursor, as their assertions say.\<close>

datatype Move = MSeekToFirst | MSeekToLast | MSeek bytes | MNext | MPrev

fun it_move :: "'s Iterator \<Rightarrow> Move \<Rightarrow> 's \<Rightarrow> 's option" where
  "it_move I MSeekToFirst s = it_SeekToFirst I s"
| "it_move I MSeekToLast s = it_SeekToLast I s"
| "it_move I (MSeek k) s = it_Seek I k s"
| "it_move I MNext s = (if it_Valid I s then it_Next I s else None)"
| "it_move I MPrev s = (if it_Valid I s then it_Prev I s else None)"

fun it_moves :: "'s Iterator \<Rightarrow> Move list \<Rightarrow> 's \<Rightarrow> 's option" where
  "it_moves I [] s = Some s"
| "it_moves I (m # ms) s = do { s \<leftarrow> it_move I m s; it_moves I ms s }"

definition it_entry :: "'s Iterator \<Rightarrow> 's \<Rightarrow> (bytes \<times> bytes) option" where
  "it_entry I s = (if it_Valid I s then Some (it_key I s, it_value I s) else None)"

fun cursor_move :: "(bytes \<Rightarrow> bytes \<Rightarrow> int) \<Rightarrow> (bytes \<times> bytes) list \<Rightarrow> Move \<Rightarrow> nat \<Rightarrow> nat option" where
  "cursor_move cmp es MSeekToFirst p = Some 0"
| "cursor_move cmp es MSeekToLast p = Some (length es - 1)"
| "cursor_move cmp es (MSeek k) p = Some (below cmp k es)"
| "cursor_move cmp es MNext p = (if p < length es then Some (p + 1) else None)"
| "cursor_move cmp es MPrev p = (if p < length es then Some (if p = 0 then length es else p - 1) else None)"

fun cursor_moves :: "(bytes \<Rightarrow> bytes \<Rightarrow> int) \<Rightarrow> (bytes \<times> bytes) list \<Rightarrow> Move list \<Rightarrow> nat \<Rightarrow> nat option" where
  "cursor_moves cmp es [] p = Some p"
| "cursor_moves cmp es (m # ms) p = do { p \<leftarrow> cursor_move cmp es m p; cursor_moves cmp es ms p }"

definition cursor_entry :: "(bytes \<times> bytes) list \<Rightarrow> nat \<Rightarrow> (bytes \<times> bytes) option" where
  "cursor_entry es p = (if p < length es then Some (es ! p) else None)"

definition seeks :: "(bytes \<Rightarrow> bool) \<Rightarrow> Move list \<Rightarrow> bool" where
  "seeks P ms = list_all (\<lambda>m. case m of MSeek k \<Rightarrow> P k | _ \<Rightarrow> True) ms"

context iterator
begin

lemma it_move_at:
  assumes "at es s p" and "cursor_move cmp es m p = Some q" and "seeks seekable [m]"
  shows "\<exists>s'. it_move I m s = Some s' \<and> at es s' q"
  using assms at_SeekToFirst [OF assms(1)] at_SeekToLast [OF assms(1)] at_Seek [OF assms(1)] at_Next [OF assms(1)]
    at_Prev [OF assms(1)] at_Valid [OF assms(1)]
  by (cases m) (auto simp: seeks_def split: if_splits)

lemma it_moves_at:
  assumes "at es s p" and "cursor_moves cmp es ms p = Some q" and "seeks seekable ms"
  shows "\<exists>s'. it_moves I ms s = Some s' \<and> at es s' q"
  using assms
proof (induction ms arbitrary: s p)
  case (Cons m ms)
  then obtain r where r: "cursor_move cmp es m p = Some r" "cursor_moves cmp es ms r = Some q"
    by (auto split: Option.bind_splits)
  moreover have "seeks seekable [m]" "seeks seekable ms" using Cons.prems(3) by (simp_all add: seeks_def)
  ultimately show ?case using it_move_at [OF Cons.prems(1)] Cons.IH by fastforce
qed simp

lemma it_entry_at: "at es s p \<Longrightarrow> it_entry I s = cursor_entry es p"
  by (simp add: it_entry_def cursor_entry_def at_Valid at_key at_value)

lemma it_moves_entry:
  assumes "at es s p" and "cursor_moves cmp es ms p = Some q" and "seeks seekable ms"
  shows "\<exists>s'. it_moves I ms s = Some s' \<and> it_entry I s' = cursor_entry es q \<and> it_status I s' = OK"
  using it_moves_at [OF assms] it_entry_at at_status by blast

end

section \<open>Blocks\<close>

definition abi_at :: "(bytes \<Rightarrow> bytes \<Rightarrow> int) \<Rightarrow> (bytes \<Rightarrow> bool) \<Rightarrow> (bytes \<times> bytes) list \<Rightarrow> AnyBlockIter \<Rightarrow> nat \<Rightarrow> bool" where
  "abi_at cmp seekable es s p \<longleftrightarrow> (\<forall>e \<in> set es. seekable (fst e)) \<and> sorted_wrt (\<lambda>a b. cmp (fst a) (fst b) < 0) es \<and>
    (case s of Iter i \<Rightarrow> (\<exists>ps rs. map snd ps = es \<and> block_at i ps rs p) | EmptyIterator \<Rightarrow> es = [] \<and> p = 0 | ErrorIterator _ \<Rightarrow> False)"

context key_comparator
begin

lemma abi_at_cases:
  assumes "abi_at Compare seekable es s p"
  obtains "s = EmptyIterator" "es = []" "p = 0"
  | i ps rs where "s = Iter i" "map snd ps = es" "block_at i ps rs p" "iter_on i ps rs" "length ps = length es"
      "sorted_wrt (\<lambda>p q. Compare (piece_key p) (piece_key q) < 0) ps"
proof (cases s)
  case (Iter i)
  then obtain ps rs where ps: "map snd ps = es" "block_at i ps rs p" using assms by (auto simp: abi_at_def)
  moreover have "sorted_wrt (\<lambda>a b. Compare (fst a) (fst b) < 0) es" using assms by (simp add: abi_at_def)
  ultimately have "sorted_wrt (\<lambda>p q. Compare (piece_key p) (piece_key q) < 0) ps"
    by (simp add: sorted_wrt_map flip: ps(1))
  then show ?thesis using that(2) Iter ps by (auto simp: block_at_def)
qed (use assms that in \<open>auto simp: abi_at_def\<close>)

lemma abi_atI:
  assumes "abi_at Compare seekable es s p" and "map snd ps = es" and "block_at i ps rs q"
  shows "abi_at Compare seekable es (Iter i) q"
  using assms by (auto simp: abi_at_def)

lemma below_pieces: "map snd ps = es \<Longrightarrow> below Compare k es = length (takeWhile (\<lambda>q. Compare (piece_key q) k < 0) ps)"
  by (auto simp: below_def takeWhile_map comp_def)

lemma abi_moves:
  assumes "abi_at Compare seekable es s p"
  shows "abi_at Compare seekable es (ABI_SeekToFirst s) 0 \<and> abi_at Compare seekable es (ABI_SeekToLast s) (length es - 1) \<and>
    abi_at Compare seekable es (ABI_Seek Compare k s) (below Compare k es) \<and>
    (p < length es \<longrightarrow> abi_at Compare seekable es (ABI_Next s) (p + 1) \<and>
       abi_at Compare seekable es (ABI_Prev s) (if p = 0 then length es else p - 1))"
proof (cases rule: abi_at_cases [OF assms])
  case 1
  then show ?thesis using assms by (simp add: abi_at_def ABI_SeekToFirst_def ABI_SeekToLast_def ABI_Seek_def below_def)
next
  case (2 i ps rs)
  note I = abi_atI [OF assms 2(2)]
  have last: "(if ps = [] then 0 else length ps - 1) = length es - 1" using 2(5) by auto
  show ?thesis
    using I [OF BI_SeekToFirst_at [OF 2(4)]] I [OF BI_SeekToLast_at [OF 2(4)]] I [OF BI_Seek_at [OF 2(4,6)]]
      I [OF BI_Next_at [OF 2(3)]] I [OF BI_Prev_at [OF 2(3)]] last below_pieces [OF 2(2), of k] unfolding 2(1,5)
    by (simp add: ABI_SeekToFirst_def ABI_SeekToLast_def ABI_Seek_def ABI_Next_def ABI_Prev_def split del: if_split)
qed

lemma abi_reads:
  assumes "abi_at Compare seekable es s p"
  shows "p \<le> length es \<and> (ABI_Valid s \<longleftrightarrow> p < length es) \<and>
    (p < length es \<longrightarrow> ABI_key s = fst (es ! p) \<and> ABI_value s = snd (es ! p)) \<and> ABI_status s = OK"
proof (cases rule: abi_at_cases [OF assms])
  case 1
  then show ?thesis by (simp add: ABI_Valid_def ABI_status_def)
next
  case (2 i ps rs)
  have "es ! p = (bi_key i, BI_value i)" "BI_Valid i" if "p < length es"
    using block_at_entry [OF 2(3)] nth_map [of p ps snd] that 2(2,5) by simp_all
  moreover have "p \<le> length es" "\<not> p < length es \<Longrightarrow> \<not> BI_Valid i" using 2(3,5) by (simp_all add: block_at_def)
  moreover have "bi_status i = OK" using 2(4) by (simp add: iter_on_def)
  ultimately show ?thesis unfolding 2(1) by (simp add: ABI_Valid_def ABI_key_def ABI_value_def ABI_status_def) linarith
qed

lemmas abi_facts = abi_moves [THEN conjunct1] abi_moves [THEN conjunct2, THEN conjunct1]
  abi_moves [THEN conjunct2, THEN conjunct2, THEN conjunct1]
  abi_moves [THEN conjunct2, THEN conjunct2, THEN conjunct2, rule_format, THEN conjunct1]
  abi_moves [THEN conjunct2, THEN conjunct2, THEN conjunct2, rule_format, THEN conjunct2]
  abi_reads [THEN conjunct1] abi_reads [THEN conjunct2, THEN conjunct1]
  abi_reads [THEN conjunct2, THEN conjunct2, THEN conjunct1, rule_format, THEN conjunct1]
  abi_reads [THEN conjunct2, THEN conjunct2, THEN conjunct1, rule_format, THEN conjunct2]
  abi_reads [THEN conjunct2, THEN conjunct2, THEN conjunct2]

lemma abi_iterator: "iterator (block_iterator Compare) Compare seekable (abi_at Compare seekable)"
proof (unfold_locales, unfold block_iterator_simps option.inject simp_thms)
  show "sorted_wrt (\<lambda>a b. Compare (fst a) (fst b) < 0) es" if "abi_at Compare seekable es s p" for es s p
    using that by (simp add: abi_at_def)
  show "seekable (fst e)" if "abi_at Compare seekable es s p" "e \<in> set es" for es s p e
    using that by (simp add: abi_at_def)
qed (rule abi_facts; assumption)+

lemma block_of_abi_at:
  assumes "1 \<le> interval" and "length (block_of interval es) < 2 ^ 32"
    and "sorted_wrt (\<lambda>a b. Compare (fst a) (fst b) < 0) es" and "\<forall>e \<in> set es. seekable (fst e)"
  shows "abi_at Compare seekable es (Block_NewIterator (mk_Block (block_of interval es))) (length es)"
proof -
  obtain ps rs where l: "layout (block_of interval es) ps rs" "map snd ps = es"
    using block_of_layout [OF assms(1,2)] by blast
  obtain i where i: "Block_NewIterator (mk_Block (block_of interval es)) = Iter i" "iter_on i ps rs"
    using NewIterator_layout [OF l(1)] by blast
  have "\<not> BI_Valid i"
    using i(1) by (auto simp: Block_NewIterator_def mk_BlockIter_def BI_Valid_def Let_def split: if_splits)
  then have "block_at i ps rs (length es)" using i(2) l(2) by (auto simp: block_at_def)
  then show ?thesis using assms(3,4) i(1) l(2) by (auto simp: abi_at_def)
qed

end

section \<open>Memtables\<close>

record MemTableIterator =
  mti_table :: MemTable
  mti_node :: "nat option"

definition mem_iterator :: "(bytes \<Rightarrow> bytes \<Rightarrow> int) \<Rightarrow> (bytes \<Rightarrow> u64) \<Rightarrow> MemTableIterator Iterator" where
  "mem_iterator ucmp unum =
    \<lparr>it_Valid = \<lambda>i. mti_node i \<noteq> None,
     it_SeekToFirst = \<lambda>i. Some (i\<lparr>mti_node := MemIter_SeekToFirst (mti_table i)\<rparr>),
     it_SeekToLast = \<lambda>i. do { n \<leftarrow> MemIter_SeekToLast (mti_table i); Some (i\<lparr>mti_node := n\<rparr>) },
     it_Seek = \<lambda>k i. do { n \<leftarrow> MemIter_Seek ucmp unum (mti_table i) k; Some (i\<lparr>mti_node := n\<rparr>) },
     it_Next = \<lambda>i. do { a \<leftarrow> mti_node i; Some (i\<lparr>mti_node := MemIter_Next (mti_table i) a\<rparr>) },
     it_Prev = \<lambda>i. do { a \<leftarrow> mti_node i; n \<leftarrow> MemIter_Prev ucmp (mti_table i) a; Some (i\<lparr>mti_node := n\<rparr>) },
     it_key = \<lambda>i. MemIter_key (mti_table i) (the (mti_node i)), it_value = \<lambda>i. MemIter_value (mti_table i) (the (mti_node i)),
     it_status = \<lambda>_. OK\<rparr>"

definition key_fits :: "bytes \<Rightarrow> bool" where
  "key_fits k \<longleftrightarrow> 8 \<le> length k \<and> length k < 2 ^ 32"

text \<open>The nodes of the list in order and the entries they hold.\<close>

definition mem_nodes :: "MemTable \<Rightarrow> nat list \<Rightarrow> mem_item list \<Rightarrow> bool" where
  "mem_nodes mt xs ss \<longleftrightarrow> sl_ok (KeyComparator Slice_compare) (KeyExtractor KeyNum) mem_valid (sl_nodes (mt_table mt)) xs \<and>
     map (key_at (sl_nodes (mt_table mt))) xs = map item_entry ss \<and> (\<forall>e \<in> set ss. item_ok e)"

definition mti_at :: "(bytes \<times> bytes) list \<Rightarrow> MemTableIterator \<Rightarrow> nat \<Rightarrow> bool" where
  "mti_at es i p \<longleftrightarrow> (\<exists>xs ss. mem_nodes (mti_table i) xs ss \<and> es = map item_pair ss \<and>
     mti_node i = first (drop p xs) \<and> p \<le> length xs)"

lemma mem_nodes_facts:
  assumes "mem_nodes mt xs ss"
  shows "length ss = length xs" and "q < length xs \<Longrightarrow> (MemIter_key mt (xs ! q), MemIter_value mt (xs ! q)) = item_pair (ss ! q)"
    and "sorted_wrt (\<lambda>a b. InternalKey_Compare Slice_compare (fst a) (fst b) < 0) (map item_pair ss)"
    and "e \<in> set (map item_pair ss) \<Longrightarrow> key_fits (fst e)"
proof -
  let ?n = "sl_nodes (mt_table mt)"
  have ok: "sl_ok (KeyComparator Slice_compare) (KeyExtractor KeyNum) mem_valid ?n xs"
    and keys: "map (key_at ?n) xs = map item_entry ss" and items: "\<forall>e \<in> set ss. item_ok e"
    using assms by (auto simp: mem_nodes_def)
  show len: "length ss = length xs" using map_eq_imp_length_eq [OF keys] by simp
  show "(MemIter_key mt (xs ! q), MemIter_value mt (xs ! q)) = item_pair (ss ! q)" if "q < length xs"
    using arg_cong [OF keys, of "\<lambda>l. l ! q"] that len items by (intro MemIter_pair) simp_all
  have "sorted_wrt (\<lambda>a b. KeyComparator Slice_compare a b < 0) (map (key_at ?n) xs)"
    using ok by (simp add: sl_ok_def sorted_wrt_map)
  then have "sorted_wrt (\<lambda>a b. KeyComparator Slice_compare (item_entry a) (item_entry b) < 0) ss"
    unfolding keys by (simp add: sorted_wrt_map)
  then have "sorted_wrt (\<lambda>a b. InternalKey_Compare Slice_compare (fst (item_pair a)) (fst (item_pair b)) < 0) ss"
    by (rule sorted_wrt_mono_rel [rotated]) (use items item_compare_pair in simp)
  then show "sorted_wrt (\<lambda>a b. InternalKey_Compare Slice_compare (fst a) (fst b) < 0) (map item_pair ss)"
    by (simp add: sorted_wrt_map)
  show "key_fits (fst e)" if "e \<in> set (map item_pair ss)"
    using that items by (auto simp: key_fits_def)
qed

lemma first_rev_take: "0 < p \<Longrightarrow> p \<le> length xs \<Longrightarrow> first (rev (take p xs)) = first (drop (p - 1) xs)"
  by (cases p) (simp_all add: take_Suc_conv_app_nth first_def Cons_nth_drop_Suc [symmetric])

lemma first_drop: "p < length xs \<Longrightarrow> first (drop p xs) = Some (xs ! p)"
  by (simp add: first_def Cons_nth_drop_Suc [symmetric])

lemma first_simps [simp]: "first [] = None"
  by (simp add: first_def)

lemma mem_moves:
  assumes "mem_nodes mt xs ss"
  shows "MemIter_SeekToFirst mt = first (drop 0 xs)" and "MemIter_SeekToLast mt = Some (first (drop (length xs - 1) xs))"
    and "p < length xs \<Longrightarrow> MemIter_Next mt (xs ! p) = first (drop (p + 1) xs)"
    and "p < length xs \<Longrightarrow> MemIter_Prev Slice_compare mt (xs ! p) = Some (first (drop (if p = 0 then length xs else p - 1) xs))"
    and "key_fits k \<Longrightarrow> MemIter_Seek Slice_compare KeyNum mt k =
      Some (first (drop (below (InternalKey_Compare Slice_compare) k (map item_pair ss)) xs))"
proof -
  let ?n = "sl_nodes (mt_table mt)" and ?c = "KeyComparator Slice_compare"
  have ok: "sl_ok ?c (KeyExtractor KeyNum) mem_valid ?n xs"
    and keys: "map (key_at ?n) xs = map item_entry ss" and items: "\<forall>e \<in> set ss. item_ok e"
    using assms by (auto simp: mem_nodes_def)
  show "MemIter_SeekToFirst mt = first (drop 0 xs)"
    using mem.SeekToFirst_correct [OF ok] by (simp add: MemIter_SeekToFirst_def)
  show "MemIter_SeekToLast mt = Some (first (drop (length xs - 1) xs))"
    using mem.SeekToLast_correct [OF ok] first_rev_take [of "length xs" xs]
    by (cases "xs = []") (simp_all add: MemIter_SeekToLast_def)
  show "MemIter_Next mt (xs ! p) = first (drop (p + 1) xs)" if "p < length xs"
    using mem.Next_correct [of "mt_table mt" "take p xs" "xs ! p" "drop (Suc p) xs"] ok id_take_nth_drop [OF that]
    by (simp add: MemIter_Next_def)
  show "MemIter_Prev Slice_compare mt (xs ! p) = Some (first (drop (if p = 0 then length xs else p - 1) xs))" if "p < length xs"
    using mem.Prev_correct [of "mt_table mt" "take p xs" "xs ! p" "drop (Suc p) xs"] ok id_take_nth_drop [OF that]
      first_rev_take [of p xs] that by (cases "p = 0") (simp_all add: MemIter_Prev_def)
  show "MemIter_Seek Slice_compare KeyNum mt k =
      Some (first (drop (below (InternalKey_Compare Slice_compare) k (map item_pair ss)) xs))" if k: "key_fits k"
  proof -
    let ?b = "below (InternalKey_Compare Slice_compare) k (map item_pair ss)"
    note f = mem_nodes_facts [OF assms]
    have enc: "EncodeKey k = PutLengthPrefixedSlice [] k @ []"
      by (simp add: EncodeKey_def PutLengthPrefixedSlice_def PutVarint32_def)
    then have v: "mem_valid (EncodeKey k)" using k unfolding mem_valid_def key_fits_def by blast
    have cmp: "?c (key_at ?n (xs ! q)) (EncodeKey k) = InternalKey_Compare Slice_compare (fst (map item_pair ss ! q)) k"
      if "q < length xs" for q
    proof -
      obtain u s t w where e: "ss ! q = (u, s, t, w)" by (cases "ss ! q")
      have "key_at ?n (xs ! q) = item_entry (ss ! q)" using arg_cong [OF keys, of "\<lambda>l. l ! q"] that f(1) by simp
      moreover have "item_ok (ss ! q)" using items f(1) that by simp
      ultimately show ?thesis
        using k that f(1) unfolding enc e by (simp add: mem_entry_eq KeyComparator_entry key_fits_def e del: append_Nil2)
    qed
    have b: "?b \<le> length xs" using below_le [of _ k "map item_pair ss"] f(1) by simp
    have lo: "\<forall>i \<in> set (take ?b xs). ?c (key_at ?n i) (EncodeKey k) < 0"
      using cmp below_nth b by (fastforce simp: in_set_conv_nth)
    have hi: "\<forall>i \<in> set (drop ?b xs). \<not> ?c (key_at ?n i) (EncodeKey k) < 0"
    proof
      fix i assume "i \<in> set (drop ?b xs)"
      then obtain q where "q < length (drop ?b xs)" "i = drop ?b xs ! q" by (auto simp: in_set_conv_nth)
      then have q: "?b + q < length xs" "i = xs ! (?b + q)" using b by simp_all
      show "\<not> ?c (key_at ?n i) (EncodeKey k) < 0"
        unfolding q(2) cmp [OF q(1)] using q(1) f(1) by (intro ikey.internal.below_above [OF f(3), of k]) simp_all
    qed
    show ?thesis using mem.Seek_correct [OF _ v lo hi] ok by (simp add: MemIter_Seek_def)
  qed
qed

lemma mti_atI: "mem_nodes (mti_table i) xs ss \<Longrightarrow> q \<le> length xs \<Longrightarrow> mti_at (map item_pair ss) (i\<lparr>mti_node := first (drop q xs)\<rparr>) q"
  by (auto simp: mti_at_def)

lemma mem_iterator_moves:
  assumes "mti_at es i p"
  shows "\<exists>i'. it_SeekToFirst (mem_iterator Slice_compare KeyNum) i = Some i' \<and> mti_at es i' 0"
    and "\<exists>i'. it_SeekToLast (mem_iterator Slice_compare KeyNum) i = Some i' \<and> mti_at es i' (length es - 1)"
    and "key_fits k \<Longrightarrow> \<exists>i'. it_Seek (mem_iterator Slice_compare KeyNum) k i = Some i' \<and>
      mti_at es i' (below (InternalKey_Compare Slice_compare) k es)"
    and "p < length es \<Longrightarrow> \<exists>i'. it_Next (mem_iterator Slice_compare KeyNum) i = Some i' \<and> mti_at es i' (p + 1)"
    and "p < length es \<Longrightarrow> \<exists>i'. it_Prev (mem_iterator Slice_compare KeyNum) i = Some i' \<and>
      mti_at es i' (if p = 0 then length es else p - 1)"
proof -
  obtain xs ss where n: "mem_nodes (mti_table i) xs ss" "es = map item_pair ss" "mti_node i = first (drop p xs)" "p \<le> length xs"
    using assms by (auto simp: mti_at_def)
  note f = mem_nodes_facts [OF n(1)] and m = mem_moves [OF n(1)]
  note I = mti_atI [OF n(1), folded n(2)]
  have len: "length es = length xs" using f(1) n(2) by simp
  show "\<exists>i'. it_SeekToFirst (mem_iterator Slice_compare KeyNum) i = Some i' \<and> mti_at es i' 0"
    using m(1) I [of 0] by (simp add: mem_iterator_def)
  show "\<exists>i'. it_SeekToLast (mem_iterator Slice_compare KeyNum) i = Some i' \<and> mti_at es i' (length es - 1)"
    using m(2) I [of "length xs - 1"] len by (simp add: mem_iterator_def)
  show "\<exists>i'. it_Seek (mem_iterator Slice_compare KeyNum) k i = Some i' \<and>
      mti_at es i' (below (InternalKey_Compare Slice_compare) k es)" if "key_fits k"
    using m(5) [OF that, folded n(2)] I [of "below (InternalKey_Compare Slice_compare) k es"] len
      below_le [of "InternalKey_Compare Slice_compare" k es] by (simp add: mem_iterator_def)
  show "\<exists>i'. it_Next (mem_iterator Slice_compare KeyNum) i = Some i' \<and> mti_at es i' (p + 1)" if "p < length es"
    using m(3) [of p] I [of "p + 1"] that len n(3) first_drop [of p xs] by (simp add: mem_iterator_def)
  show "\<exists>i'. it_Prev (mem_iterator Slice_compare KeyNum) i = Some i' \<and>
      mti_at es i' (if p = 0 then length es else p - 1)" if "p < length es"
    using m(4) [of p] I [of "if p = 0 then length xs else p - 1"] that len n(3) first_drop [of p xs]
    by (simp add: mem_iterator_def split del: if_split) (simp split: if_splits)
qed

lemma mem_iterator_reads:
  assumes "mti_at es i p"
  shows "sorted_wrt (\<lambda>a b. InternalKey_Compare Slice_compare (fst a) (fst b) < 0) es" and "e \<in> set es \<Longrightarrow> key_fits (fst e)"
    and "p \<le> length es" and "it_Valid (mem_iterator Slice_compare KeyNum) i \<longleftrightarrow> p < length es"
    and "p < length es \<Longrightarrow> it_key (mem_iterator Slice_compare KeyNum) i = fst (es ! p)"
    and "p < length es \<Longrightarrow> it_value (mem_iterator Slice_compare KeyNum) i = snd (es ! p)"
    and "it_status (mem_iterator Slice_compare KeyNum) i = OK"
proof -
  obtain xs ss where n: "mem_nodes (mti_table i) xs ss" "es = map item_pair ss" "mti_node i = first (drop p xs)" "p \<le> length xs"
    using assms by (auto simp: mti_at_def)
  note f = mem_nodes_facts [OF n(1)]
  have len: "length es = length xs" using f(1) n(2) by simp
  show "sorted_wrt (\<lambda>a b. InternalKey_Compare Slice_compare (fst a) (fst b) < 0) es" using f(3) n(2) by simp
  show "key_fits (fst e)" if "e \<in> set es" using f(4) that n(2) by simp
  show "p \<le> length es" using n(4) len by simp
  show "it_Valid (mem_iterator Slice_compare KeyNum) i \<longleftrightarrow> p < length es"
    using n(3,4) len first_drop [of p xs] by (cases "p < length xs") (simp_all add: mem_iterator_def)
  have "(MemIter_key (mti_table i) (xs ! p), MemIter_value (mti_table i) (xs ! p)) = es ! p" if "p < length es"
    using f(1) f(2) [of p] that len n(2) by simp
  then show "p < length es \<Longrightarrow> it_key (mem_iterator Slice_compare KeyNum) i = fst (es ! p)"
    "p < length es \<Longrightarrow> it_value (mem_iterator Slice_compare KeyNum) i = snd (es ! p)"
    using n(3) len first_drop [of p xs] by (auto simp: mem_iterator_def prod_eq_iff)
qed (simp add: mem_iterator_def)

lemma mem_NewIterator_at:
  assumes "mt_rep mt es" and "distinct es"
  shows "\<exists>ss. mset ss = mset es \<and> mti_at (map item_pair ss) \<lparr>mti_table = mt, mti_node = None\<rparr> (length es)"
proof -
  obtain xs ss where
    x: "sl_ok (KeyComparator Slice_compare) (KeyExtractor KeyNum) mem_valid (sl_nodes (mt_table mt)) xs"
    and ss: "map (key_at (sl_nodes (mt_table mt))) xs = map item_entry ss" "set ss = set es" "distinct ss"
    using mt_rep_sorted [OF assms(1)] by metis
  have m: "mset ss = mset es" using ss(2,3) assms(2) by (simp add: set_eq_iff_mset_eq_distinct)
  have "\<forall>e \<in> set ss. item_ok e" using assms(1) ss(2) by (simp add: mt_rep_def)
  then have "mem_nodes mt xs ss" using x ss(1) by (simp add: mem_nodes_def)
  moreover have "length xs = length es"
    using map_eq_imp_length_eq [OF ss(1)] mset_eq_length [OF m] by simp
  ultimately have "mti_at (map item_pair ss) \<lparr>mti_table = mt, mti_node = None\<rparr> (length es)"
    using mti_atI [of "\<lparr>mti_table = mt, mti_node = None\<rparr>" xs ss "length es"] by simp
  then show ?thesis using m by blast
qed

interpretation memiter: iterator "mem_iterator Slice_compare KeyNum" "InternalKey_Compare Slice_compare" key_fits mti_at
  by unfold_locales (fact mem_iterator_reads mem_iterator_moves | (erule mem_iterator_reads mem_iterator_moves, assumption))+

interpretation blockiter: iterator "block_iterator (InternalKey_Compare Slice_compare)" "InternalKey_Compare Slice_compare"
  key_fits "abi_at (InternalKey_Compare Slice_compare) key_fits"
  by (rule ikey.internal.abi_iterator)

section \<open>Several kinds of iterators\<close>

text \<open>An \<open>Iterator*\<close> points to an object of one class or another; a call goes to its class.\<close>

definition either_iterator :: "'a Iterator \<Rightarrow> 'b Iterator \<Rightarrow> ('a + 'b) Iterator" where
  "either_iterator A B =
    \<lparr>it_Valid = case_sum (it_Valid A) (it_Valid B),
     it_SeekToFirst = case_sum (\<lambda>s. map_option Inl (it_SeekToFirst A s)) (\<lambda>s. map_option Inr (it_SeekToFirst B s)),
     it_SeekToLast = case_sum (\<lambda>s. map_option Inl (it_SeekToLast A s)) (\<lambda>s. map_option Inr (it_SeekToLast B s)),
     it_Seek = \<lambda>k. case_sum (\<lambda>s. map_option Inl (it_Seek A k s)) (\<lambda>s. map_option Inr (it_Seek B k s)),
     it_Next = case_sum (\<lambda>s. map_option Inl (it_Next A s)) (\<lambda>s. map_option Inr (it_Next B s)),
     it_Prev = case_sum (\<lambda>s. map_option Inl (it_Prev A s)) (\<lambda>s. map_option Inr (it_Prev B s)),
     it_key = case_sum (it_key A) (it_key B), it_value = case_sum (it_value A) (it_value B),
     it_status = case_sum (it_status A) (it_status B)\<rparr>"

definition either_at where
  "either_at atA atB es s p = (case s of Inl a \<Rightarrow> atA es a p | Inr b \<Rightarrow> atB es b p)"

lemma either_iterator_contract:
  assumes A: "iterator A cmp sk atA" and B: "iterator B cmp sk atB"
  shows "iterator (either_iterator A B) cmp sk (either_at atA atB)"
proof (unfold_locales, goal_cases)
  case (1 es s p)
  then show ?case
    using iterator.at_sorted [OF A] iterator.at_sorted [OF B] by (auto simp: either_at_def split: sum.splits)
next
  case (2 es s p e)
  then show ?case
    by (cases s) (simp_all add: either_at_def iterator.at_seekable [OF A _ 2(2)] iterator.at_seekable [OF B _ 2(2)])
next
  case (3 es s p)
  then show ?case using iterator.at_le [OF A] iterator.at_le [OF B] by (auto simp: either_at_def split: sum.splits)
next
  case (4 es s p)
  then show ?case
    using iterator.at_Valid [OF A] iterator.at_Valid [OF B] by (auto simp: either_iterator_def either_at_def split: sum.splits)
next
  case (5 es s p)
  then show ?case
    using iterator.at_key [OF A] iterator.at_key [OF B] by (auto simp: either_iterator_def either_at_def split: sum.splits)
next
  case (6 es s p)
  then show ?case
    using iterator.at_value [OF A] iterator.at_value [OF B] by (auto simp: either_iterator_def either_at_def split: sum.splits)
next
  case (7 es s p)
  then show ?case
    using iterator.at_status [OF A] iterator.at_status [OF B] by (auto simp: either_iterator_def either_at_def split: sum.splits)
next
  case (8 es s p)
  then show ?case
  proof (cases s)
    case (Inl a)
    then have "atA es a p" using 8(1) by (simp add: either_at_def)
    from iterator.at_SeekToFirst [OF A this] show ?thesis using Inl by (auto simp: either_iterator_def either_at_def split del: if_split)
  next
    case (Inr b)
    then have "atB es b p" using 8(1) by (simp add: either_at_def)
    from iterator.at_SeekToFirst [OF B this] show ?thesis using Inr by (auto simp: either_iterator_def either_at_def split del: if_split)
  qed
next
  case (9 es s p)
  then show ?case
  proof (cases s)
    case (Inl a)
    then have "atA es a p" using 9(1) by (simp add: either_at_def)
    from iterator.at_SeekToLast [OF A this] show ?thesis using Inl by (auto simp: either_iterator_def either_at_def split del: if_split)
  next
    case (Inr b)
    then have "atB es b p" using 9(1) by (simp add: either_at_def)
    from iterator.at_SeekToLast [OF B this] show ?thesis using Inr by (auto simp: either_iterator_def either_at_def split del: if_split)
  qed
next
  case (10 es s p k)
  then show ?case
  proof (cases s)
    case (Inl a)
    then have "atA es a p" using 10(1) by (simp add: either_at_def)
    from iterator.at_Seek [OF A this 10(2)] show ?thesis using Inl by (auto simp: either_iterator_def either_at_def split del: if_split)
  next
    case (Inr b)
    then have "atB es b p" using 10(1) by (simp add: either_at_def)
    from iterator.at_Seek [OF B this 10(2)] show ?thesis using Inr by (auto simp: either_iterator_def either_at_def split del: if_split)
  qed
next
  case (11 es s p)
  then show ?case
  proof (cases s)
    case (Inl a)
    then have "atA es a p" using 11(1) by (simp add: either_at_def)
    from iterator.at_Next [OF A this 11(2)] show ?thesis using Inl by (auto simp: either_iterator_def either_at_def split del: if_split)
  next
    case (Inr b)
    then have "atB es b p" using 11(1) by (simp add: either_at_def)
    from iterator.at_Next [OF B this 11(2)] show ?thesis using Inr by (auto simp: either_iterator_def either_at_def split del: if_split)
  qed
next
  case (12 es s p)
  then show ?case
  proof (cases s)
    case (Inl a)
    then have "atA es a p" using 12(1) by (simp add: either_at_def)
    from iterator.at_Prev [OF A this 12(2)] show ?thesis using Inl by (auto simp: either_iterator_def either_at_def split del: if_split)
  next
    case (Inr b)
    then have "atB es b p" using 12(1) by (simp add: either_at_def)
    from iterator.at_Prev [OF B this 12(2)] show ?thesis using Inr by (auto simp: either_iterator_def either_at_def split del: if_split)
  qed
qed

text \<open>An object with the operations of its class, as a virtual call finds it.\<close>

definition obj_iterator :: "('s Iterator \<times> 's) Iterator" where
  "obj_iterator =
    \<lparr>it_Valid = \<lambda>(I, s). it_Valid I s, it_SeekToFirst = \<lambda>(I, s). map_option (Pair I) (it_SeekToFirst I s),
     it_SeekToLast = \<lambda>(I, s). map_option (Pair I) (it_SeekToLast I s), it_Seek = \<lambda>k (I, s). map_option (Pair I) (it_Seek I k s),
     it_Next = \<lambda>(I, s). map_option (Pair I) (it_Next I s), it_Prev = \<lambda>(I, s). map_option (Pair I) (it_Prev I s),
     it_key = \<lambda>(I, s). it_key I s, it_value = \<lambda>(I, s). it_value I s, it_status = \<lambda>(I, s). it_status I s\<rparr>"

definition obj_at :: "(bytes \<Rightarrow> bytes \<Rightarrow> int) \<Rightarrow> (bytes \<Rightarrow> bool) \<Rightarrow> (bytes \<times> bytes) list \<Rightarrow> 's Iterator \<times> 's \<Rightarrow> nat \<Rightarrow> bool" where
  "obj_at cmp sk es ob p \<longleftrightarrow> (\<exists>at. iterator (fst ob) cmp sk at \<and> at es (snd ob) p)"

lemma obj_atI: "iterator I cmp sk at \<Longrightarrow> at es s p \<Longrightarrow> obj_at cmp sk es (I, s) p"
  unfolding obj_at_def by auto

lemma obj_atE:
  assumes "obj_at cmp sk es ob p"
  obtains I s "at" where "ob = (I, s)" "iterator I cmp sk at" "at es s p"
  using assms unfolding obj_at_def by (metis prod.collapse)

lemma obj_move:
  assumes "iterator I cmp sk at" and "\<exists>s'. x = Some s' \<and> at es s' q"
  shows "\<exists>ob'. map_option (Pair I) x = Some ob' \<and> obj_at cmp sk es ob' q"
  using assms(2) obj_atI [OF assms(1)] by auto

lemma obj_iterator_contract: "iterator obj_iterator cmp sk (obj_at cmp sk)"
proof (unfold_locales, goal_cases)
  case (1 es s p)
  then show ?case by (auto elim!: obj_atE dest: iterator.at_sorted)
next
  case (2 es s p e)
  then show ?case by (auto elim!: obj_atE intro: iterator.at_seekable)
next
  case (3 es s p)
  then show ?case by (auto elim!: obj_atE dest: iterator.at_le)
next
  case (4 es s p)
  then show ?case by (auto elim!: obj_atE simp: obj_iterator_def dest: iterator.at_Valid)
next
  case (5 es s p)
  then show ?case by (auto elim!: obj_atE simp: obj_iterator_def dest: iterator.at_key)
next
  case (6 es s p)
  then show ?case by (auto elim!: obj_atE simp: obj_iterator_def dest: iterator.at_value)
next
  case (7 es s p)
  then show ?case by (auto elim!: obj_atE simp: obj_iterator_def dest: iterator.at_status)
next
  case (8 es s p)
  then obtain I t a where o: "s = (I, t)" "iterator I cmp sk a" "a es t p" by (elim obj_atE)
  show ?case
    using obj_move [OF o(2) iterator.at_SeekToFirst [OF o(2,3)]] by (simp add: obj_iterator_def o(1) split del: if_split)
next
  case (9 es s p)
  then obtain I t a where o: "s = (I, t)" "iterator I cmp sk a" "a es t p" by (elim obj_atE)
  show ?case
    using obj_move [OF o(2) iterator.at_SeekToLast [OF o(2,3)]] by (simp add: obj_iterator_def o(1) split del: if_split)
next
  case (10 es s p k)
  then obtain I t a where o: "s = (I, t)" "iterator I cmp sk a" "a es t p" by (elim obj_atE)
  show ?case
    using obj_move [OF o(2) iterator.at_Seek [OF o(2,3) 10(2)]] by (simp add: obj_iterator_def o(1) split del: if_split)
next
  case (11 es s p)
  then obtain I t a where o: "s = (I, t)" "iterator I cmp sk a" "a es t p" by (elim obj_atE)
  show ?case
    using obj_move [OF o(2) iterator.at_Next [OF o(2,3) 11(2)]] by (simp add: obj_iterator_def o(1) split del: if_split)
next
  case (12 es s p)
  then obtain I t a where o: "s = (I, t)" "iterator I cmp sk a" "a es t p" by (elim obj_atE)
  show ?case
    using obj_move [OF o(2) iterator.at_Prev [OF o(2,3) 12(2)]] by (simp add: obj_iterator_def o(1) split del: if_split)
qed

interpretation obj: iterator obj_iterator "InternalKey_Compare Slice_compare" key_fits "obj_at (InternalKey_Compare Slice_compare) key_fits"
  by (rule obj_iterator_contract)

end
