(* ===== verification/TwoLevelIterator.thy ===== *)
theory TwoLevelIterator
  imports Iterator
begin

text \<open>
  The two-level iterator, \<^verbatim>\<open>table/two_level_iterator.cc\<close>: an index iterator whose values are
  handles of blocks and an iterator on the current block.  The block function is an argument.  The
  theory shows that over sorted blocks with separating index keys it is an iterator on the
  concatenation of the blocks, and that its loops return.
\<close>

section \<open>State and operations\<close>

record ('i, 'd) TwoLevelIterator =
  tl_status :: Status
  tl_index :: "'i IteratorWrapper"
  tl_data :: "'d IteratorWrapper"
  tl_handle :: bytes

definition mk_TwoLevelIterator :: "'i Iterator \<Rightarrow> 'd Iterator \<Rightarrow> 'i \<Rightarrow> ('i, 'd) TwoLevelIterator" where
  "mk_TwoLevelIterator I D index_iter =
    \<lparr>tl_status = OK, tl_index = mk_IteratorWrapper I (Some index_iter), tl_data = mk_IteratorWrapper D None, tl_handle = []\<rparr>"

definition SaveError :: "Status \<Rightarrow> ('i, 'd) TwoLevelIterator \<Rightarrow> ('i, 'd) TwoLevelIterator" where
  "SaveError s t = (if ok (tl_status t) \<and> \<not> ok s then t\<lparr>tl_status := s\<rparr> else t)"

definition SetDataIterator :: "'d Iterator \<Rightarrow> 'd option \<Rightarrow> ('i, 'd) TwoLevelIterator \<Rightarrow> ('i, 'd) TwoLevelIterator" where
  "SetDataIterator D data_iter t =
    (let t = (if iw_iter (tl_data t) \<noteq> None then SaveError (IW_status D (tl_data t)) t else t)
     in t\<lparr>tl_data := IW_Set D data_iter (tl_data t)\<rparr>)"

definition InitDataBlock ::
    "'i Iterator \<Rightarrow> 'd Iterator \<Rightarrow> (bytes \<Rightarrow> 'd) \<Rightarrow> ('i, 'd) TwoLevelIterator \<Rightarrow> ('i, 'd) TwoLevelIterator" where
  "InitDataBlock I D block_function t =
    (if \<not> iw_valid (tl_index t) then SetDataIterator D None t
     else let handle = IW_value I (tl_index t)
          in if iw_iter (tl_data t) \<noteq> None \<and> Slice_compare handle (tl_handle t) = 0 then t
             else SetDataIterator D (Some (block_function handle)) (t\<lparr>tl_handle := handle\<rparr>))"

text \<open>\<open>if (data_iter_.iter() != NULL) data_iter_.f()\<close>\<close>

definition on_data ::
    "('d IteratorWrapper \<Rightarrow> 'd IteratorWrapper option) \<Rightarrow> ('i, 'd) TwoLevelIterator \<Rightarrow> ('i, 'd) TwoLevelIterator option" where
  "on_data f t = (if iw_iter (tl_data t) \<noteq> None then do { d \<leftarrow> f (tl_data t); Some (t\<lparr>tl_data := d\<rparr>) } else Some t)"

partial_function (option) SkipEmptyDataBlocksForward ::
    "'i Iterator \<Rightarrow> 'd Iterator \<Rightarrow> (bytes \<Rightarrow> 'd) \<Rightarrow> ('i, 'd) TwoLevelIterator \<Rightarrow> ('i, 'd) TwoLevelIterator option" where
  "SkipEmptyDataBlocksForward I D block_function t =
    (if iw_iter (tl_data t) = None \<or> \<not> iw_valid (tl_data t)
     then if \<not> iw_valid (tl_index t) then Some (SetDataIterator D None t)
          else do {
            index \<leftarrow> IW_Next I (tl_index t);
            t \<leftarrow> on_data (IW_SeekToFirst D) (InitDataBlock I D block_function (t\<lparr>tl_index := index\<rparr>));
            SkipEmptyDataBlocksForward I D block_function t
          }
     else Some t)"

partial_function (option) SkipEmptyDataBlocksBackward ::
    "'i Iterator \<Rightarrow> 'd Iterator \<Rightarrow> (bytes \<Rightarrow> 'd) \<Rightarrow> ('i, 'd) TwoLevelIterator \<Rightarrow> ('i, 'd) TwoLevelIterator option" where
  "SkipEmptyDataBlocksBackward I D block_function t =
    (if iw_iter (tl_data t) = None \<or> \<not> iw_valid (tl_data t)
     then if \<not> iw_valid (tl_index t) then Some (SetDataIterator D None t)
          else do {
            index \<leftarrow> IW_Prev I (tl_index t);
            t \<leftarrow> on_data (IW_SeekToLast D) (InitDataBlock I D block_function (t\<lparr>tl_index := index\<rparr>));
            SkipEmptyDataBlocksBackward I D block_function t
          }
     else Some t)"

definition TL_Seek where
  "TL_Seek I D block_function target t = do {
     index \<leftarrow> IW_Seek I target (tl_index t);
     t \<leftarrow> on_data (IW_Seek D target) (InitDataBlock I D block_function (t\<lparr>tl_index := index\<rparr>));
     SkipEmptyDataBlocksForward I D block_function t
   }"

definition TL_SeekToFirst where
  "TL_SeekToFirst I D block_function t = do {
     index \<leftarrow> IW_SeekToFirst I (tl_index t);
     t \<leftarrow> on_data (IW_SeekToFirst D) (InitDataBlock I D block_function (t\<lparr>tl_index := index\<rparr>));
     SkipEmptyDataBlocksForward I D block_function t
   }"

definition TL_SeekToLast where
  "TL_SeekToLast I D block_function t = do {
     index \<leftarrow> IW_SeekToLast I (tl_index t);
     t \<leftarrow> on_data (IW_SeekToLast D) (InitDataBlock I D block_function (t\<lparr>tl_index := index\<rparr>));
     SkipEmptyDataBlocksBackward I D block_function t
   }"

definition TL_Next where
  "TL_Next I D block_function t = do {
     data \<leftarrow> IW_Next D (tl_data t);
     SkipEmptyDataBlocksForward I D block_function (t\<lparr>tl_data := data\<rparr>)
   }"

definition TL_Prev where
  "TL_Prev I D block_function t = do {
     data \<leftarrow> IW_Prev D (tl_data t);
     SkipEmptyDataBlocksBackward I D block_function (t\<lparr>tl_data := data\<rparr>)
   }"

definition TL_Status :: "'i Iterator \<Rightarrow> 'd Iterator \<Rightarrow> ('i, 'd) TwoLevelIterator \<Rightarrow> Status" where
  "TL_Status I D t =
    (if \<not> ok (IW_status I (tl_index t)) then IW_status I (tl_index t)
     else if iw_iter (tl_data t) \<noteq> None \<and> \<not> ok (IW_status D (tl_data t)) then IW_status D (tl_data t)
     else tl_status t)"

definition two_level_iterator ::
    "'i Iterator \<Rightarrow> 'd Iterator \<Rightarrow> (bytes \<Rightarrow> 'd) \<Rightarrow> ('i, 'd) TwoLevelIterator Iterator" where
  "two_level_iterator I D block_function =
    \<lparr>it_Valid = \<lambda>t. iw_valid (tl_data t), it_SeekToFirst = TL_SeekToFirst I D block_function,
     it_SeekToLast = TL_SeekToLast I D block_function, it_Seek = TL_Seek I D block_function,
     it_Next = TL_Next I D block_function, it_Prev = TL_Prev I D block_function,
     it_key = \<lambda>t. iw_key (tl_data t), it_value = \<lambda>t. IW_value D (tl_data t), it_status = TL_Status I D\<rparr>"

text \<open>\<open>TwoLevelIteratorGuards\<close> has the same members with the same bodies; its block function
  takes three arguments and a level before the options.\<close>

definition two_level_iterator_guards ::
    "'i Iterator \<Rightarrow> 'd Iterator \<Rightarrow> ('a \<Rightarrow> 'b \<Rightarrow> 'c \<Rightarrow> nat \<Rightarrow> ReadOptions \<Rightarrow> bytes \<Rightarrow> 'd) \<Rightarrow> 'a \<Rightarrow> 'b \<Rightarrow> 'c \<Rightarrow> nat \<Rightarrow> ReadOptions \<Rightarrow>
      ('i, 'd) TwoLevelIterator Iterator" where
  "two_level_iterator_guards I D block_function arg1 arg2 arg3 level options =
    two_level_iterator I D (block_function arg1 arg2 arg3 level options)"

section \<open>Concatenated blocks\<close>

lemma Status_OK_simps [simp]: "ok OK"
  by (simp add: ok_def)

definition pos :: "'a list list \<Rightarrow> nat \<Rightarrow> nat \<Rightarrow> nat" where
  "pos bss j q = length (concat (take j bss)) + q"

lemma concat_split: "j < length bss \<Longrightarrow> concat bss = concat (take j bss) @ bss ! j @ concat (drop (Suc j) bss)"
  using id_take_nth_drop [of j bss] by (metis concat.simps(2) concat_append)

lemma pos_nth:
  assumes "j < length bss" and "q < length (bss ! j)"
  shows "concat bss ! pos bss j q = bss ! j ! q" and "pos bss j q < length (concat bss)"
  using concat_split [OF assms(1)] assms(2) by (simp_all add: pos_def nth_append)

lemma pos_Suc: "j < length bss \<Longrightarrow> pos bss (Suc j) 0 = pos bss j (length (bss ! j))"
  by (simp add: pos_def take_Suc_conv_app_nth)

lemma pos_end: "length bss \<le> j \<Longrightarrow> pos bss j 0 = length (concat bss)"
  by (simp add: pos_def)

lemma pos_0 [simp]: "pos bss 0 q = q"
  by (simp add: pos_def)

lemma pos_add: "pos bss j q = pos bss j 0 + q"
  by (simp add: pos_def)

lemma pos_le: "pos bss j 0 \<le> length (concat bss)"
  by (metis pos_def add_0_right concat_append append_take_drop_id length_append le_add1)

lemma nth_concat_pos:
  assumes "p < length (concat bss)"
  obtains j q where "j < length bss" "q < length (bss ! j)" "p = pos bss j q"
  using assms
proof (induction bss arbitrary: p thesis)
  case (Cons b bss)
  show ?case
  proof (cases "p < length b")
    case True
    then show ?thesis using Cons.prems(1) [of 0 p] by simp
  next
    case False
    then have "p - length b < length (concat bss)" using Cons.prems(2) by simp
    from Cons.IH [OF _ this] obtain j q where "j < length bss" "q < length (bss ! j)" "p - length b = pos bss j q" by blast
    then show ?thesis using Cons.prems(1) [of "Suc j" q] False by (simp add: pos_def)
  qed
qed simp

lemma below_append:
  "\<forall>e \<in> set xs. cmp (fst e) k < 0 \<Longrightarrow> below cmp k (xs @ ys) = length xs + below cmp k ys"
  "\<forall>e \<in> set ys. \<not> cmp (fst e) k < 0 \<Longrightarrow> below cmp k (xs @ ys) = below cmp k xs"
proof -
  show "\<forall>e \<in> set xs. cmp (fst e) k < 0 \<Longrightarrow> below cmp k (xs @ ys) = length xs + below cmp k ys"
    by (simp add: below_def takeWhile_append2)
  show "below cmp k (xs @ ys) = below cmp k xs" if "\<forall>e \<in> set ys. \<not> cmp (fst e) k < 0"
  proof (cases "\<forall>e \<in> set xs. cmp (fst e) k < 0")
    case True
    then have "below cmp k (xs @ ys) = length xs + below cmp k ys" "below cmp k (xs @ []) = length xs + below cmp k []"
      unfolding below_def by (simp_all add: takeWhile_append2 del: append_Nil2)
    moreover have "below cmp k ys = 0" using that by (cases ys) (simp_all add: below_def)
    ultimately show ?thesis by (simp add: below_def)
  next
    case False
    then show ?thesis by (metis (no_types, lifting) below_def takeWhile_append1)
  qed
qed

section \<open>The contract\<close>

locale two_level = key_comparator Compare + ix: iterator I Compare seekable atI + da: iterator D Compare seekable atD
  for Compare seekable and I :: "'i Iterator" and atI and D :: "'d Iterator" and atD +
  fixes block_function :: "bytes \<Rightarrow> 'd" and blk :: "bytes \<Rightarrow> (bytes \<times> bytes) list"
begin

abbreviation blocks :: "(bytes \<times> bytes) list \<Rightarrow> (bytes \<times> bytes) list list" where
  "blocks ies \<equiv> map (\<lambda>e. blk (snd e)) ies"

definition tl_layout :: "(bytes \<times> bytes) list \<Rightarrow> bool" where
  "tl_layout ies \<longleftrightarrow> (\<forall>e \<in> set ies. \<exists>p. atD (blk (snd e)) (block_function (snd e)) p) \<and>
     (\<forall>j < length ies. \<forall>e \<in> set (blk (snd (ies ! j))). Compare (fst e) (fst (ies ! j)) \<le> 0) \<and>
     (\<forall>j j'. j < j' \<and> j' < length ies \<longrightarrow> (\<forall>e \<in> set (blk (snd (ies ! j'))). Compare (fst (ies ! j)) (fst e) < 0))"

lemma layoutD:
  assumes "tl_layout ies"
  shows "j < length ies \<Longrightarrow> e \<in> set (blk (snd (ies ! j))) \<Longrightarrow> Compare (fst e) (fst (ies ! j)) \<le> 0"
    and "j < j' \<Longrightarrow> j' < length ies \<Longrightarrow> e \<in> set (blk (snd (ies ! j'))) \<Longrightarrow> Compare (fst (ies ! j)) (fst e) < 0"
  using assms unfolding tl_layout_def by blast+

text \<open>The block iterator, when there is one, walks over the block of its handle.\<close>

definition tl_inv :: "(bytes \<times> bytes) list \<Rightarrow> ('i, 'd) TwoLevelIterator \<Rightarrow> nat \<Rightarrow> bool" where
  "tl_inv ies t j \<longleftrightarrow> tl_layout ies \<and> ix.iw_at ies (tl_index t) j \<and> tl_status t = OK \<and>
     (if iw_iter (tl_data t) = None then \<not> iw_valid (tl_data t)
      else \<exists>q. da.iw_at (blk (tl_handle t)) (tl_data t) q)"

text \<open>The index stands at block \<open>j\<close> and the block iterator at entry \<open>q\<close> of it.\<close>

definition tl_pos :: "(bytes \<times> bytes) list \<Rightarrow> ('i, 'd) TwoLevelIterator \<Rightarrow> nat \<Rightarrow> nat \<Rightarrow> bool" where
  "tl_pos ies t j q \<longleftrightarrow> tl_inv ies t j \<and> (if j < length ies then tl_handle t = snd (ies ! j) \<and> da.iw_at (blk (tl_handle t)) (tl_data t) q
     else iw_iter (tl_data t) = None \<and> q = 0)"

definition tl_at :: "(bytes \<times> bytes) list \<Rightarrow> ('i, 'd) TwoLevelIterator \<Rightarrow> nat \<Rightarrow> bool" where
  "tl_at es t p \<longleftrightarrow> (\<exists>ies j. es = concat (blocks ies) \<and> tl_inv ies t j \<and>
     ((\<exists>q. tl_pos ies t j q \<and> j < length ies \<and> q < length (blk (tl_handle t)) \<and> p = pos (blocks ies) j q) \<or>
      (iw_iter (tl_data t) = None \<and> p = length es)))"

lemma InitDataBlock_inv:
  assumes "tl_inv ies t j"
  shows "\<exists>q. tl_pos ies (InitDataBlock I D block_function t) j q"
proof -
  have ix: "ix.iw_at ies (tl_index t) j" and lay: "tl_layout ies" and st: "tl_status t = OK" using assms by (auto simp: tl_inv_def)
  note x = ix.iw_atD [OF ix]
  have save: "SaveError (IW_status D (tl_data t)) t = t" if "iw_iter (tl_data t) \<noteq> None"
    using assms that da.iw_atD(4) by (auto simp: tl_inv_def SaveError_def)
  show ?thesis
  proof (cases "j < length ies")
    case False
    then have "InitDataBlock I D block_function t = t\<lparr>tl_data := IW_Set D None (tl_data t)\<rparr>"
      using x(1) save by (simp add: InitDataBlock_def SetDataIterator_def)
    then show ?thesis using False lay ix st by (simp add: tl_pos_def tl_inv_def IW_Set_def)
  next
    case True
    let ?h = "snd (ies ! j)"
    have h: "IW_value I (tl_index t) = ?h" "iw_valid (tl_index t)" using x True by simp_all
    show ?thesis
    proof (cases "iw_iter (tl_data t) \<noteq> None \<and> Slice_compare ?h (tl_handle t) = 0")
      case True
      then have "InitDataBlock I D block_function t = t" "tl_handle t = ?h"
        using h by (simp_all add: InitDataBlock_def Slice_compare_lex split: if_splits)
      moreover from True obtain q where "da.iw_at (blk (tl_handle t)) (tl_data t) q" using assms by (auto simp: tl_inv_def)
      ultimately show ?thesis using assms \<open>j < length ies\<close> by (auto simp: tl_pos_def)
    next
      case False
      let ?t = "t\<lparr>tl_handle := ?h, tl_data := IW_Set D (Some (block_function ?h)) (tl_data t)\<rparr>"
      have sv: "SaveError (IW_status D (tl_data t)) (t\<lparr>tl_handle := ?h\<rparr>) = t\<lparr>tl_handle := ?h\<rparr>" if "iw_iter (tl_data t) \<noteq> None"
        using assms that da.iw_atD(4) by (auto simp: tl_inv_def SaveError_def)
      have "InitDataBlock I D block_function t = ?t"
        using h False sv by (auto simp: InitDataBlock_def SetDataIterator_def Let_def)
      moreover obtain p where "atD (blk ?h) (block_function ?h) p" using lay \<open>j < length ies\<close> unfolding tl_layout_def by (meson nth_mem)
      then have "da.iw_at (blk ?h) (tl_data ?t) p" using da.IW_Update_at by (simp add: IW_Set_def)
      moreover have "iw_iter (tl_data ?t) \<noteq> None" by (simp add: IW_Set_def IW_Update_def)
      ultimately show ?thesis using lay ix st \<open>j < length ies\<close> by (auto simp: tl_pos_def tl_inv_def)
    qed
  qed
qed

lemma on_data_pos:
  assumes "tl_pos ies t j q" and "\<And>w. da.iw_at (blk (snd (ies ! j))) w q \<Longrightarrow> j < length ies \<Longrightarrow>
      \<exists>w'. f w = Some w' \<and> da.iw_at (blk (snd (ies ! j))) w' q'"
  shows "\<exists>t'. on_data f t = Some t' \<and> tl_pos ies t' j (if j < length ies then q' else 0)"
proof (cases "j < length ies")
  case False
  then show ?thesis using assms(1) by (auto simp: tl_pos_def on_data_def)
next
  case True
  then have w: "da.iw_at (blk (snd (ies ! j))) (tl_data t) q" "tl_handle t = snd (ies ! j)" using assms(1) by (auto simp: tl_pos_def)
  obtain w' where w': "f (tl_data t) = Some w'" "da.iw_at (blk (snd (ies ! j))) w' q'" using assms(2) [OF w(1) True] by blast
  have "iw_iter (tl_data t) \<noteq> None" "iw_iter w' \<noteq> None" using da.iw_atD(5) w(1) w'(2) by blast+
  then show ?thesis using w' w(2) True assms(1) by (auto simp: on_data_def tl_pos_def tl_inv_def)
qed

lemma tl_pos_valid:
  assumes "tl_pos ies t j q" and "j < length ies" and "q < length (blk (snd (ies ! j)))"
  shows "tl_at (concat (blocks ies)) t (pos (blocks ies) j q)" and "iw_iter (tl_data t) \<noteq> None" and "iw_valid (tl_data t)"
proof -
  have t: "tl_handle t = snd (ies ! j)" "tl_inv ies t j" "da.iw_at (blk (snd (ies ! j))) (tl_data t) q"
    using assms(1,2) by (auto simp: tl_pos_def)
  show "tl_at (concat (blocks ies)) t (pos (blocks ies) j q)"
    unfolding tl_at_def using assms t(1,2) by metis
  show "iw_iter (tl_data t) \<noteq> None" "iw_valid (tl_data t)" using da.iw_atD(1,5) [OF t(3)] assms(3) by simp_all
qed

lemma tl_pos_end:
  assumes "tl_pos ies t j q" and "\<not> j < length ies"
  shows "\<not> iw_valid (tl_index t)" and "iw_iter (tl_data t) = None" and "\<not> iw_valid (tl_data t)"
    and "tl_at (concat (blocks ies)) (SetDataIterator D None t) (length (concat (blocks ies)))"
proof -
  have t: "iw_iter (tl_data t) = None" "tl_inv ies t j" using assms by (simp_all add: tl_pos_def)
  then have "tl_inv ies (SetDataIterator D None t) j" "iw_iter (tl_data (SetDataIterator D None t)) = None"
    by (simp_all add: SetDataIterator_def IW_Set_def tl_inv_def)
  then show "tl_at (concat (blocks ies)) (SetDataIterator D None t) (length (concat (blocks ies)))"
    unfolding tl_at_def by blast
qed (use assms ix.iw_atD(1) [of ies "tl_index t" j] in \<open>auto simp: tl_pos_def tl_inv_def\<close>)

lemma tl_pos_invalid:
  assumes "tl_pos ies t j q" and "j < length ies" and "\<not> q < length (blk (snd (ies ! j)))"
  shows "\<not> iw_valid (tl_data t)" and "iw_valid (tl_index t)" and "q = length (blk (snd (ies ! j)))"
  using assms da.iw_atD(1,7) [of "blk (snd (ies ! j))" "tl_data t" q] ix.iw_atD(1) [of ies "tl_index t" j]
  by (auto simp: tl_pos_def tl_inv_def)

text \<open>The index moves to block \<open>j'\<close> and the block iterator goes to an end of the new block.\<close>

lemma move_block:
  assumes "tl_inv ies t j" and "ix.iw_at ies w j'"
    and "\<And>es w p. da.iw_at es w p \<Longrightarrow> \<exists>w'. f w = Some w' \<and> da.iw_at es w' (g es)"
  shows "\<exists>t'. on_data f (InitDataBlock I D block_function (t\<lparr>tl_index := w\<rparr>)) = Some t' \<and>
    tl_pos ies t' j' (if j' < length ies then g (blk (snd (ies ! j'))) else 0)"
proof -
  have "tl_inv ies (t\<lparr>tl_index := w\<rparr>) j'" using assms(1,2) by (auto simp: tl_inv_def)
  then obtain q' where "tl_pos ies (InitDataBlock I D block_function (t\<lparr>tl_index := w\<rparr>)) j' q'" using InitDataBlock_inv by blast
  then show ?thesis using on_data_pos assms(3) by blast
qed

lemma SkipForward_at:
  assumes "tl_pos ies t j q"
  shows "\<exists>t'. SkipEmptyDataBlocksForward I D block_function t = Some t' \<and> tl_at (concat (blocks ies)) t' (pos (blocks ies) j q)"
  using assms
proof (induction "length ies - j" arbitrary: t j q rule: less_induct)
  case less
  note u = SkipEmptyDataBlocksForward.simps [of I D block_function t]
  show ?case
  proof (cases "j < length ies")
    case False
    note e = tl_pos_end [OF less.prems False]
    have "q = 0" using less.prems False by (simp add: tl_pos_def)
    then show ?thesis using e u pos_end [of "blocks ies" j] False by simp
  next
    case True
    show ?thesis
    proof (cases "q < length (blk (snd (ies ! j)))")
      case q: True
      show ?thesis using tl_pos_valid [OF less.prems True q] u by (simp del: not_None_eq)
    next
      case q: False
      note i = tl_pos_invalid [OF less.prems True q]
      have ixa: "ix.iw_at ies (tl_index t) j" and tl: "tl_inv ies t j" using less.prems by (simp_all add: tl_pos_def tl_inv_def)
      obtain w where w: "IW_Next I (tl_index t) = Some w" "ix.iw_at ies w (j + 1)" using ix.IW_ops_at(4) [OF ixa True] by blast
      obtain t' where t': "on_data (IW_SeekToFirst D) (InitDataBlock I D block_function (t\<lparr>tl_index := w\<rparr>)) = Some t'"
        "tl_pos ies t' (j + 1) 0"
        using move_block [OF tl w(2), of "IW_SeekToFirst D" "\<lambda>_. 0"] da.IW_ops_at(1) by (auto split: if_splits)
      obtain t'' where t'': "SkipEmptyDataBlocksForward I D block_function t' = Some t''"
        "tl_at (concat (blocks ies)) t'' (pos (blocks ies) (j + 1) 0)"
        using less.hyps [OF diff_less_mono2 [OF _ True] t'(2)] by auto
      have "pos (blocks ies) (j + 1) 0 = pos (blocks ies) j q" using pos_Suc [of j "blocks ies"] True i(3) by simp
      then show ?thesis using t'' u i w(1) t'(1) by simp
    qed
  qed
qed

text \<open>Backwards, a block iterator that is not valid stands before its block.\<close>

definition before :: "(bytes \<times> bytes) list \<Rightarrow> nat \<Rightarrow> nat" where
  "before ies j = (if pos (blocks ies) j 0 = 0 \<or> length ies \<le> j then length (concat (blocks ies)) else pos (blocks ies) j 0 - 1)"

lemma SkipBackward_at:
  assumes "tl_pos ies t j q"
  shows "\<exists>t'. SkipEmptyDataBlocksBackward I D block_function t = Some t' \<and> tl_at (concat (blocks ies)) t'
    (if j < length ies \<and> q < length (blk (snd (ies ! j))) then pos (blocks ies) j q else before ies j)"
  using assms
proof (induction "if j < length ies then Suc j else 0" arbitrary: t j q rule: less_induct)
  case less
  note u = SkipEmptyDataBlocksBackward.simps [of I D block_function t]
  show ?case
  proof (cases "j < length ies")
    case False
    note e = tl_pos_end [OF less.prems False]
    then show ?thesis using u False by (simp add: before_def)
  next
    case True
    show ?thesis
    proof (cases "q < length (blk (snd (ies ! j)))")
      case q: True
      show ?thesis using tl_pos_valid [OF less.prems True q] u True q by (simp del: not_None_eq)
    next
      case q: False
      note i = tl_pos_invalid [OF less.prems True q]
      let ?j = "if j = 0 then length ies else j - 1"
      have ixa: "ix.iw_at ies (tl_index t) j" and tl: "tl_inv ies t j" using less.prems by (simp_all add: tl_pos_def tl_inv_def)
      obtain w where w: "IW_Prev I (tl_index t) = Some w" "ix.iw_at ies w ?j" using ix.IW_ops_at(5) [OF ixa True] by blast
      let ?q = "if ?j < length ies then length (blk (snd (ies ! ?j))) - 1 else 0"
      obtain t' where t': "on_data (IW_SeekToLast D) (InitDataBlock I D block_function (t\<lparr>tl_index := w\<rparr>)) = Some t'"
        "tl_pos ies t' ?j ?q"
        using move_block [OF tl w(2), of "IW_SeekToLast D" "\<lambda>es. length es - 1"] da.IW_ops_at(2) by blast
      have m: "(if ?j < length ies then Suc ?j else 0) < (if j < length ies then Suc j else 0)" using True by auto
      obtain t'' where t'': "SkipEmptyDataBlocksBackward I D block_function t' = Some t''"
        "tl_at (concat (blocks ies)) t'' (if ?j < length ies \<and> ?q < length (blk (snd (ies ! ?j))) then pos (blocks ies) ?j ?q else before ies ?j)"
        using less.hyps [OF m t'(2)] by blast
      have "(if ?j < length ies \<and> ?q < length (blk (snd (ies ! ?j))) then pos (blocks ies) ?j ?q else before ies ?j) = before ies j"
      proof (cases j)
        case 0
        then show ?thesis by (simp add: before_def)
      next
        case (Suc n)
        then have "pos (blocks ies) j 0 = pos (blocks ies) n 0 + length (blk (snd (ies ! n)))"
          using pos_Suc [of n "blocks ies"] pos_add [of "blocks ies" n "length (blk (snd (ies ! n)))"] True by simp
        then show ?thesis using Suc True pos_add [of "blocks ies" n "length (blk (snd (ies ! n))) - 1"]
          by (auto simp: before_def)
      qed
      then show ?thesis using t'' u i w(1) t'(1) q by simp
    qed
  qed
qed

lemma below_blocks:
  fixes k
  assumes "tl_layout ies" and "sorted_wrt (\<lambda>a b. Compare (fst a) (fst b) < 0) ies"
  defines "J \<equiv> below Compare k ies"
  shows "below Compare k (concat (blocks ies)) =
    pos (blocks ies) J (if J < length ies then below Compare k (blk (snd (ies ! J))) else 0)"
proof -
  have lo: "\<forall>e \<in> set (concat (take J (blocks ies))). Compare (fst e) k < 0"
  proof
    fix e assume "e \<in> set (concat (take J (blocks ies)))"
    then obtain b where b: "b \<in> set (take J (blocks ies))" "e \<in> set b" by auto
    then obtain j where j: "j < J" "j < length ies" "b = blk (snd (ies ! j))" by (auto simp: in_set_conv_nth)
    have "Compare (fst e) (fst (ies ! j)) \<le> 0" using layoutD(1) [OF assms(1) j(2)] j(3) b(2) by simp
    moreover have "Compare (fst (ies ! j)) k < 0" using j(1) below_nth by (simp add: J_def)
    ultimately show "Compare (fst e) k < 0" by (rule Compare_le_less_trans)
  qed
  show ?thesis
  proof (cases "J < length ies")
    case False
    then have "take J (blocks ies) = blocks ies" by simp
    then show ?thesis using below_append(1) [where cmp = Compare and k = k, OF lo, of "[]"] False by (simp add: pos_def below_def)
  next
    case True
    have hi: "\<forall>e \<in> set (concat (drop (Suc J) (blocks ies))). \<not> Compare (fst e) k < 0"
    proof
      fix e assume "e \<in> set (concat (drop (Suc J) (blocks ies)))"
      then obtain b where b: "b \<in> set (drop (Suc J) (blocks ies))" "e \<in> set b" by auto
      then obtain i where i: "i < length (drop (Suc J) (blocks ies))" "b = drop (Suc J) (blocks ies) ! i"
        unfolding in_set_conv_nth by blast
      then have "b = blk (snd (ies ! (Suc J + i)))" "Suc J + i < length ies" by simp_all
      then have "Compare (fst (ies ! J)) (fst e) < 0" using layoutD(2) [OF assms(1), of J "Suc J + i" e] b(2) by simp
      moreover have "\<not> Compare (fst (ies ! J)) k < 0" using below_nth_not True by (simp add: J_def)
      ultimately show "\<not> Compare (fst e) k < 0" using Compare_less_trans by blast
    qed
    have "concat (blocks ies) = concat (take J (blocks ies)) @ blk (snd (ies ! J)) @ concat (drop (Suc J) (blocks ies))"
      using concat_split [of J "blocks ies"] True by simp
    then show ?thesis using below_append(1) [where cmp = Compare and k = k, OF lo] below_append(2) [where cmp = Compare and k = k, OF hi] True
      by (simp add: pos_def)
  qed
qed

lemma concat_sorted:
  assumes "tl_layout ies"
  shows "sorted_wrt (\<lambda>a b. Compare (fst a) (fst b) < 0) (concat (blocks ies))"
proof -
  have srt: "sorted_wrt (\<lambda>a b. Compare (fst a) (fst b) < 0) (blk (snd (ies ! j)))" if "j < length ies" for j
    using assms that da.at_sorted unfolding tl_layout_def by (meson nth_mem)
  have "Compare (fst (concat (blocks ies) ! p)) (fst (concat (blocks ies) ! p')) < 0"
    if "p < p'" "p' < length (concat (blocks ies))" for p p'
  proof -
    have "p < length (concat (blocks ies))" using that by simp
    then obtain j q where j: "j < length (blocks ies)" "q < length (blocks ies ! j)" "p = pos (blocks ies) j q"
      by (rule nth_concat_pos)
    from that(2) obtain j' q' where j': "j' < length (blocks ies)" "q' < length (blocks ies ! j')" "p' = pos (blocks ies) j' q'"
      by (rule nth_concat_pos)
    have e: "concat (blocks ies) ! p = blk (snd (ies ! j)) ! q" "concat (blocks ies) ! p' = blk (snd (ies ! j')) ! q'"
      using pos_nth(1) [OF j(1,2)] pos_nth(1) [OF j'(1,2)] j j' by simp_all
    consider "j < j'" | "j = j'" | "j' < j" by linarith
    then show ?thesis
    proof cases
      case 1
      have "Compare (fst (blk (snd (ies ! j)) ! q)) (fst (ies ! j)) \<le> 0" "Compare (fst (ies ! j)) (fst (blk (snd (ies ! j')) ! q')) < 0"
        using layoutD(1) [OF assms, of j] layoutD(2) [OF assms 1] j j' by simp_all
      then show ?thesis unfolding e by (rule Compare_le_less_trans)
    next
      case 2
      then have "q < q'" using that(1) j(3) j'(3) by (simp add: pos_def)
      then show ?thesis using srt [of j] 2 j j' unfolding e by (simp add: sorted_wrt_iff_nth_less)
    next
      case 3
      have "pos (blocks ies) (Suc j') 0 \<le> pos (blocks ies) j 0"
        using 3 by (simp add: pos_def) (metis (no_types, lifting) Suc_leI concat_append length_append le_add1 take_add le_Suc_ex)
      then have "p' < p"
        using j(3) j'(2,3) pos_Suc [OF j'(1)] pos_add [of "blocks ies" j q] pos_add [of "blocks ies" j' q']
          pos_add [of "blocks ies" j' "length (blocks ies ! j')"] by linarith
      then show ?thesis using that(1) by simp
    qed
  qed
  then show ?thesis by (simp add: sorted_wrt_iff_nth_less)
qed

lemma tl_at_cases:
  assumes "tl_at es t p"
  obtains ies j q where "es = concat (blocks ies)" "tl_pos ies t j q" "j < length ies" "q < length (blk (snd (ies ! j)))"
      "p = pos (blocks ies) j q" "tl_inv ies t j"
  | ies j where "es = concat (blocks ies)" "tl_inv ies t j" "iw_iter (tl_data t) = None" "p = length es"
  using assms unfolding tl_at_def tl_pos_def by metis

lemma tl_at_inv:
  assumes "tl_at es t p"
  obtains ies j where "es = concat (blocks ies)" "tl_inv ies t j" "tl_layout ies" "ix.iw_at ies (tl_index t) j"
  using assms unfolding tl_at_def tl_inv_def by blast

lemma two_level_seeks:
  assumes "tl_at es t p"
  shows "\<exists>t'. TL_SeekToFirst I D block_function t = Some t' \<and> tl_at es t' 0"
    and "\<exists>t'. TL_SeekToLast I D block_function t = Some t' \<and> tl_at es t' (length es - 1)"
    and "seekable k \<Longrightarrow> \<exists>t'. TL_Seek I D block_function k t = Some t' \<and> tl_at es t' (below Compare k es)"
proof -
  obtain ies j where i: "es = concat (blocks ies)" "tl_inv ies t j" "tl_layout ies" "ix.iw_at ies (tl_index t) j"
    using tl_at_inv [OF assms] by blast
  note ops = ix.IW_ops_at [OF i(4)]
  show "\<exists>t'. TL_SeekToFirst I D block_function t = Some t' \<and> tl_at es t' 0"
  proof -
    obtain w where w: "IW_SeekToFirst I (tl_index t) = Some w" "ix.iw_at ies w 0" using ops(1) by blast
    obtain t' where t': "on_data (IW_SeekToFirst D) (InitDataBlock I D block_function (t\<lparr>tl_index := w\<rparr>)) = Some t'"
      "tl_pos ies t' 0 0"
      using move_block [OF i(2) w(2), of "IW_SeekToFirst D" "\<lambda>_. 0"] da.IW_ops_at(1) by (auto split: if_splits)
    show ?thesis using SkipForward_at [OF t'(2)] w(1) t'(1) i(1) by (auto simp: TL_SeekToFirst_def)
  qed
  show "\<exists>t'. TL_SeekToLast I D block_function t = Some t' \<and> tl_at es t' (length es - 1)"
  proof -
    obtain w where w: "IW_SeekToLast I (tl_index t) = Some w" "ix.iw_at ies w (length ies - 1)" using ops(2) by blast
    let ?j = "length ies - 1"
    let ?q = "if ?j < length ies then length (blk (snd (ies ! ?j))) - 1 else 0"
    obtain t' where t': "on_data (IW_SeekToLast D) (InitDataBlock I D block_function (t\<lparr>tl_index := w\<rparr>)) = Some t'"
      "tl_pos ies t' ?j ?q"
      using move_block [OF i(2) w(2), of "IW_SeekToLast D" "\<lambda>es. length es - 1"] da.IW_ops_at(2) by blast
    have "(if ?j < length ies \<and> ?q < length (blk (snd (ies ! ?j))) then pos (blocks ies) ?j ?q else before ies ?j) = length es - 1"
    proof (cases "ies = []")
      case False
      then have "length es = pos (blocks ies) ?j (length (blk (snd (ies ! ?j))))"
        using pos_Suc [of ?j "blocks ies"] pos_end [of "blocks ies" "length ies"] i(1) by simp
      then show ?thesis
        using False i(1) pos_add [of "blocks ies" ?j "length (blk (snd (ies ! ?j)))"]
          pos_add [of "blocks ies" ?j "length (blk (snd (ies ! ?j))) - 1"]
        by (cases "blk (snd (ies ! ?j))") (auto simp: before_def)
    qed (simp add: before_def i(1))
    then show ?thesis using SkipBackward_at [OF t'(2)] w(1) t'(1) i(1) by (auto simp: TL_SeekToLast_def)
  qed
  show "\<exists>t'. TL_Seek I D block_function k t = Some t' \<and> tl_at es t' (below Compare k es)" if k: "seekable k"
  proof -
    let ?j = "below Compare k ies"
    obtain w where w: "IW_Seek I k (tl_index t) = Some w" "ix.iw_at ies w ?j" using ops(3) [OF k] by blast
    obtain t' where t': "on_data (IW_Seek D k) (InitDataBlock I D block_function (t\<lparr>tl_index := w\<rparr>)) = Some t'"
      "tl_pos ies t' ?j (if ?j < length ies then below Compare k (blk (snd (ies ! ?j))) else 0)"
      using move_block [OF i(2) w(2), of "IW_Seek D k" "below Compare k"] da.IW_ops_at(3) [OF _ k] by blast
    show ?thesis
      using SkipForward_at [OF t'(2)] w(1) t'(1) below_blocks [OF i(3) ix.iw_atD(6) [OF i(4)], of k] i(1)
      by (auto simp: TL_Seek_def)
  qed
qed

lemma two_level_steps:
  assumes "tl_at es t p" and "p < length es"
  shows "\<exists>t'. TL_Next I D block_function t = Some t' \<and> tl_at es t' (p + 1)"
    and "\<exists>t'. TL_Prev I D block_function t = Some t' \<and> tl_at es t' (if p = 0 then length es else p - 1)"
proof -
  obtain ies j q where i: "es = concat (blocks ies)" "tl_pos ies t j q" "j < length ies" "q < length (blk (snd (ies ! j)))"
    "p = pos (blocks ies) j q" "tl_inv ies t j"
    using tl_at_cases [OF assms(1)] assms(2) by (metis less_irrefl)
  have h: "tl_handle t = snd (ies ! j)" "da.iw_at (blk (snd (ies ! j))) (tl_data t) q" using i(2,3) by (auto simp: tl_pos_def)
  have upd: "tl_pos ies (t\<lparr>tl_data := w\<rparr>) j q'" if "da.iw_at (blk (snd (ies ! j))) w q'" for w q'
    using that i(2,3) h(1) da.iw_atD(5) [OF that] by (auto simp: tl_pos_def tl_inv_def)
  show "\<exists>t'. TL_Next I D block_function t = Some t' \<and> tl_at es t' (p + 1)"
  proof -
    obtain w where w: "IW_Next D (tl_data t) = Some w" "da.iw_at (blk (snd (ies ! j))) w (q + 1)"
      using da.IW_ops_at(4) [OF h(2) i(4)] by blast
    show ?thesis using SkipForward_at [OF upd [OF w(2)]] w(1) i(1,5) by (auto simp: TL_Next_def pos_def)
  qed
  show "\<exists>t'. TL_Prev I D block_function t = Some t' \<and> tl_at es t' (if p = 0 then length es else p - 1)"
  proof -
    let ?q = "if q = 0 then length (blk (snd (ies ! j))) else q - 1"
    obtain w where w: "IW_Prev D (tl_data t) = Some w" "da.iw_at (blk (snd (ies ! j))) w ?q"
      using da.IW_ops_at(5) [OF h(2) i(4)] by blast
    have "(if j < length ies \<and> ?q < length (blk (snd (ies ! j))) then pos (blocks ies) j ?q else before ies j) =
        (if p = 0 then length es else p - 1)"
      using i pos_add [of "blocks ies" j q] pos_add [of "blocks ies" j "q - 1"] by (auto simp: before_def)
    then show ?thesis using SkipBackward_at [OF upd [OF w(2)]] w(1) i(1) by (auto simp: TL_Prev_def)
  qed
qed

lemma two_level_reads:
  assumes "tl_at es t p"
  shows "p \<le> length es \<and> (iw_valid (tl_data t) \<longleftrightarrow> p < length es) \<and> TL_Status I D t = OK \<and>
    (p < length es \<longrightarrow> iw_key (tl_data t) = fst (es ! p) \<and> IW_value D (tl_data t) = snd (es ! p))"
  using assms
proof (cases rule: tl_at_cases)
  case (1 ies j q)
  have h: "da.iw_at (blk (snd (ies ! j))) (tl_data t) q" "tl_status t = OK" "ix.iw_at ies (tl_index t) j"
    using 1(2,3,6) by (auto simp: tl_pos_def tl_inv_def)
  note d = da.iw_atD [OF h(1)]
  have "p < length es" "es ! p = blk (snd (ies ! j)) ! q"
    using pos_nth [of j "blocks ies" q] 1 by simp_all
  then show ?thesis using d 1(4) h(2) ix.iw_atD(4) [OF h(3)] by (simp add: TL_Status_def)
next
  case (2 ies j)
  then show ?thesis using ix.iw_atD(4) by (auto simp: tl_inv_def TL_Status_def)
qed

lemma two_level_contract: "iterator (two_level_iterator I D block_function) Compare seekable tl_at"
proof (unfold_locales, goal_cases)
  case (1 es s p)
  then show ?case using concat_sorted tl_at_inv by metis
next
  case (2 es s p e)
  then obtain ies j where i: "es = concat (blocks ies)" "tl_layout ies" using tl_at_inv by metis
  then obtain x where "x \<in> set ies" "e \<in> set (blk (snd x))" using 2(2) by auto
  then show ?case using i(2) da.at_seekable unfolding tl_layout_def by blast
qed (use two_level_reads two_level_seeks two_level_steps in \<open>simp_all add: two_level_iterator_def\<close>)

lemma mk_TwoLevelIterator_at:
  assumes "tl_layout ies" and "atI ies index_iter p"
  shows "tl_at (concat (blocks ies)) (mk_TwoLevelIterator I D index_iter) (length (concat (blocks ies)))"
  using assms ix.mk_IteratorWrapper_at [OF assms(2)]
  by (auto simp: tl_at_def tl_inv_def mk_TwoLevelIterator_def mk_IteratorWrapper_def IW_Set_def)

end

interpretation tbl: two_level "InternalKey_Compare Slice_compare" key_fits
  "block_iterator (InternalKey_Compare Slice_compare)" "abi_at (InternalKey_Compare Slice_compare) key_fits"
  "block_iterator (InternalKey_Compare Slice_compare)" "abi_at (InternalKey_Compare Slice_compare) key_fits"
  block_function blk for block_function blk
  by unfold_locales

section \<open>Iterating over a table\<close>

definition Table_NewIterator ::
    "(bytes \<Rightarrow> AnyBlockIter) \<Rightarrow> Table \<Rightarrow> (AnyBlockIter, AnyBlockIter) TwoLevelIterator Iterator \<times> (AnyBlockIter, AnyBlockIter) TwoLevelIterator" where
  "Table_NewIterator block_function t =
    (let B = block_iterator (cm_Compare (opt_comparator (t_options t)))
     in (two_level_iterator B B block_function, mk_TwoLevelIterator B B (Block_NewIterator (t_index_block t))))"

lemma handle_inj:
  assumes "table_of snappy opt bss keys t" and "i < length bss" and "j < length bss"
    and "BH_EncodeTo (block_handle snappy opt bss i) [] = BH_EncodeTo (block_handle snappy opt bss j) []"
  shows "i = j"
proof -
  have "block_handle snappy opt bss i = block_handle snappy opt bss j"
    using BH_roundtrip [of "block_handle snappy opt bss i" "[]"] BH_roundtrip [of "block_handle snappy opt bss j" "[]"] assms(4) by simp
  then show ?thesis using block_cache_key_inj [OF assms(1-3)] by simp
qed

lemma shortened_fits:
  assumes "key_fits s"
  shows "key_fits (InternalKey_FindShortestSeparator ucmp usep s l)" and "key_fits (InternalKey_FindShortSuccessor ucmp usucc s)"
  using assms shortened_length(1) [of ucmp usep s l] shortened_length(2) [of ucmp usucc s]
  by (auto simp: key_fits_def InternalKey_FindShortestSeparator_def InternalKey_FindShortSuccessor_def Let_def PutFixed64_def)

lemma Table_NewIterator_at:
  assumes t: "table_of snappy opt bss keys t" and tb: "table_blocks opt bss keys"
    and cm: "opt_comparator opt = InternalKeyComparator adr (BytewiseComparator adr')"
    and I: "1 \<le> opt_block_restart_interval opt" and size: "entries_size (concat bss) < 2 ^ 32 - 1"
    and srt: "sorted_wrt (\<lambda>a b. InternalKey_Compare Slice_compare (fst a) (fst b) < 0) (concat bss)"
    and fits: "\<forall>e \<in> set (concat bss). key_fits (fst e)"
    and bf: "\<And>i. i < length bss \<Longrightarrow> block_function (BH_EncodeTo (block_handle snappy opt bss i) []) =
      Block_NewIterator (mk_Block (data_raw opt (bss ! i)))"
  shows "\<exists>blk. fst (Table_NewIterator block_function t) = two_level_iterator
      (block_iterator (InternalKey_Compare Slice_compare)) (block_iterator (InternalKey_Compare Slice_compare)) block_function \<and>
    tbl.tl_at block_function blk (concat bss) (snd (Table_NewIterator block_function t)) (length (concat bss))"
proof -
  let ?cmp = "InternalKey_Compare Slice_compare"
  let ?ies = "index_entries snappy opt bss keys" and ?h = "\<lambda>i. BH_EncodeTo (block_handle snappy opt bss i) []"
  define blk where "blk h = the (map_of (zip (map ?h [0..<length bss]) bss) h)" for h
  have cms: "cm_Compare (opt_comparator opt) = ?cmp"
    "cm_FindShortestSeparator (opt_comparator opt) = InternalKey_FindShortestSeparator Slice_compare bytewise_FindShortestSeparator"
    "cm_FindShortSuccessor (opt_comparator opt) = InternalKey_FindShortSuccessor Slice_compare bytewise_FindShortSuccessor"
    by (simp_all add: cm InternalKeyComparator_def BytewiseComparator_def)
  have len: "length keys = length bss" "length ?ies = length bss" using tb by (simp_all add: table_blocks_def index_entries_def)
  have ies: "?ies ! i = (keys ! i, ?h i)" if "i < length bss" for i using that len by (simp add: index_entries_def)
  have "distinct (map ?h [0..<length bss])"
    using handle_inj [OF t] by (auto simp: distinct_map inj_on_def)
  then have blk: "blk (?h i) = bss ! i" if "i < length bss" for i
    using map_of_zip_nth [of "map ?h [0..<length bss]" bss i] that by (simp add: blk_def)
  note ord = ikey.internal.table_blocks_order [OF tb srt cms(2,3)]
  have ne: "bss ! i \<noteq> []" if "i < length bss" for i using tb that unfolding table_blocks_def by (metis nth_mem)
  have fit: "key_fits (fst e)" if "e \<in> set (bss ! i)" "i < length bss" for e i using fits that nth_mem [of i bss] by fastforce
  have kfit: "key_fits (keys ! i)" if "i < length bss" for i
    using tb that shortened_fits [OF fit [OF last_in_set [OF ne [OF that]] that]] by (simp add: table_blocks_def cms)
  have blocks: "map (\<lambda>e. blk (snd e)) ?ies = bss" by (rule nth_equalityI) (simp_all add: len ies blk)
  have dat: "abi_at ?cmp key_fits (bss ! i) (block_function (?h i)) (length (bss ! i))" if i: "i < length bss" for i
  proof -
    have "length (block_of (opt_block_restart_interval opt) (bss ! i)) < 2 ^ 32"
      using data_raw_length [OF I i] size by (simp add: data_raw_def)
    then show ?thesis
      using ikey.internal.block_of_abi_at [OF I _ sorted_wrt_concat(1) [OF srt i]] fit i bf [OF i] by (simp add: data_raw_def)
  qed
  have lay: "tbl.tl_layout block_function blk ?ies"
    unfolding tbl.tl_layout_def
  proof (intro conjI ballI allI impI)
    fix e assume "e \<in> set ?ies"
    then obtain i where "i < length bss" "e = ?ies ! i" using len by (metis in_set_conv_nth)
    then show "\<exists>p. abi_at ?cmp key_fits (blk (snd e)) (block_function (snd e)) p" using dat [of i] ies blk by auto
  next
    fix j e assume "j < length ?ies" "e \<in> set (blk (snd (?ies ! j)))"
    then show "?cmp (fst e) (fst (?ies ! j)) \<le> 0" using ord(1) [of j e] ies blk len by simp
  next
    fix j j' e assume "j < j' \<and> j' < length ?ies" "e \<in> set (blk (snd (?ies ! j')))"
    then show "?cmp (fst (?ies ! j)) (fst e) < 0" using ord(2) [of j j' e] ies blk len by simp
  qed
  have mi: "map fst ?ies = keys" using len map_nth [of keys] by (simp add: index_entries_def comp_def)
  have sidx: "sorted_wrt (\<lambda>a b. ?cmp (fst a) (fst b) < 0) ?ies"
    using ord(3) sorted_wrt_map [of "\<lambda>a b. ?cmp a b < 0" fst ?ies] mi by simp
  have "\<forall>e \<in> set ?ies. key_fits (fst e)" using kfit ies len by (metis fst_conv in_set_conv_nth)
  moreover have "length (block_of 1 ?ies) < 2 ^ 32" using index_raw_length [OF tb cm, of snappy] size by (simp add: index_raw_def)
  ultimately have "abi_at ?cmp key_fits ?ies (Block_NewIterator (t_index_block t)) (length ?ies)"
    using ikey.internal.block_of_abi_at [OF _ _ sidx, of 1 key_fits] t by (simp add: table_of_def index_raw_def)
  from tbl.mk_TwoLevelIterator_at [OF lay this]
  have "tbl.tl_at block_function blk (concat bss) (snd (Table_NewIterator block_function t)) (length (concat bss))"
    using t cms(1) blocks by (simp add: Table_NewIterator_def table_of_def Let_def)
  moreover have "fst (Table_NewIterator block_function t) = two_level_iterator (block_iterator ?cmp) (block_iterator ?cmp) block_function"
    using t cms(1) by (simp add: Table_NewIterator_def table_of_def Let_def)
  ultimately show ?thesis by blast
qed

section \<open>Properties\<close>

text \<open>C4: iterating over a table.  For a table that was built from sorted entries and opened, every
  operation of the iterator of \<open>NewIterator\<close> returns, although the loops that skip empty blocks
  have no bound: the walk from the first position gives the entries that were added, the walk back from the last position
  gives them in reverse, and the walk after \<open>Seek\<close> gives those at or after the target.  Each block is
  read through the block cache in whatever state earlier lookups have left it.\<close>

theorem table_iteration:
  assumes "snappy_ok snappy" and "1 \<le> opt_block_restart_interval opt" and "entries_size es < 2 ^ 32 - 1"
    and "opt_comparator opt = InternalKeyComparator adr (BytewiseComparator adr')"
    and "sorted_wrt (\<lambda>a b. InternalKey_Compare Slice_compare (fst a) (fst b) < 0) es" and "\<forall>e \<in> set es. key_fits (fst e)"
    and "TB_Finish mem_WritableFile snappy
      (foldl (\<lambda>r e. TB_Add mem_WritableFile snappy (fst e) (snd e) r) (mk_TableBuilder opt []) es) = (s, r)"
    and "length (tb_file r) < 2 ^ 64"
    and "sc_inv c H" and "\<forall>k. take 8 k = EncodeFixed64 new_id \<longrightarrow> sc_cached c k = None"
    and "Table_Open snappy new_id opt (mem_Read scr (tb_file r)) (TB_FileSize r) = Inr t"
    and "Table_NewIterator (\<lambda>handle. fst (BlockReader snappy sharded_cache options t handle
        (snd (table_gets snappy sharded_cache options t (ks handle) c)))) t = (I, i)"
    and "key_fits k" and "length es + 1 < n"
  shows "do { i \<leftarrow> it_SeekToFirst I i; it_walk n I i } = Some es \<and>
    do { i \<leftarrow> it_SeekToLast I i; it_walk_back n I i } = Some (rev es) \<and>
    do { i \<leftarrow> it_Seek I k i; it_walk n I i } = Some (drop (below (InternalKey_Compare Slice_compare) k es) es)"
proof -
  let ?cmp = "InternalKey_Compare Slice_compare"
  let ?bf = "\<lambda>handle. fst (BlockReader snappy sharded_cache options t handle (snd (table_gets snappy sharded_cache options t (ks handle) c)))"
  obtain bss keys mid m where b: "s = OK" "concat bss = es" "table_blocks opt bss keys"
    "tb_file r = table_bytes snappy opt bss keys mid m" "tb_offset r = of_nat (length (tb_file r))"
    using memout.TB_build [OF _ assms(2), of "[]" snappy es] assms(7) by auto
  have "length (index_raw snappy opt bss keys) < 2 ^ 32 - 1"
    using index_raw_length [OF b(3) assms(4)] assms(3) b(2) by (metis le_less_trans)
  then have t: "table_of snappy opt bss keys t" "opt_block_cache opt \<noteq> None \<longrightarrow> t_cache_id t = new_id"
    using Table_Open_ok [OF assms(1) b(4) assms(8), of new_id scr] assms(11) b(5) by (auto simp: TB_FileSize_def)
  have coh: "coherent sc_cached c snappy opt bss t"
    using assms(10) t(2) by (auto simp: coherent_def block_cache_key_def)
  have bf: "?bf (BH_EncodeTo (block_handle snappy opt bss i) []) = Block_NewIterator (mk_Block (data_raw opt (bss ! i)))"
    if i: "i < length bss" for i
  proof -
    let ?ks = "ks (BH_EncodeTo (block_handle snappy opt bss i) [])"
    obtain rs c' where c': "table_gets snappy sharded_cache options t ?ks c = (rs, c')" "sc_inv c' H" "coherent sc_cached c' snappy opt bss t"
      using table_gets_found [OF assms(1) t(1) b(3) assms(4,2) _ _ assms(9) coh, of options ?ks] assms(3,5) unfolding b(2) by blast
    have "length (data_raw opt (bss ! i)) < 2 ^ 32 - 1"
      using data_raw_length [OF assms(2) i] assms(3) b(2) by (metis le_less_trans)
    then show ?thesis using reader.BlockReader_ok [OF assms(1) t(1) i _ c'(2,3), of options] c'(1) by auto
  qed
  have size: "entries_size (concat bss) < 2 ^ 32 - 1" and fits: "\<forall>e \<in> set (concat bss). key_fits (fst e)"
    and srt: "sorted_wrt (\<lambda>a b. ?cmp (fst a) (fst b) < 0) (concat bss)" using assms(3,5,6) b(2) by simp_all
  obtain blk where "fst (Table_NewIterator ?bf t) = two_level_iterator (block_iterator ?cmp) (block_iterator ?cmp) ?bf"
    "tbl.tl_at ?bf blk (concat bss) (snd (Table_NewIterator ?bf t)) (length (concat bss))"
    using Table_NewIterator_at [where block_function = ?bf, OF t(1) b(3) assms(4,2) size srt fits bf] by blast
  then have I: "I = two_level_iterator (block_iterator ?cmp) (block_iterator ?cmp) ?bf" "tbl.tl_at ?bf blk es i (length es)"
    unfolding assms(12) b(2) by simp_all
  note w = iterator.it_walks [OF tbl.two_level_contract [of ?bf blk], of es i "length es" n, OF I(2) assms(14)]
  show ?thesis unfolding I(1) by (intro conjI w(1,2) w(3) [OF assms(13)])
qed

theorem table_iteration_witness:
  "\<exists>s r t I i. TB_Finish mem_WritableFile no_snappy
      (foldl (\<lambda>r e. TB_Add mem_WritableFile no_snappy (fst e) (snd e) r) (mk_TableBuilder small_options []) two_entries) = (s, r) \<and>
    Table_Open no_snappy 1 small_options (mem_Read True (tb_file r)) (TB_FileSize r) = Inr t \<and>
    Table_NewIterator (\<lambda>handle. fst (BlockReader no_snappy sharded_cache mk_ReadOptions t handle (mk_ShardedLRUCache 100))) t = (I, i) \<and>
    do { i \<leftarrow> it_SeekToLast I i; it_walk_back 4 I i } = Some (rev two_entries)"
proof -
  let ?f = "TB_Finish mem_WritableFile no_snappy
      (foldl (\<lambda>r e. TB_Add mem_WritableFile no_snappy (fst e) (snd e) r) (mk_TableBuilder small_options []) two_entries)"
  have srt: "sorted_wrt (\<lambda>a b. InternalKey_Compare Slice_compare (fst a) (fst b) < 0) two_entries" by code_simp
  have cm: "opt_comparator small_options = InternalKeyComparator 1 (BytewiseComparator 2)"
    "1 \<le> opt_block_restart_interval small_options" by (simp_all add: small_options_def mk_Options_def)
  have ok: "snappy_ok no_snappy" "entries_size two_entries < 2 ^ 32 - 1" "\<forall>e \<in> set two_entries. key_fits (fst e)"
    "key_fits [2, 1, 5, 0, 0, 0, 0, 0, 0]" "length two_entries + 1 < 4"
    by (simp_all add: snappy_ok_def no_snappy_def entries_size_def two_entries_def key_fits_def)
  obtain s r where f: "?f = (s, r)" by fastforce
  have len: "length (tb_file r) < 2 ^ 64" using two_entries_file f by simp
  have none: "\<forall>k. take 8 k = EncodeFixed64 1 \<longrightarrow> sc_cached (mk_ShardedLRUCache 100 :: Block ShardedLRUCache) k = None"
    using sc_cached_new by blast
  obtain bss keys mid m where b: "concat bss = two_entries" "table_blocks small_options bss keys"
    "tb_file r = table_bytes no_snappy small_options bss keys mid m" "tb_offset r = of_nat (length (tb_file r))"
    using memout.TB_build [OF _ cm(2), of "[]" no_snappy two_entries] f by auto
  have "length (index_raw no_snappy small_options bss keys) < 2 ^ 32 - 1"
    using index_raw_length [OF b(2) cm(1)] ok(2) b(1) by (metis le_less_trans)
  then obtain t where t: "Table_Open no_snappy 1 small_options (mem_Read True (tb_file r)) (TB_FileSize r) = Inr t"
    using Table_Open_ok [OF ok(1) b(3) len, of 1 True] b(4) by (auto simp: TB_FileSize_def)
  obtain I i where I: "Table_NewIterator (\<lambda>handle. fst (BlockReader no_snappy sharded_cache mk_ReadOptions t handle
      (snd (table_gets no_snappy sharded_cache mk_ReadOptions t ((\<lambda>_. []) handle) (mk_ShardedLRUCache 100))))) t = (I, i)" by fastforce
  from table_iteration [OF ok(1) cm(2) ok(2) cm(1) srt ok(3) f len mk_ShardedLRUCache_inv none t I ok(4,5)]
  show ?thesis using f t I by auto
qed

end
