(* ===== verification/StdHeap.thy ===== *)
theory StdHeap
  imports Main "HOL-Library.Multiset"
begin

text \<open>
  The heap algorithms of the C++ standard library that \<^verbatim>\<open>table/merger.cc\<close> calls:
  \<open>make_heap\<close>, \<open>push_heap\<close> and \<open>pop_heap\<close> with a comparison object \<open>lt\<close>.  The first
  element of a heap is one that no other exceeds.
\<close>

section \<open>Algorithms\<close>

definition parent :: "nat \<Rightarrow> nat" where
  "parent i = (i - 1) div 2"

definition swap :: "nat \<Rightarrow> nat \<Rightarrow> 'a list \<Rightarrow> 'a list" where
  "swap i j xs = xs[i := xs ! j, j := xs ! i]"

definition larger_child :: "('a \<Rightarrow> 'a \<Rightarrow> bool) \<Rightarrow> nat \<Rightarrow> nat \<Rightarrow> 'a list \<Rightarrow> nat" where
  "larger_child lt n i xs = (if 2 * i + 2 < n \<and> lt (xs ! (2 * i + 1)) (xs ! (2 * i + 2)) then 2 * i + 2 else 2 * i + 1)"

function sift_down :: "('a \<Rightarrow> 'a \<Rightarrow> bool) \<Rightarrow> nat \<Rightarrow> nat \<Rightarrow> 'a list \<Rightarrow> 'a list" where
  "sift_down lt n i xs =
    (if 2 * i + 1 < n
     then let c = larger_child lt n i xs in if lt (xs ! i) (xs ! c) then sift_down lt n c (swap i c xs) else xs
     else xs)"
  by pat_completeness auto
termination
  by (relation "measure (\<lambda>(lt, n, i, xs). n - i)") (auto simp: larger_child_def)

declare sift_down.simps [simp del]

function sift_up :: "('a \<Rightarrow> 'a \<Rightarrow> bool) \<Rightarrow> nat \<Rightarrow> 'a list \<Rightarrow> 'a list" where
  "sift_up lt i xs = (if 0 < i \<and> lt (xs ! parent i) (xs ! i) then sift_up lt (parent i) (swap (parent i) i xs) else xs)"
  by pat_completeness auto
termination
  by (relation "measure (\<lambda>(lt, i, xs). i)") (auto simp: parent_def)

declare sift_up.simps [simp del]

definition make_heap :: "('a \<Rightarrow> 'a \<Rightarrow> bool) \<Rightarrow> 'a list \<Rightarrow> 'a list" where
  "make_heap lt xs = foldr (sift_down lt (length xs)) [0..<length xs div 2] xs"

definition push_heap :: "('a \<Rightarrow> 'a \<Rightarrow> bool) \<Rightarrow> 'a list \<Rightarrow> 'a list" where
  "push_heap lt xs = sift_up lt (length xs - 1) xs"

definition pop_heap :: "('a \<Rightarrow> 'a \<Rightarrow> bool) \<Rightarrow> 'a list \<Rightarrow> 'a list" where
  "pop_heap lt xs = sift_down lt (length xs - 1) 0 (swap 0 (length xs - 1) xs)"

section \<open>Contents\<close>

lemma length_swap [simp]: "length (swap i j xs) = length xs"
  by (simp add: swap_def)

lemma swap_nth: "i < length xs \<Longrightarrow> j < length xs \<Longrightarrow> swap i j xs ! k = (if k = j then xs ! i else if k = i then xs ! j else xs ! k)"
  by (auto simp: swap_def nth_list_update)

lemma mset_swap_eq: "i < length xs \<Longrightarrow> j < length xs \<Longrightarrow> mset (swap i j xs) = mset xs"
  unfolding swap_def by (rule mset_swap)

lemma larger_child_bounds:
  assumes "2 * i + 1 < n"
  shows "larger_child lt n i xs < n" and "i < larger_child lt n i xs" and "parent (larger_child lt n i xs) = i"
  using assms by (auto simp: larger_child_def parent_def)

lemma sift_down_mset: "n \<le> length xs \<Longrightarrow> mset (sift_down lt n i xs) = mset xs"
proof (induction lt n i xs rule: sift_down.induct)
  case (1 lt n i xs)
  show ?case
    using 1 larger_child_bounds [of i n lt xs] by (subst sift_down.simps) (auto simp: Let_def mset_swap_eq)
qed

lemma sift_down_length [simp]: "length (sift_down lt n i xs) = length xs"
proof (induction lt n i xs rule: sift_down.induct)
  case (1 lt n i xs)
  then show ?case by (subst sift_down.simps) (auto simp: Let_def)
qed

lemma sift_down_above: "n \<le> length xs \<Longrightarrow> n \<le> k \<Longrightarrow> sift_down lt n i xs ! k = xs ! k"
proof (induction lt n i xs rule: sift_down.induct)
  case (1 lt n i xs)
  show ?case
    using 1 larger_child_bounds [of i n lt xs] by (subst sift_down.simps) (auto simp: Let_def swap_nth)
qed

lemma sift_up_mset: "i < length xs \<Longrightarrow> mset (sift_up lt i xs) = mset xs"
proof (induction lt i xs rule: sift_up.induct)
  case (1 lt i xs)
  have "parent i < length xs" using 1(2) by (auto simp: parent_def)
  then show ?case using 1 by (subst sift_up.simps) (auto simp: mset_swap_eq)
qed

lemma make_heap_mset: "mset (make_heap lt xs) = mset xs" and length_make_heap: "length (make_heap lt xs) = length xs"
proof -
  have "mset (foldr (sift_down lt (length xs)) is xs) = mset xs \<and> length (foldr (sift_down lt (length xs)) is xs) = length xs" for "is"
    by (induction "is") (simp_all add: sift_down_mset)
  then show "mset (make_heap lt xs) = mset xs" "length (make_heap lt xs) = length xs" by (simp_all add: make_heap_def)
qed

lemma push_heap_mset: "xs \<noteq> [] \<Longrightarrow> mset (push_heap lt xs) = mset xs"
  by (simp add: push_heap_def sift_up_mset)

lemma pop_heap_mset: "xs \<noteq> [] \<Longrightarrow> mset (pop_heap lt xs) = mset xs"
  by (simp add: pop_heap_def sift_down_mset mset_swap_eq)

lemma pop_heap_last:
  assumes "xs \<noteq> []"
  shows "pop_heap lt xs \<noteq> []" and "last (pop_heap lt xs) = xs ! 0" and "mset (butlast (pop_heap lt xs)) = mset xs - {#xs ! 0#}"
proof -
  show ne: "pop_heap lt xs \<noteq> []" using pop_heap_mset [OF assms, of lt] assms by fastforce
  have "last (pop_heap lt xs) = pop_heap lt xs ! (length xs - 1)"
    using ne by (simp add: last_conv_nth pop_heap_def)
  then show l: "last (pop_heap lt xs) = xs ! 0" using assms by (simp add: pop_heap_def sift_down_above swap_nth)
  have "mset (pop_heap lt xs) = mset (butlast (pop_heap lt xs)) + {#last (pop_heap lt xs)#}"
    using ne by (metis append_butlast_last_id mset_append mset_single_iff_right mset.simps(1) mset.simps(2) add_mset_add_single)
  then show "mset (butlast (pop_heap lt xs)) = mset xs - {#xs ! 0#}" using pop_heap_mset [OF assms, of lt] l by simp
qed

section \<open>Order\<close>

definition heap_from :: "('a \<Rightarrow> 'a \<Rightarrow> bool) \<Rightarrow> nat \<Rightarrow> nat \<Rightarrow> 'a list \<Rightarrow> bool" where
  "heap_from lt lo n xs \<longleftrightarrow> (\<forall>k < n. 0 < k \<and> lo \<le> parent k \<longrightarrow> \<not> lt (xs ! parent k) (xs ! k))"

abbreviation is_heap :: "('a \<Rightarrow> 'a \<Rightarrow> bool) \<Rightarrow> 'a list \<Rightarrow> bool" where
  "is_heap lt xs \<equiv> heap_from lt 0 (length xs) xs"

text \<open>The order may fail only between \<open>i\<close> and its children, which the parent of \<open>i\<close> bounds.\<close>

definition heap_but_down :: "('a \<Rightarrow> 'a \<Rightarrow> bool) \<Rightarrow> nat \<Rightarrow> nat \<Rightarrow> nat \<Rightarrow> 'a list \<Rightarrow> bool" where
  "heap_but_down lt lo n i xs \<longleftrightarrow>
     (\<forall>k < n. 0 < k \<and> lo \<le> parent k \<and> parent k \<noteq> i \<longrightarrow> \<not> lt (xs ! parent k) (xs ! k)) \<and>
     (\<forall>k < n. 0 < k \<and> parent k = i \<and> 0 < i \<and> lo \<le> parent i \<longrightarrow> \<not> lt (xs ! parent i) (xs ! k))"

text \<open>The order may fail only between \<open>i\<close> and its parent, which bounds the children of \<open>i\<close>.\<close>

definition heap_but_up :: "('a \<Rightarrow> 'a \<Rightarrow> bool) \<Rightarrow> nat \<Rightarrow> 'a list \<Rightarrow> bool" where
  "heap_but_up lt i xs \<longleftrightarrow>
     (\<forall>k < length xs. 0 < k \<and> k \<noteq> i \<longrightarrow> \<not> lt (xs ! parent k) (xs ! k)) \<and>
     (\<forall>k < length xs. 0 < k \<and> parent k = i \<and> 0 < i \<longrightarrow> \<not> lt (xs ! parent i) (xs ! k))"

locale weak_order =
  fixes lt :: "'a \<Rightarrow> 'a \<Rightarrow> bool"
  assumes asym: "lt a b \<Longrightarrow> \<not> lt b a"
    and not_lt_trans: "\<not> lt a b \<Longrightarrow> \<not> lt b c \<Longrightarrow> \<not> lt a c"
begin

lemma larger_child_max:
  assumes "2 * i + 1 < n" and "k < n" and "0 < k" and "parent k = i"
  shows "\<not> lt (xs ! larger_child lt n i xs) (xs ! k)"
proof -
  have "k = 2 * i + 1 \<or> k = 2 * i + 2" using assms(3,4) by (auto simp: parent_def)
  then show ?thesis using assms(2) asym by (auto simp: larger_child_def)
qed

lemma sift_down_heap:
  assumes "heap_but_down lt lo n i xs" and "n \<le> length xs" and "lo \<le> i"
  shows "heap_from lt lo n (sift_down lt n i xs)"
  using assms
proof (induction "n - i" arbitrary: i xs rule: less_induct)
  case less
  note B = less.prems(1) [unfolded heap_but_down_def]
  let ?c = "larger_child lt n i xs"
  have here: "\<not> lt (xs ! i) (xs ! k)" if "\<not> lt (xs ! i) (xs ! ?c)" "k < n" "0 < k" "parent k = i" for k
  proof -
    have "2 * i + 1 < n" using that(2-4) by (auto simp: parent_def)
    then show ?thesis using not_lt_trans that larger_child_max by blast
  qed
  show ?case
  proof (cases "2 * i + 1 < n \<and> lt (xs ! i) (xs ! ?c)")
    case False
    then have "sift_down lt n i xs = xs" by (subst sift_down.simps) (auto simp: Let_def)
    moreover have "\<not> lt (xs ! i) (xs ! k)" if "k < n" "0 < k" "parent k = i" for k
    proof (cases "2 * i + 1 < n")
      case True
      then show ?thesis using here that False by blast
    next
      case f: False
      then show ?thesis using that by (auto simp: parent_def)
    qed
    ultimately show ?thesis using B unfolding heap_from_def by metis
  next
    case True
    then have i: "2 * i + 1 < n" and lt: "lt (xs ! i) (xs ! ?c)" by auto
    note c = larger_child_bounds [OF i, of lt xs]
    have len: "i < length xs" "?c < length xs" using c i less.prems(2) by simp_all
    let ?ys = "swap i ?c xs"
    note nth = swap_nth [OF len]
    have pk: "parent k < k" if "0 < k" for k using that by (auto simp: parent_def)
    have "heap_but_down lt lo n ?c ?ys"
      unfolding heap_but_down_def
    proof (intro conjI allI impI)
      fix k assume "k < n" and k: "0 < k \<and> lo \<le> parent k \<and> parent k \<noteq> ?c"
      show "\<not> lt (?ys ! parent k) (?ys ! k)"
      proof (cases "parent k = i")
        case True
        then have "k \<noteq> i" using pk [of k] k by auto
        then show ?thesis using True k asym [OF lt] larger_child_max [OF i \<open>k < n\<close>, of xs] c(2) by (auto simp: nth)
      next
        case False
        then have "k \<noteq> ?c" using c(3) by auto
        show ?thesis
        proof (cases "k = i")
          case True
          have "0 < ?c" using c(2) by simp
          then have "\<not> lt (xs ! parent i) (xs ! ?c)" using B k c(1,3) True by blast
          then show ?thesis using True k False \<open>k \<noteq> ?c\<close> by (simp add: nth)
        next
          case k': False
          then show ?thesis using B \<open>k < n\<close> k False \<open>k \<noteq> ?c\<close> by (auto simp: nth)
        qed
      qed
    next
      fix k assume "k < n" and k: "0 < k \<and> parent k = ?c \<and> 0 < ?c \<and> lo \<le> parent ?c"
      have "k \<noteq> i" "k \<noteq> ?c" using pk [of k] k c(2) by auto
      moreover have "\<not> lt (xs ! ?c) (xs ! k)" using B \<open>k < n\<close> k c(2,3) by (metis less_irrefl order.trans less.prems(3) less_imp_le)
      ultimately show "\<not> lt (?ys ! parent ?c) (?ys ! k)" using c(3) by (auto simp: nth)
    qed
    then have "heap_from lt lo n (sift_down lt n ?c ?ys)"
      using less.hyps [of ?c ?ys] c(1,2) less.prems(2,3) by simp
    then show ?thesis using True by (subst sift_down.simps) (simp add: Let_def)
  qed
qed

lemma sift_up_heap:
  assumes "heap_but_up lt i xs" and "i < length xs"
  shows "is_heap lt (sift_up lt i xs)"
  using assms
proof (induction i arbitrary: xs rule: less_induct)
  case (less i)
  note B = less.prems(1) [unfolded heap_but_up_def]
  show ?case
  proof (cases "0 < i \<and> lt (xs ! parent i) (xs ! i)")
    case False
    then have "sift_up lt i xs = xs" by (subst sift_up.simps) auto
    then show ?thesis using B False by (auto simp: heap_from_def)
  next
    case True
    let ?p = "parent i" and ?ys = "swap (parent i) i xs"
    have p: "?p < i" using True by (auto simp: parent_def)
    have len: "?p < length xs" "i < length xs" using p less.prems(2) by simp_all
    note nth = swap_nth [OF len]
    have pk: "parent k < k" if "0 < k" for k using that by (auto simp: parent_def)
    have lt: "lt (xs ! ?p) (xs ! i)" using True by simp
    have "heap_but_up lt ?p ?ys"
      unfolding heap_but_up_def
    proof (intro conjI allI impI)
      fix k assume "k < length ?ys" and k: "0 < k \<and> k \<noteq> ?p"
      show "\<not> lt (?ys ! parent k) (?ys ! k)"
      proof (cases "k = i")
        case True
        then show ?thesis using asym [OF lt] p by (auto simp: nth)
      next
        case False
        show ?thesis
        proof (cases "parent k = i")
          case True
          then show ?thesis using B \<open>k < length ?ys\<close> k False p \<open>0 < i \<and> _\<close> by (auto simp: nth)
        next
          case i: False
          have "\<not> lt (xs ! parent k) (xs ! k)" using B \<open>k < length ?ys\<close> k False by simp
          moreover have "\<not> lt (xs ! i) (xs ! ?p)" by (rule asym [OF lt])
          ultimately show ?thesis using i False k not_lt_trans by (auto simp: nth)
        qed
      qed
    next
      fix k assume "k < length ?ys" and k: "0 < k \<and> parent k = ?p \<and> 0 < ?p"
      have up: "\<not> lt (xs ! parent ?p) (xs ! ?p)" using B len(1) k p by simp
      have "parent ?p \<noteq> i" "parent ?p \<noteq> ?p" using pk [of ?p] k p by auto
      moreover have "\<not> lt (xs ! ?p) (xs ! k)" if "k \<noteq> i" using B \<open>k < length ?ys\<close> k that by force
      moreover have "k \<noteq> ?p" using pk [of k] k by auto
      ultimately show "\<not> lt (?ys ! parent ?p) (?ys ! k)" using up not_lt_trans by (auto simp: nth)
    qed
    then have "is_heap lt (sift_up lt ?p ?ys)" using less.IH [OF p, of ?ys] len(1) by simp
    moreover have "sift_up lt i xs = sift_up lt ?p ?ys" using True by (simp add: sift_up.simps [of lt i xs])
    ultimately show ?thesis by simp
  qed
qed

lemma make_heap_heap: "is_heap lt (make_heap lt xs)"
proof -
  let ?n = "length xs"
  have "heap_from lt (?n div 2 - m) ?n (foldr (sift_down lt ?n) [?n div 2 - m..<?n div 2] xs) \<and>
    length (foldr (sift_down lt ?n) [?n div 2 - m..<?n div 2] xs) = ?n" if "m \<le> ?n div 2" for m
    using that
  proof (induction m)
    case 0
    have "\<not> (k < ?n \<and> 0 < k \<and> ?n div 2 \<le> parent k)" for k by (auto simp: parent_def)
    then have "heap_from lt (?n div 2) ?n xs" unfolding heap_from_def by blast
    then show ?case by simp
  next
    case (Suc m)
    let ?i = "?n div 2 - Suc m"
    have i: "?n div 2 - m = Suc ?i" "?i < ?n div 2" using Suc.prems by simp_all
    let ?ys = "foldr (sift_down lt ?n) [Suc ?i..<?n div 2] xs"
    have IH: "heap_from lt (Suc ?i) ?n ?ys" "length ?ys = ?n" using Suc i(1) by simp_all
    have "parent ?i < ?i" if "0 < ?i" using that by (auto simp: parent_def)
    then have "heap_but_down lt ?i ?n ?i ?ys" using IH(1) by (auto simp: heap_but_down_def heap_from_def)
    then have "heap_from lt ?i ?n (sift_down lt ?n ?i ?ys)" using IH(2) by (intro sift_down_heap) simp_all
    then show ?case using IH(2) i(2) by (simp add: upt_conv_Cons)
  qed
  from this [of "?n div 2"] show ?thesis by (simp add: make_heap_def)
qed

lemma push_heap_heap:
  assumes "is_heap lt xs"
  shows "is_heap lt (push_heap lt (xs @ [x]))"
proof -
  have "heap_but_up lt (length xs) (xs @ [x])"
    using assms by (auto simp: heap_but_up_def heap_from_def nth_append parent_def less_Suc_eq)
  then show ?thesis using sift_up_heap [of "length xs" "xs @ [x]"] by (simp add: push_heap_def)
qed

lemma pop_heap_heap:
  assumes "is_heap lt xs" and "xs \<noteq> []"
  shows "is_heap lt (butlast (pop_heap lt xs))"
proof -
  let ?n = "length xs - 1" and ?ys = "swap 0 (length xs - 1) xs"
  have n: "0 < length xs" "?n < length xs" using assms(2) by simp_all
  have "heap_but_down lt 0 ?n 0 ?ys"
    using assms(1) n by (auto simp: heap_but_down_def heap_from_def swap_nth parent_def)
  then have h: "heap_from lt 0 ?n (pop_heap lt xs)" using n by (simp add: pop_heap_def sift_down_heap)
  have "length (pop_heap lt xs) = length xs" by (simp add: pop_heap_def)
  then show ?thesis using h by (auto simp: heap_from_def nth_butlast parent_def)
qed

lemma heap_first:
  assumes "is_heap lt xs" and "k < length xs"
  shows "\<not> lt (xs ! 0) (xs ! k)"
  using assms(2)
proof (induction k rule: less_induct)
  case (less k)
  show ?case
  proof (cases "k = 0")
    case True
    then show ?thesis using asym by blast
  next
    case False
    then have "parent k < k" by (auto simp: parent_def)
    then have "\<not> lt (xs ! 0) (xs ! parent k)" using less by simp
    moreover have "\<not> lt (xs ! parent k) (xs ! k)" using assms(1) less.prems False by (simp add: heap_from_def)
    ultimately show ?thesis by (rule not_lt_trans)
  qed
qed

end

end
