(* ===== verification/Merger.thy ===== *)
theory Merger
  imports TwoLevelIterator StdHeap
begin

text \<open>
  The merging iterator, \<^verbatim>\<open>table/merger.cc\<close>: a heap of the valid children, ordered by the
  \<open>KeyNum\<close> of their keys and then by the comparator.  \<open>SEEK_PARALLEL\<close> and the timers are not
  compiled in.  The comparator and its \<open>KeyNum\<close> are arguments; an
  \<open>InternalKeyComparator\<close> inherits the \<open>KeyNum\<close> that is always \<open>0\<close>.
\<close>

section \<open>State and operations\<close>

datatype Direction = kForward | kReverse

record 's MergingIterator =
  mg_children :: "'s IteratorWrapper list"
  mg_comparisons :: "u64 list"
  mg_heap :: "nat list"
  mg_current :: "nat option"
  mg_status :: Status
  mg_direction :: Direction

definition Comparator_KeyNum :: "bytes \<Rightarrow> u64" where
  "Comparator_KeyNum key = 0"

definition HeapComparator :: "(bytes \<Rightarrow> bytes \<Rightarrow> int) \<Rightarrow> 's MergingIterator \<Rightarrow> nat \<Rightarrow> nat \<Rightarrow> bool" where
  "HeapComparator cmp m lhs rhs =
    (let (lhs, rhs) = (if mg_direction m = kForward then (rhs, lhs) else (lhs, rhs))
     in mg_comparisons m ! lhs < mg_comparisons m ! rhs \<or>
        (mg_comparisons m ! lhs = mg_comparisons m ! rhs \<and>
         cmp (iw_key (mg_children m ! lhs)) (iw_key (mg_children m ! rhs)) < 0))"

definition ReinitializeComparisons :: "(bytes \<Rightarrow> bytes \<Rightarrow> int) \<Rightarrow> (bytes \<Rightarrow> u64) \<Rightarrow> 's MergingIterator \<Rightarrow> 's MergingIterator" where
  "ReinitializeComparisons cmp knum m =
    (let m = fold (\<lambda>i m. if iw_valid (mg_children m ! i)
               then m\<lparr>mg_comparisons := (mg_comparisons m)[i := knum (iw_key (mg_children m ! i))], mg_heap := mg_heap m @ [i]\<rparr>
               else m)
             [0..<length (mg_children m)] (m\<lparr>mg_heap := []\<rparr>)
     in m\<lparr>mg_heap := make_heap (HeapComparator cmp m) (mg_heap m)\<rparr>)"

definition mk_MergingIterator ::
    "(bytes \<Rightarrow> bytes \<Rightarrow> int) \<Rightarrow> (bytes \<Rightarrow> u64) \<Rightarrow> 's Iterator \<Rightarrow> 's list \<Rightarrow> 's MergingIterator" where
  "mk_MergingIterator cmp knum I children =
    ReinitializeComparisons cmp knum
      \<lparr>mg_children = map (\<lambda>c. mk_IteratorWrapper I (Some c)) children, mg_comparisons = replicate (length children) 0,
       mg_heap = [], mg_current = None, mg_status = OK, mg_direction = kForward\<rparr>"

text \<open>The assertion of \<open>PopCurrentComparison\<close> is its precondition.\<close>

definition PopCurrentComparison_pre :: "'s MergingIterator \<Rightarrow> bool" where
  "PopCurrentComparison_pre m \<longleftrightarrow> mg_heap m \<noteq> [] \<and> mg_current m = Some (mg_heap m ! 0)"

definition PopCurrentComparison :: "(bytes \<Rightarrow> bytes \<Rightarrow> int) \<Rightarrow> 's MergingIterator \<Rightarrow> 's MergingIterator" where
  "PopCurrentComparison cmp m = m\<lparr>mg_heap := butlast (pop_heap (HeapComparator cmp m) (mg_heap m))\<rparr>"

definition PushCurrentComparison :: "(bytes \<Rightarrow> bytes \<Rightarrow> int) \<Rightarrow> (bytes \<Rightarrow> u64) \<Rightarrow> 's MergingIterator \<Rightarrow> 's MergingIterator" where
  "PushCurrentComparison cmp knum m =
    (let idx = the (mg_current m); current = mg_children m ! idx
     in if iw_valid current
        then let m = m\<lparr>mg_comparisons := (mg_comparisons m)[idx := knum (iw_key current)], mg_heap := mg_heap m @ [idx]\<rparr>
             in m\<lparr>mg_heap := push_heap (HeapComparator cmp m) (mg_heap m)\<rparr>
        else m)"

definition FindSmallest :: "'s MergingIterator \<Rightarrow> 's MergingIterator" where
  "FindSmallest m = m\<lparr>mg_current := (if mg_heap m \<noteq> [] then Some (mg_heap m ! 0) else None)\<rparr>"

definition FindLargest :: "'s MergingIterator \<Rightarrow> 's MergingIterator" where
  "FindLargest m = m\<lparr>mg_current := (if mg_heap m \<noteq> [] then Some (mg_heap m ! 0) else None)\<rparr>"

text \<open>A loop over the children.\<close>

fun each_child :: "nat \<Rightarrow> (nat \<Rightarrow> 'w \<Rightarrow> 'w option) \<Rightarrow> 'w list \<Rightarrow> 'w list option" where
  "each_child i f [] = Some []"
| "each_child i f (w # ws) = do { w \<leftarrow> f i w; ws \<leftarrow> each_child (Suc i) f ws; Some (w # ws) }"

definition MG_SeekToFirst :: "(bytes \<Rightarrow> bytes \<Rightarrow> int) \<Rightarrow> (bytes \<Rightarrow> u64) \<Rightarrow> 's Iterator \<Rightarrow> 's MergingIterator \<Rightarrow> 's MergingIterator option" where
  "MG_SeekToFirst cmp knum I m = do {
     children \<leftarrow> each_child 0 (\<lambda>_. IW_SeekToFirst I) (mg_children m);
     Some (FindSmallest (ReinitializeComparisons cmp knum (m\<lparr>mg_children := children, mg_direction := kForward\<rparr>)))
   }"

definition MG_SeekToLast :: "(bytes \<Rightarrow> bytes \<Rightarrow> int) \<Rightarrow> (bytes \<Rightarrow> u64) \<Rightarrow> 's Iterator \<Rightarrow> 's MergingIterator \<Rightarrow> 's MergingIterator option" where
  "MG_SeekToLast cmp knum I m = do {
     children \<leftarrow> each_child 0 (\<lambda>_. IW_SeekToLast I) (mg_children m);
     Some (FindLargest (ReinitializeComparisons cmp knum (m\<lparr>mg_children := children, mg_direction := kReverse\<rparr>)))
   }"

definition SeekInSequence :: "'s Iterator \<Rightarrow> bytes \<Rightarrow> 's MergingIterator \<Rightarrow> 's MergingIterator option" where
  "SeekInSequence I target m = do {
     children \<leftarrow> each_child 0 (\<lambda>_. IW_Seek I target) (mg_children m);
     Some (m\<lparr>mg_children := children\<rparr>)
   }"

definition MG_Seek :: "(bytes \<Rightarrow> bytes \<Rightarrow> int) \<Rightarrow> (bytes \<Rightarrow> u64) \<Rightarrow> 's Iterator \<Rightarrow> bytes \<Rightarrow> 's MergingIterator \<Rightarrow> 's MergingIterator option" where
  "MG_Seek cmp knum I target m = do {
     m \<leftarrow> SeekInSequence I target m;
     Some (FindSmallest (ReinitializeComparisons cmp knum (m\<lparr>mg_direction := kForward\<rparr>)))
   }"

definition MG_key :: "'s MergingIterator \<Rightarrow> bytes" where
  "MG_key m = iw_key (mg_children m ! the (mg_current m))"

definition MG_value :: "'s Iterator \<Rightarrow> 's MergingIterator \<Rightarrow> bytes" where
  "MG_value I m = IW_value I (mg_children m ! the (mg_current m))"

text \<open>Positioning the children after, or before, the current key when the direction changes.\<close>

definition after_key :: "(bytes \<Rightarrow> bytes \<Rightarrow> int) \<Rightarrow> 's Iterator \<Rightarrow> bytes \<Rightarrow> 's IteratorWrapper \<Rightarrow> 's IteratorWrapper option" where
  "after_key cmp I key child = do {
     child \<leftarrow> IW_Seek I key child;
     if iw_valid child \<and> cmp key (iw_key child) = 0 then IW_Next I child else Some child
   }"

definition before_key :: "'s Iterator \<Rightarrow> bytes \<Rightarrow> 's IteratorWrapper \<Rightarrow> 's IteratorWrapper option" where
  "before_key I key child = do {
     child \<leftarrow> IW_Seek I key child;
     if iw_valid child then IW_Prev I child else IW_SeekToLast I child
   }"

definition turn_forward :: "(bytes \<Rightarrow> bytes \<Rightarrow> int) \<Rightarrow> (bytes \<Rightarrow> u64) \<Rightarrow> 's Iterator \<Rightarrow> 's MergingIterator \<Rightarrow> 's MergingIterator option" where
  "turn_forward cmp knum I m =
    (if mg_direction m \<noteq> kForward
     then do {
       children \<leftarrow> each_child 0 (\<lambda>i child. if Some i \<noteq> mg_current m then after_key cmp I (MG_key m) child else Some child) (mg_children m);
       Some (ReinitializeComparisons cmp knum (m\<lparr>mg_children := children, mg_direction := kForward\<rparr>))
     }
     else Some m)"

definition turn_reverse :: "(bytes \<Rightarrow> bytes \<Rightarrow> int) \<Rightarrow> (bytes \<Rightarrow> u64) \<Rightarrow> 's Iterator \<Rightarrow> 's MergingIterator \<Rightarrow> 's MergingIterator option" where
  "turn_reverse cmp knum I m =
    (if mg_direction m \<noteq> kReverse
     then do {
       children \<leftarrow> each_child 0 (\<lambda>i child. if Some i \<noteq> mg_current m then before_key I (MG_key m) child else Some child) (mg_children m);
       Some (ReinitializeComparisons cmp knum (m\<lparr>mg_children := children, mg_direction := kReverse\<rparr>))
     }
     else Some m)"

definition move_current :: "('s IteratorWrapper \<Rightarrow> 's IteratorWrapper option) \<Rightarrow> 's MergingIterator \<Rightarrow> 's MergingIterator option" where
  "move_current f m = do {
     child \<leftarrow> f (mg_children m ! the (mg_current m));
     Some (m\<lparr>mg_children := (mg_children m)[the (mg_current m) := child]\<rparr>)
   }"

definition MG_Next :: "(bytes \<Rightarrow> bytes \<Rightarrow> int) \<Rightarrow> (bytes \<Rightarrow> u64) \<Rightarrow> 's Iterator \<Rightarrow> 's MergingIterator \<Rightarrow> 's MergingIterator option" where
  "MG_Next cmp knum I m = do {
     m \<leftarrow> turn_forward cmp knum I m;
     m \<leftarrow> move_current (IW_Next I) (PopCurrentComparison cmp m);
     Some (FindSmallest (PushCurrentComparison cmp knum m))
   }"

definition MG_Prev :: "(bytes \<Rightarrow> bytes \<Rightarrow> int) \<Rightarrow> (bytes \<Rightarrow> u64) \<Rightarrow> 's Iterator \<Rightarrow> 's MergingIterator \<Rightarrow> 's MergingIterator option" where
  "MG_Prev cmp knum I m = do {
     m \<leftarrow> turn_reverse cmp knum I m;
     m \<leftarrow> move_current (IW_Prev I) (PopCurrentComparison cmp m);
     Some (FindLargest (PushCurrentComparison cmp knum m))
   }"

definition MG_Status :: "'s Iterator \<Rightarrow> 's MergingIterator \<Rightarrow> Status" where
  "MG_Status I m =
    (case find (\<lambda>c. \<not> ok (IW_status I c)) (mg_children m) of Some c \<Rightarrow> IW_status I c | None \<Rightarrow> mg_status m)"

definition merging_iterator :: "(bytes \<Rightarrow> bytes \<Rightarrow> int) \<Rightarrow> (bytes \<Rightarrow> u64) \<Rightarrow> 's Iterator \<Rightarrow> 's MergingIterator Iterator" where
  "merging_iterator cmp knum I =
    \<lparr>it_Valid = \<lambda>m. mg_current m \<noteq> None, it_SeekToFirst = MG_SeekToFirst cmp knum I, it_SeekToLast = MG_SeekToLast cmp knum I,
     it_Seek = MG_Seek cmp knum I, it_Next = MG_Next cmp knum I, it_Prev = MG_Prev cmp knum I,
     it_key = MG_key, it_value = MG_value I, it_status = MG_Status I\<rparr>"

text \<open>\<open>NewMergingIterator\<close> and \<open>NewMergingIteratorForFiles\<close>, whose further arguments only serve the
  parallel seeks: without children the empty iterator, with one that child itself.\<close>

datatype 's AnyMerged = NoChild | OneChild 's | Merged "'s MergingIterator"

definition NewMergingIterator :: "(bytes \<Rightarrow> bytes \<Rightarrow> int) \<Rightarrow> (bytes \<Rightarrow> u64) \<Rightarrow> 's Iterator \<Rightarrow> 's list \<Rightarrow> 's AnyMerged" where
  "NewMergingIterator cmp knum I children =
    (case children of [] \<Rightarrow> NoChild | [c] \<Rightarrow> OneChild c | _ \<Rightarrow> Merged (mk_MergingIterator cmp knum I children))"

section \<open>Cuts of a sorted list\<close>

text \<open>How many entries lie below a cut of the keys.\<close>

definition cnt :: "(bytes \<Rightarrow> bool) \<Rightarrow> (bytes \<times> bytes) list \<Rightarrow> nat" where
  "cnt P xs = length (takeWhile (\<lambda>e. P (fst e)) xs)"

lemma cnt_le: "cnt P xs \<le> length xs"
  by (simp add: cnt_def length_takeWhile_le)

lemma cnt_below: "cnt (\<lambda>a. cmp a k < 0) xs = below cmp k xs"
  by (simp add: cnt_def below_def)

lemma cnt_nth: "q < cnt P xs \<Longrightarrow> P (fst (xs ! q))"
  using nth_mem [of q "takeWhile (\<lambda>e. P (fst e)) xs"] by (auto simp: cnt_def takeWhile_nth dest: set_takeWhileD)

lemma cnt_nth_not: "cnt P xs < length xs \<Longrightarrow> \<not> P (fst (xs ! cnt P xs))"
  using nth_length_takeWhile [of "\<lambda>e. P (fst e)" xs] by (simp add: cnt_def)

lemma each_child_all:
  assumes "\<And>j. j < length ws \<Longrightarrow> \<exists>w'. f (i + j) (ws ! j) = Some w' \<and> R j w'"
  shows "\<exists>ws'. each_child i f ws = Some ws' \<and> length ws' = length ws \<and> (\<forall>j < length ws. R j (ws' ! j))"
  using assms
proof (induction ws arbitrary: i R)
  case (Cons w ws)
  obtain w' where w': "f i w = Some w'" "R 0 w'" using Cons.prems [of 0] by auto
  have "\<exists>ws'. each_child (Suc i) f ws = Some ws' \<and> length ws' = length ws \<and> (\<forall>j < length ws. R (Suc j) (ws' ! j))"
    by (rule Cons.IH) (use Cons.prems [of "Suc _"] in auto)
  then obtain ws' where "each_child (Suc i) f ws = Some ws'" "length ws' = length ws" "\<forall>j < length ws. R (Suc j) (ws' ! j)" by blast
  then show ?case using w' by (intro exI [of _ "w' # ws'"]) (auto simp: less_Suc_eq_0_disj)
qed simp

lemma is_heap_cong: "(\<And>a b. a \<in> set xs \<Longrightarrow> b \<in> set xs \<Longrightarrow> lt a b = lt' a b) \<Longrightarrow> is_heap lt xs \<longleftrightarrow> is_heap lt' xs"
proof -
  assume eq: "\<And>a b. a \<in> set xs \<Longrightarrow> b \<in> set xs \<Longrightarrow> lt a b = lt' a b"
  have "parent k < length xs" if "k < length xs" for k using that by (auto simp: parent_def)
  then show ?thesis unfolding heap_from_def using eq by (metis nth_mem)
qed

section \<open>The contract\<close>

locale merging = key_comparator Compare + iterator I Compare seekable "at"
  for Compare seekable and I :: "'s Iterator" and "at" +
  fixes knum :: "bytes \<Rightarrow> u64"
  assumes knum_mono: "Compare a b \<le> 0 \<Longrightarrow> knum a \<le> knum b"
begin

definition cut :: "(bytes \<Rightarrow> bool) \<Rightarrow> bool" where
  "cut P \<longleftrightarrow> (\<forall>a b. P b \<and> Compare a b \<le> 0 \<longrightarrow> P a)"

lemma cut_less: "cut (\<lambda>a. Compare a k < 0)" and cut_le: "cut (\<lambda>a. Compare a k \<le> 0)"
  using Compare_le_less_trans Compare_trans by (auto simp: cut_def)

lemma cut_all: "cut (\<lambda>_. True)" and cut_none: "cut (\<lambda>_. False)"
  by (auto simp: cut_def)

abbreviation "ordered \<equiv> sorted_wrt (\<lambda>a b :: bytes \<times> bytes. Compare (fst a) (fst b) < 0)"

lemma cnt_above:
  assumes "cut P" and "ordered xs" and "cnt P xs \<le> q" and "q < length xs"
  shows "\<not> P (fst (xs ! q))"
proof (cases "cnt P xs = q")
  case True
  then show ?thesis using cnt_nth_not assms(4) by blast
next
  case False
  then have "Compare (fst (xs ! cnt P xs)) (fst (xs ! q)) \<le> 0"
    using assms(2-4) by (simp add: sorted_wrt_iff_nth_less less_imp_le)
  moreover have "\<not> P (fst (xs ! cnt P xs))" using cnt_nth_not assms(3,4) by (meson le_less_trans)
  ultimately show ?thesis using assms(1) by (auto simp: cut_def)
qed

lemma cnt_iff: "cut P \<Longrightarrow> ordered xs \<Longrightarrow> q < length xs \<Longrightarrow> P (fst (xs ! q)) \<longleftrightarrow> q < cnt P xs"
  using cnt_above cnt_nth by (meson not_le_imp_less)

lemma ordered_le: "ordered xs \<Longrightarrow> i \<le> j \<Longrightarrow> j < length xs \<Longrightarrow> Compare (fst (xs ! i)) (fst (xs ! j)) \<le> 0"
  using Compare_refl by (cases "i = j") (auto simp: sorted_wrt_iff_nth_less intro: less_imp_le)

lemma cnt_eq:
  assumes "ordered xs" and "cut P" and "n \<le> length xs" and "0 < n \<Longrightarrow> P (fst (xs ! (n - 1)))"
    and "n < length xs \<Longrightarrow> \<not> P (fst (xs ! n))"
  shows "cnt P xs = n"
proof (rule linorder_cases [of "cnt P xs" n])
  assume "cnt P xs < n"
  then show ?thesis using cnt_iff [OF assms(2,1), of "n - 1"] assms(3,4) by simp
next
  assume "n < cnt P xs"
  then show ?thesis using cnt_iff [OF assms(2,1), of n] assms(5) cnt_le [of P xs] by simp
qed

lemma cnt_at_key:
  assumes "ordered xs" and "p < length xs"
  shows "cnt (\<lambda>a. Compare a (fst (xs ! p)) < 0) xs = p" and "cnt (\<lambda>a. Compare a (fst (xs ! p)) \<le> 0) xs = p + 1"
proof -
  show "cnt (\<lambda>a. Compare a (fst (xs ! p)) < 0) xs = p"
    using assms Compare_refl by (intro cnt_eq [OF assms(1) cut_less]) (auto simp: sorted_wrt_iff_nth_less)
  show "cnt (\<lambda>a. Compare a (fst (xs ! p)) \<le> 0) xs = p + 1"
    using assms Compare_refl Compare_less_iff by (intro cnt_eq [OF assms(1) cut_le]) (auto simp: sorted_wrt_iff_nth_less)
qed

lemma cnt_less_le:
  assumes "ordered xs" and "\<forall>e \<in> set xs. Compare (fst e) k \<noteq> 0"
  shows "cnt (\<lambda>a. Compare a k \<le> 0) xs = cnt (\<lambda>a. Compare a k < 0) xs"
proof -
  have "takeWhile (\<lambda>e. Compare (fst e) k \<le> 0) xs = takeWhile (\<lambda>e. Compare (fst e) k < 0) xs"
    using assms(2) by (intro takeWhile_cong) auto
  then show ?thesis by (simp add: cnt_def)
qed

text \<open>The position of an iterator at the last entry below a cut.\<close>

definition last_pos :: "(bytes \<Rightarrow> bool) \<Rightarrow> (bytes \<times> bytes) list \<Rightarrow> nat" where
  "last_pos P xs = (if cnt P xs = 0 then length xs else cnt P xs - 1)"

section \<open>The heap\<close>

lemma lex_weak:
  fixes f :: "nat \<Rightarrow> u64" and g :: "nat \<Rightarrow> bytes"
  defines "lx \<equiv> \<lambda>a b. f a < f b \<or> (f a = f b \<and> Compare (g a) (g b) < 0)"
  shows "lx a b \<Longrightarrow> \<not> lx b a" and "\<not> lx a b \<Longrightarrow> \<not> lx b c \<Longrightarrow> \<not> lx a c"
proof -
  show "\<not> lx b a" if "lx a b"
  proof (cases "f a = f b")
    case True
    then have "\<not> Compare (g b) (g a) \<le> 0" using that Compare_less_iff by (simp add: lx_def)
    then show ?thesis using True by (simp add: lx_def)
  qed (use that in \<open>auto simp: lx_def\<close>)
  have eq: "lx x y \<longleftrightarrow> \<not> (f y < f x \<or> (f y = f x \<and> Compare (g y) (g x) \<le> 0))" for x y
    using Compare_less_iff [of "g x" "g y"] by (auto simp: lx_def)
  show "\<not> lx a c" if "\<not> lx a b" "\<not> lx b c"
    using that Compare_trans [of "g c" "g b" "g a"] unfolding eq by auto
qed

lemma HeapComparator_weak: "weak_order (HeapComparator Compare m)"
proof
  note W = lex_weak [where f = "\<lambda>i. mg_comparisons m ! i" and g = "\<lambda>i. iw_key (mg_children m ! i)"]
  show "\<not> HeapComparator Compare m b a" if "HeapComparator Compare m a b" for a b
    using that W(1) [where a = a and b = b] W(1) [where a = b and b = a] by (cases "mg_direction m") (simp_all add: HeapComparator_def)
  show "\<not> HeapComparator Compare m a c" if "\<not> HeapComparator Compare m a b" "\<not> HeapComparator Compare m b c" for a b c
  proof (cases "mg_direction m")
    case kForward
    then show ?thesis using that W(2) [where a = c and b = b and c = a] by (simp add: HeapComparator_def)
  next
    case kReverse
    then show ?thesis using that W(2) [where a = a and b = b and c = c] by (simp add: HeapComparator_def)
  qed
qed

definition children_at :: "(bytes \<times> bytes) list list \<Rightarrow> 's MergingIterator \<Rightarrow> (nat \<Rightarrow> nat) \<Rightarrow> bool" where
  "children_at ess m ps \<longleftrightarrow> length (mg_children m) = length ess \<and> length (mg_comparisons m) = length ess \<and> mg_status m = OK \<and>
     (\<forall>i < length ess. iw_at (ess ! i) (mg_children m ! i) (ps i))"

definition live :: "(bytes \<times> bytes) list list \<Rightarrow> (nat \<Rightarrow> nat) \<Rightarrow> nat set" where
  "live ess ps = {i. i < length ess \<and> ps i < length (ess ! i)}"

definition heap_ok :: "(bytes \<times> bytes) list list \<Rightarrow> 's MergingIterator \<Rightarrow> nat set \<Rightarrow> bool" where
  "heap_ok ess m V \<longleftrightarrow> distinct (mg_heap m) \<and> set (mg_heap m) = V \<and>
     (\<forall>i \<in> V. mg_comparisons m ! i = knum (iw_key (mg_children m ! i))) \<and> is_heap (HeapComparator Compare m) (mg_heap m)"

lemma children_key: "children_at ess m ps \<Longrightarrow> i \<in> live ess ps \<Longrightarrow> iw_key (mg_children m ! i) = fst (ess ! i ! ps i)"
  using iw_atD(2) by (auto simp: children_at_def live_def)

lemma children_valid: "children_at ess m ps \<Longrightarrow> i < length ess \<Longrightarrow> iw_valid (mg_children m ! i) \<longleftrightarrow> i \<in> live ess ps"
  using iw_atD(1) by (auto simp: children_at_def live_def)

lemma children_ordered: "children_at ess m ps \<Longrightarrow> i < length ess \<Longrightarrow> ordered (ess ! i)"
  using iw_atD(6) by (auto simp: children_at_def)

lemma heap_best:
  assumes "heap_ok ess m (live ess ps)" and "children_at ess m ps" and "mg_heap m \<noteq> []" and "i \<in> live ess ps"
  defines "c \<equiv> mg_heap m ! 0"
  shows "c \<in> live ess ps"
    and "mg_direction m = kForward \<Longrightarrow> Compare (fst (ess ! c ! ps c)) (fst (ess ! i ! ps i)) \<le> 0"
    and "mg_direction m = kReverse \<Longrightarrow> Compare (fst (ess ! i ! ps i)) (fst (ess ! c ! ps c)) \<le> 0"
proof -
  show c: "c \<in> live ess ps" using assms(1,3) unfolding heap_ok_def c_def by auto
  have num: "mg_comparisons m ! j = knum (fst (ess ! j ! ps j))" "iw_key (mg_children m ! j) = fst (ess ! j ! ps j)"
    if "j \<in> live ess ps" for j
    using assms(1) that children_key [OF assms(2) that] by (simp_all add: heap_ok_def)
  obtain k where "k < length (mg_heap m)" "i = mg_heap m ! k" using assms(1,4) unfolding heap_ok_def by (metis in_set_conv_nth)
  then have "\<not> HeapComparator Compare m c i"
    using weak_order.heap_first [OF HeapComparator_weak] assms(1) unfolding c_def heap_ok_def by blast
  then show "mg_direction m = kForward \<Longrightarrow> Compare (fst (ess ! c ! ps c)) (fst (ess ! i ! ps i)) \<le> 0"
    "mg_direction m = kReverse \<Longrightarrow> Compare (fst (ess ! i ! ps i)) (fst (ess ! c ! ps c)) \<le> 0"
    using num [OF c] num [OF assms(4)] knum_mono Compare_total Compare_less_iff
    by (auto simp: HeapComparator_def) (metis Compare_less_iff linorder_neqE order.strict_iff_not)+
qed

lemma Reinitialize_fold:
  assumes "k \<le> length (mg_children m)" and "length (mg_comparisons m) = length (mg_children m)"
  defines "m' \<equiv> fold (\<lambda>i m. if iw_valid (mg_children m ! i)
               then m\<lparr>mg_comparisons := (mg_comparisons m)[i := knum (iw_key (mg_children m ! i))], mg_heap := mg_heap m @ [i]\<rparr>
               else m) [0..<k] (m\<lparr>mg_heap := []\<rparr>)"
  shows "mg_children m' = mg_children m" and "mg_heap m' = filter (\<lambda>i. iw_valid (mg_children m ! i)) [0..<k]"
    and "length (mg_comparisons m') = length (mg_children m)" and "mg_current m' = mg_current m" and "mg_status m' = mg_status m"
    and "mg_direction m' = mg_direction m"
    and "i < k \<Longrightarrow> iw_valid (mg_children m ! i) \<Longrightarrow> mg_comparisons m' ! i = knum (iw_key (mg_children m ! i))"
proof -
  have "mg_children m' = mg_children m \<and> mg_heap m' = filter (\<lambda>i. iw_valid (mg_children m ! i)) [0..<k] \<and>
    length (mg_comparisons m') = length (mg_children m) \<and> mg_current m' = mg_current m \<and> mg_status m' = mg_status m \<and>
    mg_direction m' = mg_direction m \<and>
    (\<forall>i < k. iw_valid (mg_children m ! i) \<longrightarrow> mg_comparisons m' ! i = knum (iw_key (mg_children m ! i)))"
    using assms(1) unfolding m'_def
  proof (induction k)
    case 0
    then show ?case using assms(2) by simp
  next
    case (Suc k)
    let ?step = "\<lambda>i m. if iw_valid (mg_children m ! i)
       then m\<lparr>mg_comparisons := (mg_comparisons m)[i := knum (iw_key (mg_children m ! i))], mg_heap := mg_heap m @ [i]\<rparr> else m"
    let ?n = "fold ?step [0..<k] (m\<lparr>mg_heap := []\<rparr>)"
    have IH: "mg_children ?n = mg_children m" "mg_heap ?n = filter (\<lambda>i. iw_valid (mg_children m ! i)) [0..<k]"
      "length (mg_comparisons ?n) = length (mg_children m)" "mg_current ?n = mg_current m" "mg_status ?n = mg_status m"
      "mg_direction ?n = mg_direction m"
      "\<forall>i < k. iw_valid (mg_children m ! i) \<longrightarrow> mg_comparisons ?n ! i = knum (iw_key (mg_children m ! i))"
      using Suc by simp_all
    have "fold ?step [0..<Suc k] (m\<lparr>mg_heap := []\<rparr>) = ?step k ?n" by simp
    then show ?case using IH Suc.prems by (auto simp: nth_list_update less_Suc_eq)
  qed
  then show "mg_children m' = mg_children m" "mg_heap m' = filter (\<lambda>i. iw_valid (mg_children m ! i)) [0..<k]"
    "length (mg_comparisons m') = length (mg_children m)" "mg_current m' = mg_current m" "mg_status m' = mg_status m"
    "mg_direction m' = mg_direction m"
    "i < k \<Longrightarrow> iw_valid (mg_children m ! i) \<Longrightarrow> mg_comparisons m' ! i = knum (iw_key (mg_children m ! i))" by blast+
qed

lemma Reinitialize_ok:
  assumes "children_at ess m ps"
  defines "m' \<equiv> ReinitializeComparisons Compare knum m"
  shows "children_at ess m' ps" and "heap_ok ess m' (live ess ps)" and "mg_direction m' = mg_direction m"
    and "mg_current m' = mg_current m"
proof -
  have len: "length (mg_children m) = length ess" "length (mg_comparisons m) = length (mg_children m)"
    using assms(1) by (simp_all add: children_at_def)
  define f where "f = fold (\<lambda>i m. if iw_valid (mg_children m ! i)
     then m\<lparr>mg_comparisons := (mg_comparisons m)[i := knum (iw_key (mg_children m ! i))], mg_heap := mg_heap m @ [i]\<rparr>
     else m) [0..<length (mg_children m)] (m\<lparr>mg_heap := []\<rparr>)"
  note R = Reinitialize_fold [OF order.refl len(2), folded f_def]
  have m': "m' = f\<lparr>mg_heap := make_heap (HeapComparator Compare f) (mg_heap f)\<rparr>"
    by (simp add: m'_def ReinitializeComparisons_def f_def Let_def)
  have hc: "HeapComparator Compare m' = HeapComparator Compare f" by (simp add: m' HeapComparator_def fun_eq_iff)
  show "children_at ess m' ps" using assms(1) R by (simp add: children_at_def m')
  show "mg_direction m' = mg_direction m" "mg_current m' = mg_current m" using R by (simp_all add: m')
  have set: "set (mg_heap f) = live ess ps"
    using R(2) children_valid [OF assms(1)] len(1) by (auto simp: live_def)
  have ms: "mset (mg_heap m') = mset (mg_heap f)" by (simp add: m' make_heap_mset)
  have "distinct (mg_heap f)" using R(2) by simp
  then have "distinct (mg_heap m')" using ms by (metis distinct_count_atmost_1 set_mset_mset)
  moreover have "set (mg_heap m') = live ess ps" using ms set by (metis set_mset_mset)
  moreover have "mg_comparisons m' ! i = knum (iw_key (mg_children m' ! i))" if "i \<in> live ess ps" for i
    using R(1) R(7) [of i] that children_valid [OF assms(1), of i] len(1) by (simp add: m' live_def)
  moreover have "is_heap (HeapComparator Compare m') (mg_heap m')"
    using weak_order.make_heap_heap [OF HeapComparator_weak, of f "mg_heap f"] unfolding hc by (simp add: m')
  ultimately show "heap_ok ess m' (live ess ps)" by (simp add: heap_ok_def)
qed

text \<open>Replacing the entry of the current child in the heap.\<close>

lemma pop_push_ok:
  fixes w
  assumes ok: "heap_ok ess m V" and ne: "mg_heap m \<noteq> []" and c: "mg_heap m ! 0 = c" "mg_current m = Some c"
    and len: "c < length (mg_children m)" "length (mg_comparisons m) = length (mg_children m)"
  defines "m1 \<equiv> (PopCurrentComparison Compare m)\<lparr>mg_children := (mg_children m)[c := w]\<rparr>"
  defines "m2 \<equiv> PushCurrentComparison Compare knum m1"
  shows "heap_ok ess m2 (if iw_valid w then V else V - {c})" and "mg_children m2 = (mg_children m)[c := w]"
    and "length (mg_comparisons m2) = length (mg_comparisons m)" and "mg_status m2 = mg_status m"
    and "mg_direction m2 = mg_direction m" and "mg_current m2 = Some c"
proof -
  let ?h1 = "butlast (pop_heap (HeapComparator Compare m) (mg_heap m))"
  have cV: "c \<in> V" using ok ne c(1) unfolding heap_ok_def by (metis length_greater_0_conv nth_mem)
  have d: "distinct (mg_heap m)" "set (mg_heap m) = V" and num: "\<forall>i \<in> V. mg_comparisons m ! i = knum (iw_key (mg_children m ! i))"
    and heap: "is_heap (HeapComparator Compare m) (mg_heap m)" using ok by (simp_all add: heap_ok_def)
  have m1h: "mset ?h1 = mset (mg_heap m) - {#c#}" using pop_heap_last(3) [OF ne] c(1) by simp
  have "distinct ?h1" "set ?h1 = V - {c}"
  proof -
    have "mset ?h1 = mset (remove1 c (mg_heap m))" using m1h by (simp add: mset_remove1)
    then show "distinct ?h1" "set ?h1 = V - {c}"
      using d by (metis distinct_remove1 distinct_count_atmost_1 set_mset_mset, metis set_mset_mset set_remove1_eq)
  qed
  note h1 = this
  have heap1: "is_heap (HeapComparator Compare m) ?h1" by (rule weak_order.pop_heap_heap [OF HeapComparator_weak heap ne])
  have m1: "mg_children m1 = (mg_children m)[c := w]" "mg_heap m1 = ?h1" "mg_comparisons m1 = mg_comparisons m"
    "mg_status m1 = mg_status m" "mg_direction m1 = mg_direction m" "mg_current m1 = Some c"
    using c(2) by (simp_all add: m1_def PopCurrentComparison_def)
  have w: "mg_children m1 ! c = w" using len(1) m1(1) by simp
  have hc: "HeapComparator Compare n a b = HeapComparator Compare m a b"
    if "a \<in> set ?h1" "b \<in> set ?h1" "mg_children n = (mg_children m)[c := w]" "mg_direction n = mg_direction m"
      "\<And>i. i \<noteq> c \<Longrightarrow> mg_comparisons n ! i = mg_comparisons m ! i" for n a b
  proof -
    have "a \<noteq> c" "b \<noteq> c" using that(1,2) h1(2) by auto
    then show ?thesis using that(3-5) by (simp add: HeapComparator_def)
  qed
  show "heap_ok ess m2 (if iw_valid w then V else V - {c})"
  proof (cases "iw_valid w")
    case False
    then have m2: "m2 = m1" using w m1(6) by (simp add: m2_def PushCurrentComparison_def)
    have "is_heap (HeapComparator Compare m1) ?h1 \<longleftrightarrow> is_heap (HeapComparator Compare m) ?h1"
      by (rule is_heap_cong, rule hc) (simp_all add: m1)
    then have "is_heap (HeapComparator Compare m1) ?h1" using heap1 by blast
    then show ?thesis using False h1 num m1 by (auto simp: heap_ok_def m2)
  next
    case True
    define n where "n = m1\<lparr>mg_comparisons := (mg_comparisons m1)[c := knum (iw_key w)], mg_heap := mg_heap m1 @ [c]\<rparr>"
    have m2: "m2 = n\<lparr>mg_heap := push_heap (HeapComparator Compare n) (?h1 @ [c])\<rparr>"
      using w m1(2,6) True by (simp add: m2_def PushCurrentComparison_def n_def Let_def)
    have hcn: "HeapComparator Compare m2 = HeapComparator Compare n" by (simp add: m2 HeapComparator_def fun_eq_iff)
    have "is_heap (HeapComparator Compare n) ?h1 \<longleftrightarrow> is_heap (HeapComparator Compare m) ?h1"
      by (rule is_heap_cong, rule hc) (simp_all add: m1 n_def)
    then have "is_heap (HeapComparator Compare m2) (mg_heap m2)"
      using weak_order.push_heap_heap [OF HeapComparator_weak, of n ?h1 c] heap1 unfolding hcn by (simp add: m2)
    moreover have ms: "mset (mg_heap m2) = mset (c # ?h1)" by (simp add: m2 push_heap_mset)
    moreover have "distinct (c # ?h1)" using h1 by simp
    then have "distinct (mg_heap m2)" using ms by (metis distinct_count_atmost_1 set_mset_mset)
    moreover have "set (mg_heap m2) = V" using ms h1(2) cV by (metis insert_Diff list.simps(15) set_mset_mset)
    moreover have "mg_comparisons m2 ! i = knum (iw_key (mg_children m2 ! i))" if "i \<in> V" for i
      using num that m1 len by (cases "i = c") (simp_all add: m2 n_def)
    ultimately show ?thesis using True by (simp add: heap_ok_def)
  qed
  show "mg_children m2 = (mg_children m)[c := w]" "length (mg_comparisons m2) = length (mg_comparisons m)"
    "mg_status m2 = mg_status m" "mg_direction m2 = mg_direction m" "mg_current m2 = Some c"
    using m1 by (simp_all add: m2_def PushCurrentComparison_def Let_def)
qed

section \<open>Positions\<close>

definition merged :: "(bytes \<times> bytes) list \<Rightarrow> (bytes \<times> bytes) list list \<Rightarrow> bool" where
  "merged es ess \<longleftrightarrow> ordered es \<and> mset es = mset (concat ess)"

text \<open>\<open>k\<close> is the current key: forward the other children stand after it, in reverse before it.\<close>

definition placed :: "(bytes \<times> bytes) list list \<Rightarrow> Direction \<Rightarrow> bytes \<Rightarrow> (nat \<Rightarrow> nat) \<Rightarrow> bool" where
  "placed ess d k ps \<longleftrightarrow> (\<forall>i < length ess. ps i =
     (case d of kForward \<Rightarrow> cnt (\<lambda>a. Compare a k < 0) (ess ! i) | kReverse \<Rightarrow> last_pos (\<lambda>a. Compare a k \<le> 0) (ess ! i)))"

definition mg_on :: "(bytes \<times> bytes) list \<Rightarrow> (bytes \<times> bytes) list list \<Rightarrow> 's MergingIterator \<Rightarrow> (nat \<Rightarrow> nat) \<Rightarrow> nat \<Rightarrow> nat \<Rightarrow> bool" where
  "mg_on es ess m ps c p \<longleftrightarrow> merged es ess \<and> children_at ess m ps \<and> heap_ok ess m (live ess ps) \<and> mg_heap m \<noteq> [] \<and>
     mg_heap m ! 0 = c \<and> mg_current m = Some c \<and> c \<in> live ess ps \<and> p < length es \<and> ess ! c ! ps c = es ! p \<and>
     placed ess (mg_direction m) (fst (es ! p)) ps"

definition mg_at :: "(bytes \<times> bytes) list \<Rightarrow> 's MergingIterator \<Rightarrow> nat \<Rightarrow> bool" where
  "mg_at es m p \<longleftrightarrow> (\<exists>ess ps. merged es ess \<and> children_at ess m ps \<and>
     (if p < length es then \<exists>c. mg_on es ess m ps c p else mg_current m = None \<and> p = length es))"

lemma merged_mem:
  assumes "merged es ess"
  shows "x \<in> set es \<longleftrightarrow> (\<exists>i < length ess. x \<in> set (ess ! i))"
proof -
  have "set es = set (concat ess)" using assms unfolding merged_def by (metis set_mset_mset)
  moreover have "x \<in> set (concat ess) \<longleftrightarrow> (\<exists>b \<in> set ess. x \<in> set b)" by simp
  ultimately show ?thesis by (metis in_set_conv_nth)
qed

lemma ordered_inj:
  assumes "ordered xs" and "i < length xs" and "j < length xs" and "Compare (fst (xs ! i)) (fst (xs ! j)) = 0"
  shows "i = j"
proof (rule linorder_cases [of i j])
  assume "i < j"
  then show ?thesis using assms(1,3,4) by (fastforce simp: sorted_wrt_iff_nth_less)
next
  assume "j < i"
  then have "Compare (fst (xs ! j)) (fst (xs ! i)) < 0" using assms(1,2) by (simp add: sorted_wrt_iff_nth_less)
  then show ?thesis using assms(4) Compare_zero_sym by force
qed

lemma distinct_concat_nth:
  "distinct (concat ess) \<Longrightarrow> i < j \<Longrightarrow> j < length ess \<Longrightarrow> x \<in> set (ess ! i) \<Longrightarrow> x \<notin> set (ess ! j)"
proof (induction ess arbitrary: i j)
  case (Cons e ess)
  obtain j' where j: "j = Suc j'" "j' < length ess" using Cons.prems by (cases j) auto
  show ?case
  proof (cases i)
    case 0
    then have "x \<in> set e" using Cons.prems by simp
    then have "x \<notin> set (concat ess)" using Cons.prems(1) by auto
    then show ?thesis using j nth_mem [OF j(2)] by auto
  next
    case (Suc i')
    then show ?thesis using Cons.IH [of i' j'] Cons.prems j by simp
  qed
qed simp

lemma merged_key_unique:
  assumes "merged es ess" and "i < length ess" and "j < length ess" and "x \<in> set (ess ! i)" and "y \<in> set (ess ! j)"
    and "Compare (fst x) (fst y) = 0"
  shows "i = j"
proof (rule ccontr)
  assume "i \<noteq> j"
  have o: "ordered es" and ms: "mset es = mset (concat ess)" using assms(1) by (simp_all add: merged_def)
  have "x \<in> set es" "y \<in> set es" using merged_mem [OF assms(1)] assms(2-5) by blast+
  then have xy: "x = y" using ordered_inj [OF o] assms(6) by (metis in_set_conv_nth)
  have "distinct es"
    using o Compare_refl by (force simp: sorted_wrt_iff_nth_less distinct_conv_nth linorder_neq_iff)
  then have "distinct (concat ess)" using ms by (metis distinct_count_atmost_1 set_mset_mset)
  then have "x \<notin> set (ess ! j)"
    using \<open>i \<noteq> j\<close> assms(2-5) xy distinct_concat_nth [of ess i j x] distinct_concat_nth [of ess j i x] by (metis linorder_neqE_nat)
  then show False using assms(5) xy by simp
qed

lemma find_forward:
  assumes me: "merged es ess" and ch: "children_at ess m ps" and hp: "heap_ok ess m (live ess ps)" and d: "mg_direction m = kForward"
    and P: "cut P" and ps: "\<And>i. i < length ess \<Longrightarrow> ps i = cnt P (ess ! i)"
  shows "mg_at es (FindSmallest m) (cnt P es)"
    and "cnt P es < length es \<Longrightarrow> \<exists>c. mg_on es ess (FindSmallest m) ps c (cnt P es)"
proof -
  have o: "ordered es" using me by (simp add: merged_def)
  have ch': "children_at ess (FindSmallest m) ps" using ch by (simp add: children_at_def FindSmallest_def)
  have hp': "heap_ok ess (FindSmallest m) (live ess ps)"
  proof -
    have "HeapComparator Compare (FindSmallest m) = HeapComparator Compare m" by (simp add: FindSmallest_def HeapComparator_def fun_eq_iff)
    then show ?thesis using hp by (simp add: heap_ok_def FindSmallest_def)
  qed
  have not_P: "\<not> P (fst (ess ! i ! ps i))" if "i \<in> live ess ps" for i
    using that cnt_nth_not [of P "ess ! i"] ps [of i] by (simp add: live_def)
  show on: "\<exists>c. mg_on es ess (FindSmallest m) ps c (cnt P es)" if N: "cnt P es < length es"
  proof -
    have "es ! cnt P es \<in> set es" using N by simp
    then obtain i r where i: "i < length ess" "r < length (ess ! i)" "ess ! i ! r = es ! cnt P es"
      using merged_mem [OF me] by (metis in_set_conv_nth)
    have oi: "ordered (ess ! i)" by (rule children_ordered [OF ch i(1)])
    have "\<not> P (fst (ess ! i ! r))" using cnt_nth_not [OF N] i(3) by simp
    then have r: "ps i \<le> r" using cnt_nth [of r P "ess ! i"] ps [OF i(1)] by (metis not_le_imp_less)
    then have il: "i \<in> live ess ps" using i by (simp add: live_def)
    have ne: "mg_heap m \<noteq> []" using hp il by (auto simp: heap_ok_def)
    let ?c = "mg_heap m ! 0"
    have c: "?c \<in> live ess ps" by (rule heap_best(1) [OF hp ch ne il])
    have min: "Compare (fst (ess ! ?c ! ps ?c)) (fst (ess ! j ! ps j)) \<le> 0" if "j \<in> live ess ps" for j
      using heap_best(2) [OF hp ch ne that d] .
    have le: "Compare (fst (ess ! ?c ! ps ?c)) (fst (es ! cnt P es)) \<le> 0"
      using Compare_trans [OF min [OF il] ordered_le [OF oi r i(2)]] i(3) by simp
    have "ess ! ?c ! ps ?c \<in> set es" using c merged_mem [OF me] by (auto simp: live_def)
    then obtain q where q: "q < length es" "es ! q = ess ! ?c ! ps ?c" by (auto simp: in_set_conv_nth)
    have "cnt P es \<le> q" using not_P [OF c] cnt_nth [of q P es] q(2) by (metis not_le_imp_less)
    moreover have "\<not> cnt P es < q"
    proof
      assume "cnt P es < q"
      then have "Compare (fst (es ! cnt P es)) (fst (es ! q)) < 0" using o q(1) by (simp add: sorted_wrt_iff_nth_less)
      then show False using le q(2) Compare_less_iff by metis
    qed
    ultimately have e: "ess ! ?c ! ps ?c = es ! cnt P es" using q(2) by (metis le_neq_implies_less)
    have "placed ess kForward (fst (es ! cnt P es)) ps"
      unfolding placed_def
    proof (intro allI impI)
      fix j assume j: "j < length ess"
      have "cnt (\<lambda>a. Compare a (fst (es ! cnt P es)) < 0) (ess ! j) = ps j"
      proof (rule cnt_eq [OF children_ordered [OF ch j] cut_less])
        show "ps j \<le> length (ess ! j)" using ps [OF j] cnt_le by simp
        show "Compare (fst (ess ! j ! (ps j - 1))) (fst (es ! cnt P es)) < 0" if "0 < ps j"
        proof -
          have "P (fst (ess ! j ! (ps j - 1)))" using cnt_nth [of "ps j - 1" P "ess ! j"] ps [OF j] that by simp
          then show ?thesis using not_P [OF c] e P Compare_less_iff unfolding cut_def by metis
        qed
        show "\<not> Compare (fst (ess ! j ! ps j)) (fst (es ! cnt P es)) < 0" if "ps j < length (ess ! j)"
          using min [of j] that j e Compare_less_iff by (auto simp: live_def)
      qed
      then show "ps j = (case kForward of kForward \<Rightarrow> cnt (\<lambda>a. Compare a (fst (es ! cnt P es)) < 0) (ess ! j)
          | kReverse \<Rightarrow> last_pos (\<lambda>a. Compare a (fst (es ! cnt P es)) \<le> 0) (ess ! j))" by simp
    qed
    then have "mg_on es ess (FindSmallest m) ps ?c (cnt P es)"
      using me ch' hp' ne c N e d by (simp add: mg_on_def FindSmallest_def)
    then show ?thesis by blast
  qed
  show "mg_at es (FindSmallest m) (cnt P es)"
  proof (cases "cnt P es < length es")
    case True
    then show ?thesis using on me ch' unfolding mg_at_def by metis
  next
    case False
    have "mg_heap m = []"
    proof (rule ccontr)
      assume "mg_heap m \<noteq> []"
      then obtain c where c: "c \<in> live ess ps" using hp by (cases "mg_heap m") (auto simp: heap_ok_def)
      then have "ess ! c ! ps c \<in> set es" using merged_mem [OF me] by (auto simp: live_def)
      then obtain q where "q < length es" "es ! q = ess ! c ! ps c" by (auto simp: in_set_conv_nth)
      then show False using False not_P [OF c] cnt_nth [of q P es] by simp
    qed
    then show ?thesis using me ch' False cnt_le [of P es] unfolding mg_at_def by (auto simp: FindSmallest_def)
  qed
qed

lemma find_reverse:
  assumes me: "merged es ess" and ch: "children_at ess m ps" and hp: "heap_ok ess m (live ess ps)" and d: "mg_direction m = kReverse"
    and P: "cut P" and ps: "\<And>i. i < length ess \<Longrightarrow> ps i = last_pos P (ess ! i)"
  shows "mg_at es (FindLargest m) (last_pos P es)"
    and "0 < cnt P es \<Longrightarrow> \<exists>c. mg_on es ess (FindLargest m) ps c (last_pos P es)"
proof -
  have o: "ordered es" using me by (simp add: merged_def)
  have ch': "children_at ess (FindLargest m) ps" using ch by (simp add: children_at_def FindLargest_def)
  have hp': "heap_ok ess (FindLargest m) (live ess ps)"
  proof -
    have "HeapComparator Compare (FindLargest m) = HeapComparator Compare m" by (simp add: FindLargest_def HeapComparator_def fun_eq_iff)
    then show ?thesis using hp by (simp add: heap_ok_def FindLargest_def)
  qed
  have liveD: "0 < cnt P (ess ! i) \<and> ps i = cnt P (ess ! i) - 1 \<and> i < length ess" if "i \<in> live ess ps" for i
    using that ps [of i] by (auto simp: live_def last_pos_def split: if_splits)
  have is_P: "P (fst (ess ! i ! ps i))" if "i \<in> live ess ps" for i
    using liveD [OF that] cnt_nth [of "ps i" P "ess ! i"] by simp
  show on: "\<exists>c. mg_on es ess (FindLargest m) ps c (last_pos P es)" if N: "0 < cnt P es"
  proof -
    let ?n = "cnt P es - 1"
    have n: "?n < length es" "last_pos P es = ?n" using N cnt_le [of P es] by (simp_all add: last_pos_def)
    then have "es ! ?n \<in> set es" by simp
    then obtain i r where i: "i < length ess" "r < length (ess ! i)" "ess ! i ! r = es ! ?n"
      using merged_mem [OF me] by (metis in_set_conv_nth)
    have oi: "ordered (ess ! i)" by (rule children_ordered [OF ch i(1)])
    have "P (fst (ess ! i ! r))" using cnt_nth [of ?n P es] N i(3) by simp
    then have "r < cnt P (ess ! i)" using cnt_iff [OF P oi i(2)] by simp
    then have r: "r \<le> ps i" "ps i < length (ess ! i)" using ps [OF i(1)] cnt_le [of P "ess ! i"] by (simp_all add: last_pos_def)
    then have il: "i \<in> live ess ps" using i by (simp add: live_def)
    have ne: "mg_heap m \<noteq> []" using hp il by (auto simp: heap_ok_def)
    let ?c = "mg_heap m ! 0"
    have c: "?c \<in> live ess ps" by (rule heap_best(1) [OF hp ch ne il])
    have max: "Compare (fst (ess ! j ! ps j)) (fst (ess ! ?c ! ps ?c)) \<le> 0" if "j \<in> live ess ps" for j
      using heap_best(3) [OF hp ch ne that d] .
    have le: "Compare (fst (es ! ?n)) (fst (ess ! ?c ! ps ?c)) \<le> 0"
      using Compare_trans [OF ordered_le [OF oi r] max [OF il]] i(3) by simp
    have "ess ! ?c ! ps ?c \<in> set es" using c merged_mem [OF me] by (auto simp: live_def)
    then obtain q where q: "q < length es" "es ! q = ess ! ?c ! ps ?c" by (auto simp: in_set_conv_nth)
    have "q < cnt P es" using is_P [OF c] cnt_iff [OF P o q(1)] q(2) by simp
    moreover have "\<not> q < ?n"
    proof
      assume "q < ?n"
      then have "Compare (fst (es ! q)) (fst (es ! ?n)) < 0" using o n(1) by (simp add: sorted_wrt_iff_nth_less)
      then show False using le q(2) Compare_less_iff [of "fst (es ! q)" "fst (es ! ?n)"] by simp
    qed
    ultimately have "q = ?n" by simp
    then have e: "ess ! ?c ! ps ?c = es ! ?n" using q(2) by simp
    have "placed ess kReverse (fst (es ! ?n)) ps"
      unfolding placed_def
    proof (intro allI impI)
      fix j assume j: "j < length ess"
      have "cnt (\<lambda>a. Compare a (fst (es ! ?n)) \<le> 0) (ess ! j) = cnt P (ess ! j)"
      proof (rule cnt_eq [OF children_ordered [OF ch j] cut_le cnt_le])
        show "Compare (fst (ess ! j ! (cnt P (ess ! j) - 1))) (fst (es ! ?n)) \<le> 0" if "0 < cnt P (ess ! j)"
        proof -
          have "ps j = cnt P (ess ! j) - 1" "ps j < length (ess ! j)"
            using ps [OF j] that cnt_le [of P "ess ! j"] by (simp_all add: last_pos_def)
          then show ?thesis using max [of j] j e by (simp add: live_def)
        qed
        show "\<not> Compare (fst (ess ! j ! cnt P (ess ! j))) (fst (es ! ?n)) \<le> 0" if "cnt P (ess ! j) < length (ess ! j)"
          using cnt_nth_not [OF that] is_P [OF c] e P unfolding cut_def by metis
      qed
      then show "ps j = (case kReverse of kForward \<Rightarrow> cnt (\<lambda>a. Compare a (fst (es ! ?n)) < 0) (ess ! j)
          | kReverse \<Rightarrow> last_pos (\<lambda>a. Compare a (fst (es ! ?n)) \<le> 0) (ess ! j))" using ps [OF j] by (simp add: last_pos_def)
    qed
    then have "mg_on es ess (FindLargest m) ps ?c (last_pos P es)"
      using me ch' hp' ne c n e d by (simp add: mg_on_def FindLargest_def)
    then show ?thesis by blast
  qed
  show "mg_at es (FindLargest m) (last_pos P es)"
  proof (cases "0 < cnt P es")
    case True
    then have "last_pos P es < length es" using cnt_le [of P es] by (simp add: last_pos_def)
    then show ?thesis using on [OF True] me ch' unfolding mg_at_def by metis
  next
    case False
    have "mg_heap m = []"
    proof (rule ccontr)
      assume "mg_heap m \<noteq> []"
      then obtain c where c: "c \<in> live ess ps" using hp by (cases "mg_heap m") (auto simp: heap_ok_def)
      then have "ess ! c ! ps c \<in> set es" using merged_mem [OF me] by (auto simp: live_def)
      then obtain q where "q < length es" "es ! q = ess ! c ! ps c" by (auto simp: in_set_conv_nth)
      then show False using False is_P [OF c] cnt_iff [OF P o] by fastforce
    qed
    then show ?thesis using me ch' False unfolding mg_at_def by (auto simp: FindLargest_def last_pos_def)
  qed
qed

section \<open>The operations\<close>

lemma each_at:
  assumes "children_at ess m ps"
    and "\<And>i w. i < length ess \<Longrightarrow> iw_at (ess ! i) w (ps i) \<Longrightarrow> w = mg_children m ! i \<Longrightarrow> \<exists>w'. f i w = Some w' \<and> iw_at (ess ! i) w' (qs i)"
  shows "\<exists>ws. each_child 0 f (mg_children m) = Some ws \<and> (\<forall>d. children_at ess (m\<lparr>mg_children := ws, mg_direction := d\<rparr>) qs)"
proof -
  have len: "length (mg_children m) = length ess" using assms(1) by (simp add: children_at_def)
  have "\<exists>ws. each_child 0 f (mg_children m) = Some ws \<and> length ws = length (mg_children m) \<and>
      (\<forall>j < length (mg_children m). iw_at (ess ! j) (ws ! j) (qs j))"
    by (rule each_child_all) (use assms len in \<open>auto simp: children_at_def\<close>)
  then show ?thesis using assms(1) len by (fastforce simp: children_at_def)
qed

lemma mg_onD:
  assumes "mg_on es ess m ps c p"
  shows "merged es ess" and "children_at ess m ps" and "c < length ess" and "ps c < length (ess ! c)" and "ess ! c ! ps c = es ! p"
    and "p < length es" and "mg_current m = Some c" and "MG_key m = fst (es ! p)" and "MG_value I m = snd (es ! p)"
    and "seekable (fst (es ! p))" and "iw_at (ess ! c) (mg_children m ! c) (ps c)"
    and "i < length ess \<Longrightarrow> i \<noteq> c \<Longrightarrow> \<forall>e \<in> set (ess ! i). Compare (fst e) (fst (es ! p)) \<noteq> 0"
proof -
  show m: "merged es ess" and ch: "children_at ess m ps" and c: "c < length ess" and pc: "ps c < length (ess ! c)"
    and e: "ess ! c ! ps c = es ! p" and p: "p < length es" and cur: "mg_current m = Some c"
    using assms by (auto simp: mg_on_def live_def)
  show w: "iw_at (ess ! c) (mg_children m ! c) (ps c)" using ch c by (simp add: children_at_def)
  show "MG_key m = fst (es ! p)" "MG_value I m = snd (es ! p)"
    using iw_atD(2,3) [OF w pc] e cur by (simp_all add: MG_key_def MG_value_def)
  show "seekable (fst (es ! p))" using iw_atD(8) [OF w nth_mem [OF pc]] e by simp
  show "\<forall>e \<in> set (ess ! i). Compare (fst e) (fst (es ! p)) \<noteq> 0" if "i < length ess" "i \<noteq> c"
  proof (intro ballI notI)
    fix x assume "x \<in> set (ess ! i)" "Compare (fst x) (fst (es ! p)) = 0"
    then show False using merged_key_unique [OF m that(1) c _ nth_mem [OF pc], of x] e that(2) by simp
  qed
qed

lemma mg_on_at: "mg_on es ess m ps c p \<Longrightarrow> mg_at es m p"
  using mg_onD unfolding mg_at_def by metis

lemma mg_at_children: "mg_at es m p \<Longrightarrow> \<exists>ess ps. merged es ess \<and> children_at ess m ps"
  by (auto simp: mg_at_def)

lemma mg_seek:
  assumes "merged es ess" and "children_at ess m ps"
    and "\<And>es w q. iw_at es w q \<Longrightarrow> \<exists>w'. f w = Some w' \<and> iw_at es w' (cnt P es)" and "cut P"
  shows "\<exists>ws. each_child 0 (\<lambda>_. f) (mg_children m) = Some ws \<and>
    mg_at es (FindSmallest (ReinitializeComparisons Compare knum (m\<lparr>mg_children := ws, mg_direction := kForward\<rparr>))) (cnt P es)"
proof -
  obtain ws where ws: "each_child 0 (\<lambda>_. f) (mg_children m) = Some ws"
    "children_at ess (m\<lparr>mg_children := ws, mg_direction := kForward\<rparr>) (\<lambda>i. cnt P (ess ! i))"
    using each_at [OF assms(2), of "\<lambda>_. f" "\<lambda>i. cnt P (ess ! i)"] assms(3) by blast
  note R = Reinitialize_ok [OF ws(2)]
  show ?thesis using find_forward(1) [OF assms(1) R(1,2) _ assms(4)] R(3) ws(1) by simp
qed

lemma mg_SeekToFirst:
  assumes "mg_at es m p"
  shows "\<exists>m'. MG_SeekToFirst Compare knum I m = Some m' \<and> mg_at es m' 0"
proof -
  obtain ess ps where m: "merged es ess" "children_at ess m ps" using mg_at_children [OF assms] by blast
  have "cnt (\<lambda>_. False) xs = 0" for xs by (cases xs) (simp_all add: cnt_def)
  then show ?thesis
    using mg_seek [OF m, of "IW_SeekToFirst I" "\<lambda>_. False"] IW_ops_at(1) cut_none by (auto simp: MG_SeekToFirst_def)
qed

lemma mg_Seek:
  assumes "mg_at es m p" and "seekable k"
  shows "\<exists>m'. MG_Seek Compare knum I k m = Some m' \<and> mg_at es m' (below Compare k es)"
proof -
  obtain ess ps where m: "merged es ess" "children_at ess m ps" using mg_at_children [OF assms(1)] by blast
  show ?thesis
    using mg_seek [OF m, of "IW_Seek I k" "\<lambda>a. Compare a k < 0"] IW_ops_at(3) [OF _ assms(2)] cut_less
    by (auto simp: MG_Seek_def SeekInSequence_def cnt_below)
qed

lemma mg_SeekToLast:
  assumes "mg_at es m p"
  shows "\<exists>m'. MG_SeekToLast Compare knum I m = Some m' \<and> mg_at es m' (length es - 1)"
proof -
  obtain ess ps where m: "merged es ess" "children_at ess m ps" using mg_at_children [OF assms] by blast
  have "cnt (\<lambda>_. True) xs = length xs" for xs by (induction xs) (simp_all add: cnt_def)
  then have l: "last_pos (\<lambda>_. True) xs = length xs - 1" for xs by (simp add: last_pos_def)
  obtain ws where ws: "each_child 0 (\<lambda>_. IW_SeekToLast I) (mg_children m) = Some ws"
    "children_at ess (m\<lparr>mg_children := ws, mg_direction := kReverse\<rparr>) (\<lambda>i. length (ess ! i) - 1)"
    using each_at [OF m(2), of "\<lambda>_. IW_SeekToLast I" "\<lambda>i. length (ess ! i) - 1"] IW_ops_at(2) by blast
  note R = Reinitialize_ok [OF ws(2)]
  show ?thesis
    using find_reverse(1) [OF m(1) R(1,2) _ cut_all] R(3) ws(1) by (simp add: MG_SeekToLast_def l)
qed

lemma turn_forward_on:
  assumes "mg_on es ess m ps c p"
  shows "\<exists>m' qs. turn_forward Compare knum I m = Some m' \<and> mg_on es ess m' qs c p \<and> mg_direction m' = kForward"
proof (cases "mg_direction m")
  case kForward
  then show ?thesis using assms by (auto simp: turn_forward_def)
next
  case kReverse
  note D = mg_onD [OF assms]
  let ?k = "fst (es ! p)" and ?qs = "\<lambda>i. cnt (\<lambda>a. Compare a (fst (es ! p)) < 0) (ess ! i)"
  have o: "ordered es" using D(1) by (simp add: merged_def)
  have qc: "?qs c = ps c" using cnt_at_key(1) [OF iw_atD(6) [OF D(11)] D(4)] D(5) by simp
  have "\<exists>ws. each_child 0 (\<lambda>i child. if Some i \<noteq> mg_current m then after_key Compare I (MG_key m) child else Some child) (mg_children m) =
      Some ws \<and> (\<forall>d. children_at ess (m\<lparr>mg_children := ws, mg_direction := d\<rparr>) ?qs)"
  proof (rule each_at [OF D(2)])
    fix i w assume i: "i < length ess" "iw_at (ess ! i) w (ps i)" "w = mg_children m ! i"
    show "\<exists>w'. (if Some i \<noteq> mg_current m then after_key Compare I (MG_key m) w else Some w) = Some w' \<and> iw_at (ess ! i) w' (?qs i)"
    proof (cases "i = c")
      case True
      then show ?thesis using i(2) qc D(7) by simp
    next
      case False
      obtain w' where w': "IW_Seek I ?k w = Some w'" "iw_at (ess ! i) w' (?qs i)"
        using IW_ops_at(3) [OF i(2) D(10)] by (auto simp: cnt_below)
      have "\<not> (iw_valid w' \<and> Compare ?k (iw_key w') = 0)"
      proof
        assume v: "iw_valid w' \<and> Compare ?k (iw_key w') = 0"
        then have q: "?qs i < length (ess ! i)" using iw_atD(1) [OF w'(2)] by simp
        have "Compare (fst (ess ! i ! ?qs i)) ?k \<noteq> 0" using D(12) [OF i(1) False] nth_mem [OF q] by blast
        then show False using v iw_atD(2) [OF w'(2) q] Compare_zero_sym by metis
      qed
      then show ?thesis using w' False D(7,8) by (auto simp: after_key_def)
    qed
  qed
  then obtain ws where ws: "each_child 0 (\<lambda>i child. if Some i \<noteq> mg_current m then after_key Compare I (MG_key m) child else Some child) (mg_children m) = Some ws"
    "children_at ess (m\<lparr>mg_children := ws, mg_direction := kForward\<rparr>) ?qs" by blast
  let ?m = "ReinitializeComparisons Compare knum (m\<lparr>mg_children := ws, mg_direction := kForward\<rparr>)"
  note R = Reinitialize_ok [OF ws(2)]
  have n: "cnt (\<lambda>a. Compare a ?k < 0) es = p" by (rule cnt_at_key(1) [OF o D(6)])
  obtain c' where on: "mg_on es ess (FindSmallest ?m) ?qs c' p"
    using find_forward(2) [OF D(1) R(1,2) _ cut_less, of ?k] R(3) D(6) n by auto
  have "c' = c"
  proof (rule merged_key_unique [OF D(1) mg_onD(3) [OF on] D(3)])
    show "es ! p \<in> set (ess ! c')" using mg_onD(4,5) [OF on] nth_mem by metis
    show "es ! p \<in> set (ess ! c)" using D(4,5) nth_mem by metis
  qed (rule Compare_refl)
  moreover have "FindSmallest ?m = ?m"
    using on \<open>c' = c\<close> R(4) D(7) by (simp add: mg_on_def FindSmallest_def)
  ultimately show ?thesis using on R(3) ws(1) kReverse by (auto simp: turn_forward_def)
qed

lemma move_on:
  assumes on: "mg_on es ess m ps c p" and f: "\<And>w. iw_at (ess ! c) w (ps c) \<Longrightarrow> \<exists>w'. f w = Some w' \<and> iw_at (ess ! c) w' q"
  shows "\<exists>m'. move_current f (PopCurrentComparison Compare m) = Some m' \<and>
    children_at ess (PushCurrentComparison Compare knum m') (ps(c := q)) \<and>
    heap_ok ess (PushCurrentComparison Compare knum m') (live ess (ps(c := q))) \<and>
    mg_direction (PushCurrentComparison Compare knum m') = mg_direction m"
proof -
  note D = mg_onD [OF on]
  obtain w where w: "f (mg_children m ! c) = Some w" "iw_at (ess ! c) w q" using f [OF D(11)] by blast
  let ?m = "(PopCurrentComparison Compare m)\<lparr>mg_children := (mg_children m)[c := w]\<rparr>"
  have mv: "move_current f (PopCurrentComparison Compare m) = Some ?m"
    using w(1) D(7) by (simp add: move_current_def PopCurrentComparison_def)
  have h: "heap_ok ess m (live ess ps)" "mg_heap m \<noteq> []" "mg_heap m ! 0 = c" using on by (simp_all add: mg_on_def)
  have len: "c < length (mg_children m)" "length (mg_comparisons m) = length (mg_children m)"
    using D(2,3) by (simp_all add: children_at_def)
  note PP = pop_push_ok [OF h D(7) len, of w]
  have "(if iw_valid w then live ess ps else live ess ps - {c}) = live ess (ps(c := q))"
    using iw_atD(1) [OF w(2)] D(3,4) by (auto simp: live_def split: if_splits)
  moreover have "children_at ess (PushCurrentComparison Compare knum ?m) (ps(c := q))"
    using PP(2-4) D(2) w(2) by (auto simp: children_at_def nth_list_update)
  ultimately show ?thesis using mv PP(1,5) by auto
qed

lemma mg_Next:
  assumes "mg_at es m p" and "p < length es"
  shows "\<exists>m'. MG_Next Compare knum I m = Some m' \<and> mg_at es m' (p + 1)"
proof -
  obtain ess ps0 c where "mg_on es ess m ps0 c p" using assms unfolding mg_at_def by auto
  then obtain m1 ps where m1: "turn_forward Compare knum I m = Some m1" "mg_on es ess m1 ps c p" "mg_direction m1 = kForward"
    using turn_forward_on by blast
  note D = mg_onD [OF m1(2)]
  let ?k = "fst (es ! p)" and ?qs = "ps(c := ps c + 1)"
  obtain m2 where m2: "move_current (IW_Next I) (PopCurrentComparison Compare m1) = Some m2"
    "children_at ess (PushCurrentComparison Compare knum m2) ?qs"
    "heap_ok ess (PushCurrentComparison Compare knum m2) (live ess ?qs)"
    "mg_direction (PushCurrentComparison Compare knum m2) = mg_direction m1"
    using move_on [OF m1(2), of "IW_Next I" "ps c + 1"] IW_ops_at(4) [OF _ D(4)] by blast
  have "?qs i = cnt (\<lambda>a. Compare a ?k \<le> 0) (ess ! i)" if i: "i < length ess" for i
  proof (cases "i = c")
    case True
    then show ?thesis using cnt_at_key(2) [OF iw_atD(6) [OF D(11)] D(4)] D(5) by simp
  next
    case False
    have "ps i = cnt (\<lambda>a. Compare a ?k < 0) (ess ! i)" using m1(2,3) i by (simp add: mg_on_def placed_def)
    then show ?thesis using False cnt_less_le [OF children_ordered [OF D(2) i] D(12) [OF i False]] by simp
  qed
  moreover have "cnt (\<lambda>a. Compare a ?k \<le> 0) es = p + 1"
    using cnt_at_key(2) [OF _ D(6)] D(1) by (simp add: merged_def)
  ultimately have "mg_at es (FindSmallest (PushCurrentComparison Compare knum m2)) (p + 1)"
    using find_forward(1) [OF D(1) m2(2,3) _ cut_le, of ?k] m2(4) m1(3) by simp
  then show ?thesis using m1(1) m2(1) by (simp add: MG_Next_def)
qed

lemma last_pos_less_le:
  assumes "ordered xs" and "\<forall>e \<in> set xs. Compare (fst e) k \<noteq> 0"
  shows "last_pos (\<lambda>a. Compare a k \<le> 0) xs = last_pos (\<lambda>a. Compare a k < 0) xs"
  using cnt_less_le [OF assms] by (simp add: last_pos_def)

lemma before_key_at:
  assumes "iw_at xs w q" and "seekable k"
  shows "\<exists>w'. before_key I k w = Some w' \<and> iw_at xs w' (last_pos (\<lambda>a. Compare a k < 0) xs)"
proof -
  let ?q = "below Compare k xs"
  obtain w1 where w1: "IW_Seek I k w = Some w1" "iw_at xs w1 ?q" using IW_ops_at(3) [OF assms] by blast
  show ?thesis
  proof (cases "?q < length xs")
    case True
    then show ?thesis
      using IW_ops_at(5) [OF w1(2) True] iw_atD(1) [OF w1(2)] w1(1)
      unfolding last_pos_def cnt_below by (simp add: before_key_def split del: if_split)
  next
    case False
    then have "?q = length xs" using below_le [of Compare k xs] by simp
    then have "last_pos (\<lambda>a. Compare a k < 0) xs = length xs - 1" by (simp add: last_pos_def cnt_below)
    then show ?thesis using IW_ops_at(2) [OF w1(2)] iw_atD(1) [OF w1(2)] w1(1) False by (simp add: before_key_def)
  qed
qed

lemma turn_reverse_on:
  assumes "mg_on es ess m ps c p"
  shows "\<exists>m' qs. turn_reverse Compare knum I m = Some m' \<and> mg_on es ess m' qs c p \<and> mg_direction m' = kReverse"
proof (cases "mg_direction m")
  case kReverse
  then show ?thesis using assms by (auto simp: turn_reverse_def)
next
  case kForward
  note D = mg_onD [OF assms]
  let ?k = "fst (es ! p)" and ?qs = "\<lambda>i. last_pos (\<lambda>a. Compare a (fst (es ! p)) \<le> 0) (ess ! i)"
  have o: "ordered es" using D(1) by (simp add: merged_def)
  have qc: "?qs c = ps c" using cnt_at_key(2) [OF iw_atD(6) [OF D(11)] D(4)] D(5) by (simp add: last_pos_def)
  have "\<exists>ws. each_child 0 (\<lambda>i child. if Some i \<noteq> mg_current m then before_key I (MG_key m) child else Some child) (mg_children m) =
      Some ws \<and> (\<forall>d. children_at ess (m\<lparr>mg_children := ws, mg_direction := d\<rparr>) ?qs)"
  proof (rule each_at [OF D(2)])
    fix i w assume i: "i < length ess" "iw_at (ess ! i) w (ps i)" "w = mg_children m ! i"
    show "\<exists>w'. (if Some i \<noteq> mg_current m then before_key I (MG_key m) w else Some w) = Some w' \<and> iw_at (ess ! i) w' (?qs i)"
    proof (cases "i = c")
      case True
      then show ?thesis using i(2) qc D(7) by simp
    next
      case False
      then show ?thesis
        using before_key_at [OF i(2) D(10)] last_pos_less_le [OF children_ordered [OF D(2) i(1)] D(12) [OF i(1) False]] D(7,8) by simp
    qed
  qed
  then obtain ws where ws: "each_child 0 (\<lambda>i child. if Some i \<noteq> mg_current m then before_key I (MG_key m) child else Some child) (mg_children m) = Some ws"
    "children_at ess (m\<lparr>mg_children := ws, mg_direction := kReverse\<rparr>) ?qs" by blast
  let ?m = "ReinitializeComparisons Compare knum (m\<lparr>mg_children := ws, mg_direction := kReverse\<rparr>)"
  note R = Reinitialize_ok [OF ws(2)]
  have n: "cnt (\<lambda>a. Compare a ?k \<le> 0) es = p + 1" by (rule cnt_at_key(2) [OF o D(6)])
  then have l: "last_pos (\<lambda>a. Compare a ?k \<le> 0) es = p" by (simp add: last_pos_def)
  obtain c' where on: "mg_on es ess (FindLargest ?m) ?qs c' p"
    using find_reverse(2) [OF D(1) R(1,2) _ cut_le, of ?k] R(3) n l by auto
  have "c' = c"
  proof (rule merged_key_unique [OF D(1) mg_onD(3) [OF on] D(3)])
    show "es ! p \<in> set (ess ! c')" using mg_onD(4,5) [OF on] nth_mem by metis
    show "es ! p \<in> set (ess ! c)" using D(4,5) nth_mem by metis
  qed (rule Compare_refl)
  moreover have "FindLargest ?m = ?m"
    using on \<open>c' = c\<close> R(4) D(7) by (simp add: mg_on_def FindLargest_def)
  ultimately show ?thesis using on R(3) ws(1) kForward by (auto simp: turn_reverse_def)
qed

lemma mg_Prev:
  assumes "mg_at es m p" and "p < length es"
  shows "\<exists>m'. MG_Prev Compare knum I m = Some m' \<and> mg_at es m' (if p = 0 then length es else p - 1)"
proof -
  obtain ess ps0 c where "mg_on es ess m ps0 c p" using assms unfolding mg_at_def by auto
  then obtain m1 ps where m1: "turn_reverse Compare knum I m = Some m1" "mg_on es ess m1 ps c p" "mg_direction m1 = kReverse"
    using turn_reverse_on by blast
  note D = mg_onD [OF m1(2)]
  let ?k = "fst (es ! p)" and ?qs = "ps(c := if ps c = 0 then length (ess ! c) else ps c - 1)"
  obtain m2 where m2: "move_current (IW_Prev I) (PopCurrentComparison Compare m1) = Some m2"
    "children_at ess (PushCurrentComparison Compare knum m2) ?qs"
    "heap_ok ess (PushCurrentComparison Compare knum m2) (live ess ?qs)"
    "mg_direction (PushCurrentComparison Compare knum m2) = mg_direction m1"
    using move_on [OF m1(2), of "IW_Prev I" "if ps c = 0 then length (ess ! c) else ps c - 1"] IW_ops_at(5) [OF _ D(4)] by blast
  have "?qs i = last_pos (\<lambda>a. Compare a ?k < 0) (ess ! i)" if i: "i < length ess" for i
  proof (cases "i = c")
    case True
    then show ?thesis using cnt_at_key(1) [OF iw_atD(6) [OF D(11)] D(4)] D(5) by (simp add: last_pos_def)
  next
    case False
    have "ps i = last_pos (\<lambda>a. Compare a ?k \<le> 0) (ess ! i)" using m1(2,3) i by (simp add: mg_on_def placed_def)
    then show ?thesis using False last_pos_less_le [OF children_ordered [OF D(2) i] D(12) [OF i False]] by simp
  qed
  moreover have "last_pos (\<lambda>a. Compare a ?k < 0) es = (if p = 0 then length es else p - 1)"
    using cnt_at_key(1) [OF _ D(6)] D(1) by (simp add: merged_def last_pos_def)
  ultimately have "mg_at es (FindLargest (PushCurrentComparison Compare knum m2)) (if p = 0 then length es else p - 1)"
    using find_reverse(1) [OF D(1) m2(2,3) _ cut_less, of ?k] m2(4) m1(3) by simp
  then show ?thesis using m1(1) m2(1) by (simp add: MG_Prev_def)
qed

lemma mg_reads:
  assumes "mg_at es m p"
  shows "ordered es" and "e \<in> set es \<Longrightarrow> seekable (fst e)" and "p \<le> length es" and "mg_current m \<noteq> None \<longleftrightarrow> p < length es"
    and "p < length es \<Longrightarrow> MG_key m = fst (es ! p)" and "p < length es \<Longrightarrow> MG_value I m = snd (es ! p)" and "MG_Status I m = OK"
proof -
  obtain ess ps where m: "merged es ess" "children_at ess m ps"
    "if p < length es then \<exists>c. mg_on es ess m ps c p else mg_current m = None \<and> p = length es" using assms by (auto simp: mg_at_def)
  have w: "iw_at (ess ! i) (mg_children m ! i) (ps i)" if "i < length ess" for i using m(2) that by (simp add: children_at_def)
  show "ordered es" using m(1) by (simp add: merged_def)
  show "seekable (fst e)" if "e \<in> set es"
    using that merged_mem [OF m(1)] iw_atD(8) [OF w] by blast
  show "p \<le> length es" using m(3) by (simp split: if_splits)
  show "mg_current m \<noteq> None \<longleftrightarrow> p < length es" "p < length es \<Longrightarrow> MG_key m = fst (es ! p)"
    "p < length es \<Longrightarrow> MG_value I m = snd (es ! p)"
    using m(3) mg_onD(7-9) by (auto split: if_splits)
  have "\<forall>c \<in> set (mg_children m). ok (IW_status I c)"
    using iw_atD(4) [OF w] m(2) by (auto simp: in_set_conv_nth children_at_def ok_def)
  then have "find (\<lambda>c. \<not> ok (IW_status I c)) (mg_children m) = None" by (simp add: find_None_iff)
  then show "MG_Status I m = OK" using m(2) by (simp add: MG_Status_def children_at_def)
qed

lemma merging_contract: "iterator (merging_iterator Compare knum I) Compare seekable mg_at"
  using mg_reads(1,2) by unfold_locales
    (simp_all add: merging_iterator_def mg_reads(3-7) mg_SeekToFirst mg_SeekToLast [simplified] mg_Seek mg_Next [simplified]
      mg_Prev del: not_None_eq)

lemma mk_MergingIterator_at:
  assumes "merged es ess" and "length children = length ess" and "\<And>i. i < length ess \<Longrightarrow> \<exists>p. at (ess ! i) (children ! i) p"
  shows "mg_at es (mk_MergingIterator Compare knum I children) (length es)"
proof -
  obtain ps where "\<And>i. i < length ess \<Longrightarrow> at (ess ! i) (children ! i) (ps i)" using assms(3) by metis
  then have "children_at ess \<lparr>mg_children = map (\<lambda>c. mk_IteratorWrapper I (Some c)) children, mg_comparisons = replicate (length children) 0,
       mg_heap = [], mg_current = None, mg_status = OK, mg_direction = kForward\<rparr> ps"
    using assms(2) mk_IteratorWrapper_at by (simp add: children_at_def)
  note R = Reinitialize_ok [OF this]
  show ?thesis using R(1,4) assms(1) unfolding mg_at_def mk_MergingIterator_def by auto
qed

end

section \<open>The merging iterators of a database\<close>

text \<open>The children of the internal iterator of a database are memtable iterators and iterators over
  tables, objects of several classes.  Its comparator is the internal key comparator.\<close>

interpretation mrg: merging "InternalKey_Compare Slice_compare" key_fits obj_iterator
  "obj_at (InternalKey_Compare Slice_compare) key_fits" Comparator_KeyNum
  by (intro merging.intro merging_axioms.intro ikey.internal.key_comparator_axioms obj.iterator_axioms)
    (simp add: Comparator_KeyNum_def)

interpretation heap: weak_order "HeapComparator (InternalKey_Compare Slice_compare) m" for m
  by (rule mrg.HeapComparator_weak)

lemma MemTable_Adds_iterator:
  assumes "\<forall>e \<in> set es. item_ok e" and "distinct (map item_key es)"
  shows "\<exists>mt ss. MemTable_Adds Slice_compare KeyNum (mk_MemTable KeyNum) es = Some mt \<and> mset ss = mset es \<and>
    mti_at (map item_pair ss) \<lparr>mti_table = mt, mti_node = None\<rparr> (length es)"
proof -
  obtain mt where mt: "MemTable_Adds Slice_compare KeyNum (mk_MemTable KeyNum) es = Some mt" "mt_rep mt es"
    using Adds_rep [OF mk_MemTable_rep assms, of KeyNum] by auto
  then show ?thesis using mem_NewIterator_at [OF mt(2)] assms(2) by (auto simp: distinct_map)
qed

text \<open>Two children to try the iterators on: a memtable and a block.\<close>

definition sample_items :: "mem_item list" where
  "sample_items = [([5], 9, kTypeValue, [11]), ([3], 8, kTypeDeletion, [])]"

definition sample_block :: "(bytes \<times> bytes) list" where
  "sample_block = map item_pair [([3], 2, kTypeValue, [30]), ([4], 7, kTypeValue, [20]), ([5], 1, kTypeValue, [10])]"

definition sample_merged :: "(bytes \<times> bytes) list" where
  "sample_merged = map item_pair [([3], 8, kTypeDeletion, []), ([3], 2, kTypeValue, [30]), ([4], 7, kTypeValue, [20]),
     ([5], 9, kTypeValue, [11]), ([5], 1, kTypeValue, [10])]"

definition sample_children :: "MemTable \<Rightarrow> ((MemTableIterator + AnyBlockIter) Iterator \<times> (MemTableIterator + AnyBlockIter)) list" where
  "sample_children mt = map (Pair (either_iterator (mem_iterator Slice_compare KeyNum) (block_iterator (InternalKey_Compare Slice_compare))))
     [Inl \<lparr>mti_table = mt, mti_node = None\<rparr>, Inr (Block_NewIterator (mk_Block (block_of 16 sample_block)))]"

lemma sample_merged_sorted: "sorted_wrt (\<lambda>a b. InternalKey_Compare Slice_compare (fst a) (fst b) < 0) sample_merged"
  by (simp add: sample_merged_def InternalKey_Compare_eq constants)

lemma sample_children_at:
  "\<exists>mt ess. MemTable_Adds Slice_compare KeyNum (mk_MemTable KeyNum) sample_items = Some mt \<and>
    list_all2 (\<lambda>es c. \<exists>p. obj_at (InternalKey_Compare Slice_compare) key_fits es c p) ess (sample_children mt) \<and>
    mset sample_merged = mset (concat ess)"
proof -
  let ?cmp = "InternalKey_Compare Slice_compare"
  let ?E = "either_iterator (mem_iterator Slice_compare KeyNum) (block_iterator ?cmp)"
  have "\<forall>e \<in> set sample_items. item_ok e" "distinct (map item_key sample_items)"
    by (simp_all add: sample_items_def PackSequenceAndType_pre_def constants)
  from MemTable_Adds_iterator [OF this] obtain mt ss
    where mt: "MemTable_Adds Slice_compare KeyNum (mk_MemTable KeyNum) sample_items = Some mt" "mset ss = mset sample_items"
      "mti_at (map item_pair ss) \<lparr>mti_table = mt, mti_node = None\<rparr> (length sample_items)" by blast
  have E: "iterator ?E ?cmp key_fits (either_at mti_at (abi_at ?cmp key_fits))"
    by (rule either_iterator_contract [OF memiter.iterator_axioms blockiter.iterator_axioms])
  have "abi_at ?cmp key_fits sample_block (Block_NewIterator (mk_Block (block_of 16 sample_block))) (length sample_block)"
    using block_of_length [of 16 sample_block]
    by (intro ikey.internal.block_of_abi_at) (simp_all add: key_fits_def sample_block_def InternalKey_Compare_eq constants)
  then have "list_all2 (\<lambda>es c. \<exists>p. obj_at ?cmp key_fits es c p) [map item_pair ss, sample_block] (sample_children mt)"
    using mt(3) by (auto intro!: obj_atI [OF E] exI simp: either_at_def sample_children_def)
  moreover have "mset (map item_pair ss) = mset (map item_pair sample_items)" using mt(2) by (metis mset_map)
  then have "mset sample_merged = mset (concat [map item_pair ss, sample_block])"
    by (simp add: sample_merged_def sample_items_def sample_block_def)
  ultimately show ?thesis using mt(1) by blast
qed

text \<open>C3: a merging iterator over children that keep the iterator contract is, for its client, a
  cursor over the sorted merge of what the children hold: every sequence of moves that a cursor allows,
  in both directions and with changes of direction, returns and leads to the entry the cursor
  stands at.\<close>

theorem merging_iteration:
  assumes "list_all2 (\<lambda>es c. \<exists>p. obj_at (InternalKey_Compare Slice_compare) key_fits es c p) ess children"
    and "sorted_wrt (\<lambda>a b. InternalKey_Compare Slice_compare (fst a) (fst b) < 0) es" and "mset es = mset (concat ess)"
    and "seeks key_fits ms" and "cursor_moves (InternalKey_Compare Slice_compare) es ms (length es) = Some q"
  shows "\<exists>m. it_moves (merging_iterator (InternalKey_Compare Slice_compare) Comparator_KeyNum obj_iterator) ms
      (mk_MergingIterator (InternalKey_Compare Slice_compare) Comparator_KeyNum obj_iterator children) = Some m \<and>
    it_entry (merging_iterator (InternalKey_Compare Slice_compare) Comparator_KeyNum obj_iterator) m = cursor_entry es q \<and>
    it_status (merging_iterator (InternalKey_Compare Slice_compare) Comparator_KeyNum obj_iterator) m = OK"
proof (rule iterator.it_moves_entry [OF mrg.merging_contract _ assms(5,4)])
  show "mrg.mg_at es (mk_MergingIterator (InternalKey_Compare Slice_compare) Comparator_KeyNum obj_iterator children) (length es)"
    using assms(1-3) by (intro mrg.mk_MergingIterator_at) (auto simp: mrg.merged_def list_all2_conv_all_nth)
qed

theorem merging_iteration_witness:
  "\<exists>mt m. MemTable_Adds Slice_compare KeyNum (mk_MemTable KeyNum) sample_items = Some mt \<and>
    it_moves (merging_iterator (InternalKey_Compare Slice_compare) Comparator_KeyNum obj_iterator)
      [MSeekToFirst, MNext, MNext, MPrev]
      (mk_MergingIterator (InternalKey_Compare Slice_compare) Comparator_KeyNum obj_iterator (sample_children mt)) = Some m \<and>
    it_entry (merging_iterator (InternalKey_Compare Slice_compare) Comparator_KeyNum obj_iterator) m =
      Some (InternalKey [3] 2 kTypeValue, [30])"
proof -
  obtain mt ess where mt: "MemTable_Adds Slice_compare KeyNum (mk_MemTable KeyNum) sample_items = Some mt"
    "list_all2 (\<lambda>es c. \<exists>p. obj_at (InternalKey_Compare Slice_compare) key_fits es c p) ess (sample_children mt)"
    "mset sample_merged = mset (concat ess)" using sample_children_at by blast
  have mv: "seeks key_fits [MSeekToFirst, MNext, MNext, MPrev]"
    "cursor_moves (InternalKey_Compare Slice_compare) sample_merged [MSeekToFirst, MNext, MNext, MPrev] (length sample_merged) = Some 1"
    by (simp_all add: seeks_def sample_merged_def)
  have "cursor_entry sample_merged 1 = Some (InternalKey [3] 2 kTypeValue, [30])" by (simp add: cursor_entry_def sample_merged_def)
  then show ?thesis using merging_iteration [OF mt(2) sample_merged_sorted mt(3) mv] mt(1) by auto
qed

end
