(* ===== verification/DBIterator.thy ===== *)
theory DBIterator
  imports Merger
begin

text \<open>
  The iterator of a database, \<^verbatim>\<open>db/db_iter.cc\<close>: over the internal entries of all memtables
  and tables it shows, for every user key, the newest value that is visible at its sequence number.
  The calls of \<open>DBImpl::RecordReadSample\<close>, which only schedule compactions, are kept as a list of
  the keys passed.  The capacity of \<open>saved_value_\<close> has no effect on its contents.
\<close>

section \<open>State and operations\<close>

definition kReadBytesPeriod :: u32 where [constants]: "kReadBytesPeriod = 1048576"

definition Uniform :: "u32 \<Rightarrow> u32 \<Rightarrow> u32 \<times> u32" where
  "Uniform n seed = (let seed = Random_Next seed in (seed mod n, seed))"

datatype DBIter_Direction = kForward | kReverse

record 's DBIter =
  di_iter :: 's
  di_sequence :: SequenceNumber
  di_status :: Status
  di_saved_key :: bytes
  di_saved_value :: bytes
  di_direction :: DBIter_Direction
  di_valid :: bool
  di_rnd :: u32
  di_bytes_counter :: int
  di_tombstones_counter :: int
  di_samples :: "bytes list"

definition RandomPeriod :: "u32 \<Rightarrow> int \<times> u32" where
  "RandomPeriod rnd = (let (r, rnd) = Uniform (2 * kReadBytesPeriod) rnd in (uint r, rnd))"

definition mk_DBIter :: "'s \<Rightarrow> SequenceNumber \<Rightarrow> u32 \<Rightarrow> 's DBIter" where
  "mk_DBIter iter s seed =
    (let (period, rnd) = RandomPeriod (mk_Random seed)
     in \<lparr>di_iter = iter, di_sequence = s, di_status = OK, di_saved_key = [], di_saved_value = [], di_direction = kForward,
         di_valid = False, di_rnd = rnd, di_bytes_counter = period, di_tombstones_counter = 0, di_samples = []\<rparr>)"

definition DI_key :: "'s Iterator \<Rightarrow> 's DBIter \<Rightarrow> bytes" where
  "DI_key I d = (if di_direction d = kForward then ExtractUserKey (it_key I (di_iter d)) else di_saved_key d)"

definition DI_value :: "'s Iterator \<Rightarrow> 's DBIter \<Rightarrow> bytes" where
  "DI_value I d = (if di_direction d = kForward then it_value I (di_iter d) else di_saved_value d)"

definition DI_status :: "'s Iterator \<Rightarrow> 's DBIter \<Rightarrow> Status" where
  "DI_status I d = (if ok (di_status d) then it_status I (di_iter d) else di_status d)"

definition SaveKey :: "bytes \<Rightarrow> 's DBIter \<Rightarrow> 's DBIter" where
  "SaveKey k d = d\<lparr>di_saved_key := k\<rparr>"

definition ClearSavedValue :: "'s DBIter \<Rightarrow> 's DBIter" where
  "ClearSavedValue d = d\<lparr>di_saved_value := []\<rparr>"

text \<open>The loop that records samples, and the parsing of the current key.\<close>

partial_function (option) record_samples :: "bytes \<Rightarrow> 's DBIter \<Rightarrow> 's DBIter option" where
  "record_samples k d =
    (if di_bytes_counter d < 0
     then let (period, rnd) = RandomPeriod (di_rnd d)
          in record_samples k (d\<lparr>di_rnd := rnd, di_bytes_counter := di_bytes_counter d + period, di_samples := di_samples d @ [k]\<rparr>)
     else Some d)"

definition count_tombstone :: "bytes \<Rightarrow> 's DBIter \<Rightarrow> 's DBIter" where
  "count_tombstone k d =
    (let t = di_tombstones_counter d + 1
     in if t > 64 then d\<lparr>di_samples := di_samples d @ [k], di_tombstones_counter := 0\<rparr> else d\<lparr>di_tombstones_counter := t\<rparr>)"

definition ParseKey :: "'s Iterator \<Rightarrow> 's DBIter \<Rightarrow> (ParsedInternalKey option \<times> 's DBIter) option" where
  "ParseKey I d =
    (let k = it_key I (di_iter d); n = length k + length (it_value I (di_iter d))
     in do {
       d \<leftarrow> record_samples k (d\<lparr>di_bytes_counter := di_bytes_counter d - int n\<rparr>);
       case ParseInternalKey k of
         None \<Rightarrow> Some (None, d\<lparr>di_status := Corruption (str ''corrupted internal key in DBIter'') []\<rparr>)
       | Some ikey \<Rightarrow> Some (Some ikey, if vtype ikey = kTypeDeletion then count_tombstone k d else d)
     })"

text \<open>The body of the loop of \<open>FindNextUserEntry\<close>: whether an entry to yield was found, and
  \<open>skipping\<close>.  The argument \<open>skip\<close> always points to \<open>saved_key_\<close>.\<close>

definition next_entry ::
    "(bytes \<Rightarrow> bytes \<Rightarrow> int) \<Rightarrow> 's Iterator \<Rightarrow> bool \<Rightarrow> 's DBIter \<Rightarrow> (bool \<times> bool \<times> 's DBIter) option" where
  "next_entry ucmp I skipping d = do {
     (ikey, d) \<leftarrow> ParseKey I d;
     case ikey of
       None \<Rightarrow> Some (False, skipping, d)
     | Some ikey \<Rightarrow>
         if sequence ikey \<le> di_sequence d
         then if vtype ikey = kTypeDeletion then Some (False, True, SaveKey (user_key ikey) d)
              else if vtype ikey = kTypeValue
              then if skipping \<and> ucmp (user_key ikey) (di_saved_key d) \<le> 0 then Some (False, skipping, d)
                   else Some (True, skipping, d\<lparr>di_valid := True, di_saved_key := []\<rparr>)
              else Some (False, skipping, d)
         else Some (False, skipping, d)
   }"

partial_function (option) FindNextUserEntry ::
    "(bytes \<Rightarrow> bytes \<Rightarrow> int) \<Rightarrow> 's Iterator \<Rightarrow> bool \<Rightarrow> 's DBIter \<Rightarrow> 's DBIter option" where
  "FindNextUserEntry ucmp I skipping d = do {
     (found, skipping, d) \<leftarrow> next_entry ucmp I skipping d;
     if found then Some d
     else do {
       s \<leftarrow> it_Next I (di_iter d);
       if it_Valid I s then FindNextUserEntry ucmp I skipping (d\<lparr>di_iter := s\<rparr>)
       else Some (d\<lparr>di_iter := s, di_saved_key := [], di_valid := False\<rparr>)
     }
   }"

definition DI_Next :: "(bytes \<Rightarrow> bytes \<Rightarrow> int) \<Rightarrow> 's Iterator \<Rightarrow> 's DBIter \<Rightarrow> 's DBIter option" where
  "DI_Next ucmp I d =
    (if di_direction d = kReverse
     then do {
       s \<leftarrow> (if it_Valid I (di_iter d) then it_Next I (di_iter d) else it_SeekToFirst I (di_iter d));
       let d = d\<lparr>di_direction := kForward, di_iter := s\<rparr>;
       if it_Valid I s then FindNextUserEntry ucmp I True d else Some (d\<lparr>di_valid := False, di_saved_key := []\<rparr>)
     }
     else FindNextUserEntry ucmp I True (SaveKey (ExtractUserKey (it_key I (di_iter d))) d))"

text \<open>The body of the loop of \<open>FindPrevUserEntry\<close>: whether it breaks, and \<open>value_type\<close>.\<close>

definition prev_entry ::
    "(bytes \<Rightarrow> bytes \<Rightarrow> int) \<Rightarrow> 's Iterator \<Rightarrow> ValueType \<Rightarrow> 's DBIter \<Rightarrow> (bool \<times> ValueType \<times> 's DBIter) option" where
  "prev_entry ucmp I value_type d = do {
     (ikey, d) \<leftarrow> ParseKey I d;
     case ikey of
       None \<Rightarrow> Some (False, value_type, d)
     | Some ikey \<Rightarrow>
         if sequence ikey \<le> di_sequence d
         then if value_type \<noteq> kTypeDeletion \<and> ucmp (user_key ikey) (di_saved_key d) < 0 then Some (True, value_type, d)
              else if vtype ikey = kTypeDeletion then Some (False, vtype ikey, ClearSavedValue (d\<lparr>di_saved_key := []\<rparr>))
              else Some (False, vtype ikey,
                (SaveKey (ExtractUserKey (it_key I (di_iter d))) d)\<lparr>di_saved_value := it_value I (di_iter d)\<rparr>)
         else Some (False, value_type, d)
   }"

partial_function (option) prev_loop ::
    "(bytes \<Rightarrow> bytes \<Rightarrow> int) \<Rightarrow> 's Iterator \<Rightarrow> ValueType \<Rightarrow> 's DBIter \<Rightarrow> (ValueType \<times> 's DBIter) option" where
  "prev_loop ucmp I value_type d = do {
     (stop, value_type, d) \<leftarrow> prev_entry ucmp I value_type d;
     if stop then Some (value_type, d)
     else do {
       s \<leftarrow> it_Prev I (di_iter d);
       if it_Valid I s then prev_loop ucmp I value_type (d\<lparr>di_iter := s\<rparr>) else Some (value_type, d\<lparr>di_iter := s\<rparr>)
     }
   }"

definition FindPrevUserEntry :: "(bytes \<Rightarrow> bytes \<Rightarrow> int) \<Rightarrow> 's Iterator \<Rightarrow> 's DBIter \<Rightarrow> 's DBIter option" where
  "FindPrevUserEntry ucmp I d = do {
     (value_type, d) \<leftarrow> (if it_Valid I (di_iter d) then prev_loop ucmp I kTypeDeletion d else Some (kTypeDeletion, d));
     if value_type = kTypeDeletion
     then Some (ClearSavedValue (d\<lparr>di_valid := False, di_saved_key := []\<rparr>)\<lparr>di_direction := kForward\<rparr>)
     else Some (d\<lparr>di_valid := True\<rparr>)
   }"

text \<open>The loop of \<open>Prev\<close> that leaves the entries of the current key; the flag tells whether
  another key was found.\<close>

partial_function (option) leave_key ::
    "(bytes \<Rightarrow> bytes \<Rightarrow> int) \<Rightarrow> 's Iterator \<Rightarrow> 's DBIter \<Rightarrow> (bool \<times> 's DBIter) option" where
  "leave_key ucmp I d = do {
     s \<leftarrow> it_Prev I (di_iter d);
     if \<not> it_Valid I s then Some (False, ClearSavedValue (d\<lparr>di_iter := s, di_valid := False, di_saved_key := []\<rparr>))
     else if ucmp (ExtractUserKey (it_key I s)) (di_saved_key d) < 0 then Some (True, d\<lparr>di_iter := s\<rparr>)
     else leave_key ucmp I (d\<lparr>di_iter := s\<rparr>)
   }"

definition DI_Prev :: "(bytes \<Rightarrow> bytes \<Rightarrow> int) \<Rightarrow> 's Iterator \<Rightarrow> 's DBIter \<Rightarrow> 's DBIter option" where
  "DI_Prev ucmp I d =
    (if di_direction d = kForward
     then do {
       (left, d) \<leftarrow> leave_key ucmp I (SaveKey (ExtractUserKey (it_key I (di_iter d))) d);
       if left then FindPrevUserEntry ucmp I (d\<lparr>di_direction := kReverse\<rparr>) else Some d
     }
     else FindPrevUserEntry ucmp I d)"

definition DI_Seek :: "(bytes \<Rightarrow> bytes \<Rightarrow> int) \<Rightarrow> 's Iterator \<Rightarrow> bytes \<Rightarrow> 's DBIter \<Rightarrow> 's DBIter option" where
  "DI_Seek ucmp I target d =
    (let d = ClearSavedValue (d\<lparr>di_direction := kForward\<rparr>);
         d = d\<lparr>di_saved_key := AppendInternalKey [] \<lparr>user_key = target, sequence = di_sequence d, vtype = kValueTypeForSeek\<rparr>\<rparr>
     in do {
       s \<leftarrow> it_Seek I (di_saved_key d) (di_iter d);
       if it_Valid I s then FindNextUserEntry ucmp I False (d\<lparr>di_iter := s\<rparr>) else Some (d\<lparr>di_iter := s, di_valid := False\<rparr>)
     })"

definition DI_SeekToFirst :: "(bytes \<Rightarrow> bytes \<Rightarrow> int) \<Rightarrow> 's Iterator \<Rightarrow> 's DBIter \<Rightarrow> 's DBIter option" where
  "DI_SeekToFirst ucmp I d =
    (let d = ClearSavedValue (d\<lparr>di_direction := kForward\<rparr>)
     in do {
       s \<leftarrow> it_SeekToFirst I (di_iter d);
       if it_Valid I s then FindNextUserEntry ucmp I False (d\<lparr>di_iter := s\<rparr>) else Some (d\<lparr>di_iter := s, di_valid := False\<rparr>)
     })"

definition DI_SeekToLast :: "(bytes \<Rightarrow> bytes \<Rightarrow> int) \<Rightarrow> 's Iterator \<Rightarrow> 's DBIter \<Rightarrow> 's DBIter option" where
  "DI_SeekToLast ucmp I d = do {
     s \<leftarrow> it_SeekToLast I (di_iter d);
     FindPrevUserEntry ucmp I (ClearSavedValue (d\<lparr>di_direction := kReverse\<rparr>)\<lparr>di_iter := s\<rparr>)
   }"

definition db_iterator :: "(bytes \<Rightarrow> bytes \<Rightarrow> int) \<Rightarrow> 's Iterator \<Rightarrow> 's DBIter Iterator" where
  "db_iterator ucmp I =
    \<lparr>it_Valid = di_valid, it_SeekToFirst = DI_SeekToFirst ucmp I, it_SeekToLast = DI_SeekToLast ucmp I, it_Seek = DI_Seek ucmp I,
     it_Next = DI_Next ucmp I, it_Prev = DI_Prev ucmp I, it_key = DI_key I, it_value = DI_value I, it_status = DI_status I\<rparr>"

definition NewDBIterator :: "(bytes \<Rightarrow> bytes \<Rightarrow> int) \<Rightarrow> 's Iterator \<Rightarrow> 's \<Rightarrow> SequenceNumber \<Rightarrow> u32 \<Rightarrow> 's DBIter Iterator \<times> 's DBIter" where
  "NewDBIterator ucmp I internal_iter seq seed = (db_iterator ucmp I, mk_DBIter internal_iter seq seed)"

section \<open>The random generator\<close>

text \<open>The generator computes modulo the prime \<open>2 ^ 31 - 1\<close> and never reaches \<open>0\<close>.\<close>

definition seed_ok :: "u32 \<Rightarrow> bool" where
  "seed_ok s \<longleftrightarrow> 0 < unat s \<and> unat s < 2147483647"

lemma mk_Random_ok: "seed_ok (mk_Random s)"
proof -
  have "unat (s AND 0x7fffffff) < 2147483648"
    using word_and_le1 [of s "0x7fffffff"] by (simp add: word_le_nat_alt)
  moreover have "unat (s AND 0x7fffffff) = 2147483647 \<longleftrightarrow> s AND 0x7fffffff = 2147483647"
    by (simp add: word_unat_eq_iff)
  moreover have "unat (s AND 0x7fffffff) = 0 \<longleftrightarrow> s AND 0x7fffffff = 0"
    by (simp add: unat_eq_zero)
  ultimately show ?thesis by (auto simp: seed_ok_def mk_Random_def Let_def)
qed

lemma coprime_A: "\<not> 2147483647 dvd n * (16807 :: nat)" if "0 < n" "n < 2147483647"
proof
  assume d: "2147483647 dvd n * (16807 :: nat)"
  have "coprime (2147483647 :: nat) 7"
  proof (rule coprimeI)
    fix c :: nat assume "c dvd 2147483647" "c dvd 7"
    then have "c dvd 2147483647 - 7 * 306783378" by (intro dvd_diff_nat dvd_mult2)
    then show "is_unit c" by simp
  qed
  then have "coprime (2147483647 :: nat) (7 ^ 5)" by (rule coprime_power_right_iff [THEN iffD2, OF disjI1])
  then have "coprime (2147483647 :: nat) 16807" by simp
  then have "2147483647 dvd n" using d coprime_dvd_mult_left_iff by blast
  then show False using that by (simp add: nat_dvd_not_less)
qed

lemma unat_Random_Next:
  assumes "seed_ok s"
  shows "unat (Random_Next s) = (unat s * 16807) mod 2147483647"
proof -
  let ?p = "unat s * 16807" and ?w = "(ucast s :: u64) * 16807"
  let ?q = "?p div 2 ^ 31" and ?r = "?p mod 2 ^ 31"
  have s: "0 < unat s" "unat s < 2147483647" using assms by (simp_all add: seed_ok_def)
  have "unat (ucast s :: u64) = unat s" using s(2) by (simp add: unsigned_ucast_eq take_bit_nat_eq_self)
  then have p: "unat ?w = ?p" using s(2) by (simp add: unat_mult_lem [THEN iffD1])
  have q: "unat (drop_bit 31 ?w) = ?q" by (simp add: drop_bit_eq_div unat_div p)
  have m: "?w AND ucast (2147483647 :: u32) = take_bit 31 ?w"
    by (simp add: take_bit_eq_mask mask_eq_exp_minus_1)
  have r: "unat (take_bit 31 ?w) = ?r" by (simp add: take_bit_eq_mod unat_mod p)
  have bounds: "?q < 2 ^ 15" "?r < 2 ^ 31" using s(2) by (simp_all add: less_mult_imp_div_less)
  have sum: "unat (drop_bit 31 ?w + take_bit 31 ?w) = ?q + ?r"
    using bounds by (subst unat_add_lem [THEN iffD1]) (simp_all only: q r, simp_all)
  let ?n = "ucast (drop_bit 31 ?w + take_bit 31 ?w) :: u32"
  have n: "unat ?n = ?q + ?r" using bounds unfolding unsigned_ucast_eq sum by (simp add: take_bit_nat_eq_self)
  have pq: "?p = ?q * 2147483647 + (?q + ?r)" using div_mult_mod_eq [of ?p "2 ^ 31"] by simp
  have mod: "?p mod 2147483647 = (?q + ?r) mod 2147483647" by (subst pq) (simp only: mod_mult_self3)
  have "?q + ?r \<noteq> 2147483647"
  proof
    assume "?q + ?r = 2147483647"
    then have "2147483647 dvd ?p" using mod by (simp add: dvd_eq_mod_eq_0)
    then show False using coprime_A [OF s] by blast
  qed
  moreover have "Random_Next s = (if ?n > 2147483647 then ?n - 2147483647 else ?n)"
    unfolding Random_Next_def Let_def m ..
  moreover have "unat (?n - 2147483647) = ?q + ?r - 2147483647" if "?n > 2147483647"
    using that n by (simp add: word_less_nat_alt unat_sub word_le_nat_alt)
  moreover have "?n > 2147483647 \<longleftrightarrow> 2147483647 < ?q + ?r" unfolding word_less_nat_alt n by simp
  moreover define x where "x = ?q + ?r"
  moreover have "x < 2 * 2147483647" using bounds by (simp add: x_def)
  then have "2147483647 < x \<Longrightarrow> x mod 2147483647 = x - 2147483647" by (simp add: mod_if)
  ultimately show ?thesis unfolding mod using n by (cases "2147483647 < x") (simp_all del: mod_less_divisor)
qed

lemma Random_Next_ok: "seed_ok s \<Longrightarrow> seed_ok (Random_Next s)"
  using coprime_A [of "unat s"] by (auto simp: seed_ok_def unat_Random_Next dvd_eq_mod_eq_0)

text \<open>Two draws in a row are not both multiples of the period: the first one is \<open>m * 2 ^ 21\<close> with a
  small \<open>m\<close>, and multiplying it rotates the bits of \<open>m * 16807\<close>, which is above \<open>2 ^ 10\<close>.\<close>

lemma two_draws:
  assumes "seed_ok s" and "unat s mod 2097152 = 0"
  shows "unat (Random_Next s) mod 2097152 \<noteq> 0"
proof -
  define m where "m = unat s div 2097152"
  have s: "unat s = m * 2097152" using assms(2) by (auto simp: m_def)
  have m: "0 < m" "m < 1024" using assms(1) by (simp_all add: seed_ok_def s)
  define a b where "a = (m * 16807) div 1024" and "b = (m * 16807) mod 1024"
  have ab: "m * 16807 = a * 1024 + b" "b < 1024" by (simp_all add: a_def b_def)
  have a: "0 < a" "a < 2097152" using m ab by linarith+
  have "unat s * 16807 = a * 2147483647 + (a + b * 2097152)" using s ab(1) by simp
  then have "unat (Random_Next s) = (a + b * 2097152) mod 2147483647"
    unfolding unat_Random_Next [OF assms(1)] by (simp only: mod_mult_self3)
  also have "\<dots> = a + b * 2097152" using a ab m by (intro mod_less) linarith
  finally show ?thesis using a by simp
qed

lemma unat_period: "unat (2 * kReadBytesPeriod) = 2097152"
  by (simp add: kReadBytesPeriod_def)

lemma RandomPeriod_eq: "RandomPeriod rnd = (int (unat (Random_Next rnd) mod 2097152), Random_Next rnd)"
  unfolding RandomPeriod_def Uniform_def Let_def prod.case uint_nat unat_mod unat_period ..

definition counters_ok :: "'s DBIter \<Rightarrow> bool" where
  "counters_ok d \<longleftrightarrow> seed_ok (di_rnd d) \<and> 0 \<le> di_bytes_counter d \<and> di_bytes_counter d < 2097152 \<and>
     0 \<le> di_tombstones_counter d \<and> di_tombstones_counter d \<le> 64"

lemma record_samples_returns:
  assumes "seed_ok (di_rnd d)" and "di_bytes_counter d < 2097152"
  shows "\<exists>rnd c m. record_samples k d = Some (d\<lparr>di_rnd := rnd, di_bytes_counter := c, di_samples := di_samples d @ replicate m k\<rparr>) \<and>
    seed_ok rnd \<and> 0 \<le> c \<and> c < 2097152"
  using assms
proof (induction d rule: measure_induct_rule [where f = "\<lambda>d. 2 * nat (- di_bytes_counter d) +
    (if unat (Random_Next (di_rnd d)) mod 2097152 = 0 then 1 else 0)"])
  case (less d)
  show ?case
  proof (cases "di_bytes_counter d < 0")
    case True
    let ?n = "Random_Next (di_rnd d)" and ?c = "di_bytes_counter d + int (unat (Random_Next (di_rnd d)) mod 2097152)"
    let ?d = "d\<lparr>di_rnd := ?n, di_bytes_counter := ?c, di_samples := di_samples d @ [k]\<rparr>"
    have eq: "record_samples k d = record_samples k ?d"
      using True by (subst record_samples.simps) (simp add: RandomPeriod_eq)
    have n: "seed_ok ?n" by (rule Random_Next_ok [OF less.prems(1)])
    have "unat ?n mod 2097152 < 2097152" by simp
    then have "?c < 2097152" using True by linarith
    moreover have "2 * nat (- di_bytes_counter ?d) + (if unat (Random_Next (di_rnd ?d)) mod 2097152 = 0 then 1 else 0) <
        2 * nat (- di_bytes_counter d) + (if unat ?n mod 2097152 = 0 then 1 else 0)"
    proof (cases "unat ?n mod 2097152 = 0")
      case False
      then have "nat (- ?c) < nat (- di_bytes_counter d)" using True by linarith
      then show ?thesis using False by auto
    qed (use two_draws [OF n] in simp)
    ultimately obtain rnd c m where "record_samples k ?d = Some (?d\<lparr>di_rnd := rnd, di_bytes_counter := c,
        di_samples := di_samples ?d @ replicate m k\<rparr>)" "seed_ok rnd" "0 \<le> c" "c < 2097152"
      using less.IH [of ?d] n by auto
    then show ?thesis unfolding eq
      by (intro exI [of _ rnd] exI [of _ c] exI [of _ "Suc m"]) simp
  next
    case False
    then have "record_samples k d = Some d" by (subst record_samples.simps) simp
    then show ?thesis using False less.prems
      by (intro exI [of _ "di_rnd d"] exI [of _ "di_bytes_counter d"] exI [of _ 0]) simp
  qed
qed

section \<open>Parsing the current entry\<close>

text \<open>What an iterator remembers of its position: everything but the counters and the samples.\<close>

definition same_but_counters :: "'s DBIter \<Rightarrow> 's DBIter \<Rightarrow> bool" where
  "same_but_counters d d' \<longleftrightarrow> di_iter d' = di_iter d \<and> di_sequence d' = di_sequence d \<and> di_status d' = di_status d \<and>
     di_saved_key d' = di_saved_key d \<and> di_saved_value d' = di_saved_value d \<and> di_direction d' = di_direction d \<and>
     di_valid d' = di_valid d \<and> counters_ok d'"

lemma ParseKey_returns:
  assumes "counters_ok d" and "ParseInternalKey (it_key I (di_iter d)) = Some ikey"
  shows "\<exists>d'. ParseKey I d = Some (Some ikey, d') \<and> same_but_counters d d'"
proof -
  let ?k = "it_key I (di_iter d)"
  let ?d = "d\<lparr>di_bytes_counter := di_bytes_counter d - int (length ?k + length (it_value I (di_iter d)))\<rparr>"
  have "seed_ok (di_rnd ?d)" "di_bytes_counter ?d < 2097152" using assms(1) by (simp_all add: counters_ok_def)
  from record_samples_returns [OF this, of ?k] obtain rnd c m
    where r: "record_samples ?k ?d = Some (?d\<lparr>di_rnd := rnd, di_bytes_counter := c, di_samples := di_samples ?d @ replicate m ?k\<rparr>)"
      "seed_ok rnd" "0 \<le> c" "c < 2097152" by blast
  let ?e = "?d\<lparr>di_rnd := rnd, di_bytes_counter := c, di_samples := di_samples ?d @ replicate m ?k\<rparr>"
  let ?f = "if vtype ikey = kTypeDeletion then count_tombstone ?k ?e else ?e"
  have "ParseKey I d = Some (Some ikey, ?f)" using r(1) assms(2) by (simp add: ParseKey_def Let_def)
  moreover have "same_but_counters d ?f"
    using r(2-4) assms(1) by (auto simp: same_but_counters_def counters_ok_def count_tombstone_def Let_def)
  ultimately show ?thesis by blast
qed

section \<open>What is visible at a sequence number\<close>

definition user :: "bytes \<times> bytes \<Rightarrow> bytes" where
  "user e = ExtractUserKey (fst e)"

definition entry_seq :: "bytes \<times> bytes \<Rightarrow> SequenceNumber" where
  "entry_seq e = drop_bit 8 (key_num (fst e))"

definition visible :: "SequenceNumber \<Rightarrow> (bytes \<times> bytes) list \<Rightarrow> nat \<Rightarrow> bool" where
  "visible s es j \<longleftrightarrow> j < length es \<and> entry_seq (es ! j) \<le> s"

text \<open>An entry is shown when it is the newest visible one of its user key and holds a value.\<close>

definition shown :: "SequenceNumber \<Rightarrow> (bytes \<times> bytes) list \<Rightarrow> nat \<Rightarrow> bool" where
  "shown s es j \<longleftrightarrow> visible s es j \<and> ExtractValueType (fst (es ! j)) = kTypeValue \<and>
     (\<forall>i < j. user (es ! i) = user (es ! j) \<longrightarrow> \<not> visible s es i)"

definition db_view :: "SequenceNumber \<Rightarrow> (bytes \<times> bytes) list \<Rightarrow> (bytes \<times> bytes) list" where
  "db_view s es = map (\<lambda>j. (user (es ! j), snd (es ! j))) (filter (shown s es) [0..<length es])"

definition rank :: "SequenceNumber \<Rightarrow> (bytes \<times> bytes) list \<Rightarrow> nat \<Rightarrow> nat" where
  "rank s es j = length (filter (shown s es) [0..<j])"

definition entries_ok :: "(bytes \<times> bytes) list \<Rightarrow> bool" where
  "entries_ok es \<longleftrightarrow> (\<forall>e \<in> set es. ExtractValueType (fst e) \<le> kTypeValue)"

lemma Slice_le: "Slice_compare a b \<le> 0 \<longleftrightarrow> a \<le> b" and Slice_less: "Slice_compare a b < 0 \<longleftrightarrow> a < b"
  by (auto simp: Slice_compare_lex)

lemma visible_length: "visible s es j \<Longrightarrow> j < length es" and shown_visible: "shown s es j \<Longrightarrow> visible s es j"
  by (simp_all add: visible_def shown_def)

lemma parse_entry:
  assumes "key_fits (fst e)" and "ExtractValueType (fst e) \<le> kTypeValue"
  shows "ParseInternalKey (fst e) = Some \<lparr>user_key = user e, sequence = entry_seq e, vtype = ExtractValueType (fst e)\<rparr>"
  using assms by (simp add: ParseInternalKey_def Let_def user_def entry_seq_def ExtractUserKey_def ExtractValueType_def key_fits_def)

lemma rank_cong: "a \<le> b \<Longrightarrow> (\<And>z. a \<le> z \<Longrightarrow> z < b \<Longrightarrow> \<not> shown s es z) \<Longrightarrow> rank s es b = rank s es a"
  using upt_add_eq_append [of 0 a "b - a"] by (simp add: rank_def)

lemma rank_Suc: "shown s es y \<Longrightarrow> rank s es (Suc y) = Suc (rank s es y)"
  by (simp add: rank_def)

lemma rank_mono: "a \<le> b \<Longrightarrow> rank s es a \<le> rank s es b"
  using upt_add_eq_append [of 0 a "b - a"] by (simp add: rank_def)

lemma rank_length: "rank s es (length es) = length (db_view s es)"
  by (simp add: rank_def db_view_def)

lemma rank_less: "shown s es y \<Longrightarrow> rank s es y < length (db_view s es)"
  using rank_mono [of "Suc y" "length es" s es] rank_Suc [of s es y] visible_length [OF shown_visible]
  by (fastforce simp: rank_length)

lemma db_view_rank:
  assumes "shown s es y"
  shows "db_view s es ! rank s es y = (user (es ! y), snd (es ! y))"
proof -
  have "y < length es" using assms by (simp add: shown_def visible_def)
  then have "[0..<length es] = [0..<y] @ y # [Suc y..<length es]"
    using upt_add_eq_append [of 0 y "length es - y"] by (simp add: upt_conv_Cons)
  then show ?thesis using assms by (simp add: db_view_def rank_def nth_append)
qed

lemma key_num_Pack: "key_num k = PackSequenceAndType (drop_bit 8 (key_num k)) (ExtractValueType k)"
proof (rule bit_word_eqI)
  show "bit (key_num k) n \<longleftrightarrow> bit (PackSequenceAndType (drop_bit 8 (key_num k)) (ExtractValueType k)) n" if "n < LENGTH(64)" for n
    using that by (cases "n < 8") (simp_all add: PackSequenceAndType_def ExtractValueType_def bit_simps)
qed

lemma entry_seq_max: "entry_seq e \<le> kMaxSequenceNumber"
proof -
  have "unat (drop_bit 8 (key_num (fst e))) < 2 ^ 56"
    using unsigned_less [of "key_num (fst e)", where 'a = nat] by (simp add: drop_bit_eq_div unat_div less_mult_imp_div_less)
  then show ?thesis by (simp add: entry_seq_def kMaxSequenceNumber_def word_le_nat_alt)
qed

lemma entry_seq_InternalKey: "s \<le> kMaxSequenceNumber \<Longrightarrow> entry_seq (InternalKey u s t, v) = s"
  by (simp add: entry_seq_def drop_bit_Pack)

text \<open>Seeking the internal key of a user key at a sequence number.\<close>

lemma seek_key:
  assumes "s \<le> kMaxSequenceNumber" and "ExtractValueType (fst e) \<le> kTypeValue"
  shows "InternalKey_Compare Slice_compare (fst e) (InternalKey u s kValueTypeForSeek) < 0 \<longleftrightarrow>
    user e < u \<or> (user e = u \<and> s < entry_seq e)"
proof -
  have "PackSequenceAndType s kValueTypeForSeek < key_num (fst e) \<longleftrightarrow> s < entry_seq e"
    using Pack_less_iff [OF assms(1) entry_seq_max, of kValueTypeForSeek e "ExtractValueType (fst e)"] assms(2)
    unfolding entry_seq_def key_num_Pack [of "fst e", symmetric] by (auto simp: kValueTypeForSeek_def)
  then show ?thesis
    by (auto simp: InternalKey_Compare_def Let_def Slice_compare_lex user_def)
qed

section \<open>The iterator over any internal iterator\<close>

locale db_iteration = iterator I "InternalKey_Compare Slice_compare" key_fits "at"
  for I :: "'s Iterator" and "at"
begin

definition on_entries :: "(bytes \<times> bytes) list \<Rightarrow> SequenceNumber \<Rightarrow> 's DBIter \<Rightarrow> nat \<Rightarrow> bool" where
  "on_entries es s d q \<longleftrightarrow> at es (di_iter d) q \<and> di_sequence d = s \<and> di_status d = OK \<and> counters_ok d \<and> entries_ok es \<and>
     s \<le> kMaxSequenceNumber"

lemma on_entriesD:
  assumes "on_entries es s d q"
  shows "at es (di_iter d) q" and "di_sequence d = s" and "counters_ok d" and "q \<le> length es"
    and "q < length es \<Longrightarrow> ParseInternalKey (it_key I (di_iter d)) =
      Some \<lparr>user_key = user (es ! q), sequence = entry_seq (es ! q), vtype = ExtractValueType (fst (es ! q))\<rparr>"
    and "q < length es \<Longrightarrow> ExtractUserKey (it_key I (di_iter d)) = user (es ! q)"
    and "q < length es \<Longrightarrow> it_value I (di_iter d) = snd (es ! q)"
    and "it_Valid I (di_iter d) \<longleftrightarrow> q < length es"
    and "i < j \<Longrightarrow> j < length es \<Longrightarrow> user (es ! i) \<le> user (es ! j)"
    and "i < length es \<Longrightarrow> ExtractValueType (fst (es ! i)) = kTypeDeletion \<or> ExtractValueType (fst (es ! i)) = kTypeValue"
proof -
  show a: "at es (di_iter d) q" and "di_sequence d = s" "counters_ok d" using assms by (simp_all add: on_entries_def)
  show "q \<le> length es" by (rule at_le [OF a])
  have ok: "ExtractValueType (fst (es ! i)) \<le> kTypeValue" if "i < length es" for i
    using assms that by (simp add: on_entries_def entries_ok_def)
  show "q < length es \<Longrightarrow> ParseInternalKey (it_key I (di_iter d)) =
      Some \<lparr>user_key = user (es ! q), sequence = entry_seq (es ! q), vtype = ExtractValueType (fst (es ! q))\<rparr>"
    using at_key [OF a] at_seekable [OF a, of "es ! q"] ok parse_entry by simp
  show "q < length es \<Longrightarrow> ExtractUserKey (it_key I (di_iter d)) = user (es ! q)" using at_key [OF a] by (simp add: user_def)
  show "q < length es \<Longrightarrow> it_value I (di_iter d) = snd (es ! q)" using at_value [OF a] by simp
  show "it_Valid I (di_iter d) \<longleftrightarrow> q < length es" by (rule at_Valid [OF a])
  show "user (es ! i) \<le> user (es ! j)" if "i < j" "j < length es"
  proof -
    have "InternalKey_Compare Slice_compare (fst (es ! i)) (fst (es ! j)) \<le> 0"
      using sorted_wrt_nth_less [OF at_sorted [OF a]] that by fastforce
    then show ?thesis by (auto simp: ikey.internal_le_iff Slice_le Slice_less user_def Slice_compare_lex split: if_splits)
  qed
  have "t = 0 \<or> t = 1" if "t \<le> (1 :: byte)" for t
  proof -
    have "unat t \<le> 1" using that by (simp add: word_le_nat_alt)
    then have "unat t = 0 \<or> unat t = 1" by linarith
    then show ?thesis by (metis unat_eq_zero unat_1 word_unat_eq_iff)
  qed
  then show "ExtractValueType (fst (es ! i)) = kTypeDeletion \<or> ExtractValueType (fst (es ! i)) = kTypeValue" if "i < length es"
    using ok [OF that] by (simp add: kTypeDeletion_def kTypeValue_def)
qed

lemma on_entries_iter: "on_entries es s d q \<Longrightarrow> at es i p \<Longrightarrow> on_entries es s (d\<lparr>di_iter := i\<rparr>) p"
  by (simp add: on_entries_def counters_ok_def)

lemma on_entries_update:
  "on_entries es s d q \<Longrightarrow> on_entries es s (d\<lparr>di_valid := v\<rparr>) q"
  "on_entries es s d q \<Longrightarrow> on_entries es s (d\<lparr>di_saved_key := k\<rparr>) q"
  "on_entries es s d q \<Longrightarrow> on_entries es s (d\<lparr>di_saved_value := w\<rparr>) q"
  "on_entries es s d q \<Longrightarrow> on_entries es s (d\<lparr>di_direction := r\<rparr>) q"
  by (simp_all add: on_entries_def counters_ok_def)

lemma on_entries_same: "on_entries es s d q \<Longrightarrow> same_but_counters d d' \<Longrightarrow> on_entries es s d' q"
  by (simp add: on_entries_def same_but_counters_def)

lemma next_entry_returns:
  assumes "on_entries es s d q" and "q < length es"
  shows "\<exists>d'. same_but_counters d d' \<and> next_entry Slice_compare I skipping d = Some (
    if \<not> visible s es q then (False, skipping, d')
    else if ExtractValueType (fst (es ! q)) = kTypeDeletion then (False, True, d'\<lparr>di_saved_key := user (es ! q)\<rparr>)
    else if skipping \<and> user (es ! q) \<le> di_saved_key d then (False, skipping, d')
    else (True, skipping, d'\<lparr>di_valid := True, di_saved_key := []\<rparr>))"
proof -
  note D = on_entriesD [OF assms(1)]
  obtain d' where d': "ParseKey I d = Some (Some \<lparr>user_key = user (es ! q), sequence = entry_seq (es ! q),
      vtype = ExtractValueType (fst (es ! q))\<rparr>, d')" "same_but_counters d d'"
    using ParseKey_returns [OF D(3) D(5) [OF assms(2)]] by blast
  have "di_sequence d' = s" "di_saved_key d' = di_saved_key d" using d'(2) D(2) by (simp_all add: same_but_counters_def)
  then show ?thesis
    using d' D(10) [OF assms(2)] assms(2)
    by (intro exI [of _ d']) (auto simp: next_entry_def visible_def SaveKey_def Slice_le)
qed

text \<open>The entries from \<open>q\<close> on that \<open>skipping\<close> and \<open>skip\<close> hide: those of a key that was
  visible before, and those of the key \<open>K\<close> to leave.\<close>

definition hides :: "SequenceNumber \<Rightarrow> (bytes \<times> bytes) list \<Rightarrow> nat \<Rightarrow> bytes option \<Rightarrow> bool \<Rightarrow> bytes \<Rightarrow> bool" where
  "hides s es q K skipping skip \<longleftrightarrow> (\<forall>x \<ge> q. visible s es x \<longrightarrow>
     ((skipping \<and> user (es ! x) \<le> skip) \<longleftrightarrow> ((\<exists>j < q. visible s es j \<and> user (es ! j) = user (es ! x)) \<or> K = Some (user (es ! x)))))"

definition from_key :: "SequenceNumber \<Rightarrow> (bytes \<times> bytes) list \<Rightarrow> nat \<Rightarrow> bytes option \<Rightarrow> bool" where
  "from_key s es q K \<longleftrightarrow> (\<forall>x \<ge> q. visible s es x \<longrightarrow> (case K of None \<Rightarrow> True | Some k \<Rightarrow> k \<le> user (es ! x)))"

definition forward_at :: "(bytes \<times> bytes) list \<Rightarrow> SequenceNumber \<Rightarrow> 's DBIter \<Rightarrow> nat \<Rightarrow> bool" where
  "forward_at es s d x \<longleftrightarrow> on_entries es s d x \<and>
     (if x < length es then shown s es x \<and> di_valid d \<and> di_direction d = kForward else \<not> di_valid d)"

lemma hides_step:
  assumes "on_entries es s d q" and "q < length es" and "from_key s es q K" and "hides s es q K skipping skip"
  shows "\<not> visible s es q \<Longrightarrow> hides s es (Suc q) K skipping skip"
    and "visible s es q \<Longrightarrow> hides s es (Suc q) K True (user (es ! q))"
    and "visible s es q \<Longrightarrow> skipping \<Longrightarrow> user (es ! q) \<le> skip \<Longrightarrow> hides s es (Suc q) K skipping skip"
    and "from_key s es (Suc q) K"
    and "visible s es q \<Longrightarrow> (skipping \<and> user (es ! q) \<le> skip) \<longleftrightarrow>
      ((\<exists>j < q. visible s es j \<and> user (es ! j) = user (es ! q)) \<or> K = Some (user (es ! q)))"
proof -
  note D = on_entriesD [OF assms(1)]
  have le: "user (es ! q) \<le> user (es ! x)" if "q \<le> x" "visible s es x" for x
    using D(9) [of q x] that visible_length [OF that(2)] by (cases "q = x") auto
  have h: "(skipping \<and> user (es ! x) \<le> skip) \<longleftrightarrow>
      ((\<exists>j < q. visible s es j \<and> user (es ! j) = user (es ! x)) \<or> K = Some (user (es ! x)))" if "q \<le> x" "visible s es x" for x
    using assms(4) that unfolding hides_def by blast
  have split: "(\<exists>j < Suc q. visible s es j \<and> user (es ! j) = user (es ! x)) \<longleftrightarrow>
      (visible s es q \<and> user (es ! q) = user (es ! x)) \<or> (\<exists>j < q. visible s es j \<and> user (es ! j) = user (es ! x))" for x
    by (auto simp: less_Suc_eq)
  show "hides s es (Suc q) K skipping skip" if "\<not> visible s es q"
    unfolding hides_def split using that h by simp
  show "from_key s es (Suc q) K" using assms(3) by (simp add: from_key_def)
  show "(skipping \<and> user (es ! q) \<le> skip) \<longleftrightarrow>
      ((\<exists>j < q. visible s es j \<and> user (es ! j) = user (es ! q)) \<or> K = Some (user (es ! q)))" if "visible s es q"
    using h [of q] that by simp
  show "hides s es (Suc q) K skipping skip" if v: "visible s es q" "skipping" "user (es ! q) \<le> skip"
    unfolding hides_def split
  proof (intro allI impI)
    fix x assume x: "Suc q \<le> x" "visible s es x"
    have "user (es ! x) \<le> skip" if "user (es ! q) = user (es ! x)" using v(3) that by simp
    then show "(skipping \<and> user (es ! x) \<le> skip) \<longleftrightarrow> (((visible s es q \<and> user (es ! q) = user (es ! x)) \<or>
        (\<exists>j < q. visible s es j \<and> user (es ! j) = user (es ! x))) \<or> K = Some (user (es ! x)))"
      using h [of x] x v(1,2) by auto
  qed
  show "hides s es (Suc q) K True (user (es ! q))" if v: "visible s es q"
    unfolding hides_def split
  proof (intro allI impI)
    fix x assume x: "Suc q \<le> x" "visible s es x"
    have 1: "user (es ! q) \<le> user (es ! x)" using le [of x] x by simp
    have 2: "user (es ! x) \<le> user (es ! q)" if "j < q" "user (es ! j) = user (es ! x)" for j
      using D(9) [of j q] that assms(2) by simp
    have 3: "user (es ! x) \<le> user (es ! q)" if "K = Some (user (es ! x))"
      using assms(3) v that unfolding from_key_def by (metis option.simps(5) order.refl)
    show "(True \<and> user (es ! x) \<le> user (es ! q)) \<longleftrightarrow> (((visible s es q \<and> user (es ! q) = user (es ! x)) \<or>
        (\<exists>j < q. visible s es j \<and> user (es ! j) = user (es ! x))) \<or> K = Some (user (es ! x)))"
    proof
      assume "True \<and> user (es ! x) \<le> user (es ! q)"
      then have "user (es ! q) = user (es ! x)" using 1 by (simp add: order.antisym)
      then show "((visible s es q \<and> user (es ! q) = user (es ! x)) \<or>
        (\<exists>j < q. visible s es j \<and> user (es ! j) = user (es ! x))) \<or> K = Some (user (es ! x))" using v by blast
    qed (use 2 3 in \<open>elim disjE exE conjE; simp\<close>)
  qed
qed

lemma shown_iff:
  assumes "visible s es q" and "ExtractValueType (fst (es ! q)) = kTypeValue"
  shows "shown s es q \<longleftrightarrow> \<not> (\<exists>j < q. visible s es j \<and> user (es ! j) = user (es ! q))"
  using assms by (auto simp: shown_def)

lemma scan_forward:
  assumes "on_entries es s d q" and "q < length es" and "di_direction d = kForward"
    and "from_key s es q K" and "hides s es q K skipping (di_saved_key d)"
  shows "\<exists>d' x. FindNextUserEntry Slice_compare I skipping d = Some d' \<and> q \<le> x \<and> forward_at es s d' x \<and>
    (\<forall>y. q \<le> y \<and> y < x \<and> shown s es y \<longrightarrow> K = Some (user (es ! y))) \<and> (x < length es \<longrightarrow> K \<noteq> Some (user (es ! x)))"
  using assms
proof (induction "length es - q" arbitrary: d q skipping)
  case (Suc n)
  note D = on_entriesD [OF Suc.prems(1)] and H = hides_step [OF Suc.prems(1,2,4,5)]
  obtain d' where d': "same_but_counters d d'" "next_entry Slice_compare I skipping d = Some (
    if \<not> visible s es q then (False, skipping, d')
    else if ExtractValueType (fst (es ! q)) = kTypeDeletion then (False, True, d'\<lparr>di_saved_key := user (es ! q)\<rparr>)
    else if skipping \<and> user (es ! q) \<le> di_saved_key d then (False, skipping, d')
    else (True, skipping, d'\<lparr>di_valid := True, di_saved_key := []\<rparr>))"
    using next_entry_returns [OF Suc.prems(1,2)] by blast
  have on: "on_entries es s d' q" by (rule on_entries_same [OF Suc.prems(1) d'(1)])
  have dir: "di_direction d' = kForward" "di_saved_key d' = di_saved_key d" using d'(1) Suc.prems(3) by (simp_all add: same_but_counters_def)
  obtain i where i: "it_Next I (di_iter d') = Some i" "at es i (Suc q)"
    using at_Next [OF on_entriesD(1) [OF on] Suc.prems(2)] by auto
  have go: ?case if e: "next_entry Slice_compare I skipping d = Some (False, sk, e)" "on_entries es s e q" "di_iter e = di_iter d'"
      "di_direction e = kForward" "hides s es (Suc q) K sk (di_saved_key e)" and no: "shown s es q \<Longrightarrow> K = Some (user (es ! q))" for sk e
  proof -
    have ei: "on_entries es s (e\<lparr>di_iter := i\<rparr>) (Suc q)" by (rule on_entries_iter [OF e(2) i(2)])
    show ?thesis
    proof (cases "Suc q < length es")
      case True
      then have eq: "FindNextUserEntry Slice_compare I skipping d = FindNextUserEntry Slice_compare I sk (e\<lparr>di_iter := i\<rparr>)"
        using e(1,3) i(1) at_Valid [OF i(2)] by (subst FindNextUserEntry.simps) simp
      have n: "n = length es - Suc q" using Suc.hyps(2) by simp
      have "di_direction (e\<lparr>di_iter := i\<rparr>) = kForward" "hides s es (Suc q) K sk (di_saved_key (e\<lparr>di_iter := i\<rparr>))"
        using e(4,5) by simp_all
      from Suc.hyps(1) [OF n ei True this(1) H(4) this(2)] obtain d2 x where x:
        "FindNextUserEntry Slice_compare I sk (e\<lparr>di_iter := i\<rparr>) = Some d2" "Suc q \<le> x" "forward_at es s d2 x"
        "\<forall>y. Suc q \<le> y \<and> y < x \<and> shown s es y \<longrightarrow> K = Some (user (es ! y))" "x < length es \<longrightarrow> K \<noteq> Some (user (es ! x))"
        by blast
      have "\<forall>y. q \<le> y \<and> y < x \<and> shown s es y \<longrightarrow> K = Some (user (es ! y))"
      proof (intro allI impI)
        fix y assume "q \<le> y \<and> y < x \<and> shown s es y"
        then show "K = Some (user (es ! y))" using x(4) no by (cases "y = q") auto
      qed
      then show ?thesis using eq x by (intro exI [of _ d2] exI [of _ x]) simp
    next
      case False
      then have len: "Suc q = length es" using Suc.prems(2) by simp
      have "FindNextUserEntry Slice_compare I skipping d = Some (e\<lparr>di_iter := i, di_saved_key := [], di_valid := False\<rparr>)"
        using e(1,3) i(1) at_Valid [OF i(2)] False by (subst FindNextUserEntry.simps) simp
      moreover have "forward_at es s (e\<lparr>di_iter := i, di_saved_key := [], di_valid := False\<rparr>) (Suc q)"
        using ei len by (simp add: forward_at_def on_entries_def counters_ok_def)
      moreover have "\<forall>y. q \<le> y \<and> y < Suc q \<and> shown s es y \<longrightarrow> K = Some (user (es ! y))" using no by (auto simp: less_Suc_eq)
      moreover have "q \<le> Suc q" by simp
      ultimately show ?thesis using False by blast
    qed
  qed
  show ?case
  proof (cases "visible s es q")
    case False
    show ?thesis by (rule go [of skipping d']) (use False d'(2) on dir H(1) in \<open>auto simp: shown_def\<close>)
  next
    case v: True
    show ?thesis
    proof (cases "ExtractValueType (fst (es ! q)) = kTypeDeletion")
      case True
      then have "\<not> shown s es q" by (simp add: shown_def constants)
      then show ?thesis
        by (intro go [of True "d'\<lparr>di_saved_key := user (es ! q)\<rparr>"]) (use True v d'(2) on dir H(2) on_entries_update in auto)
    next
      case False
      then have t: "ExtractValueType (fst (es ! q)) = kTypeValue" using D(10) Suc.prems(2) by blast
      show ?thesis
      proof (cases "skipping \<and> user (es ! q) \<le> di_saved_key d")
        case True
        then have "shown s es q \<Longrightarrow> K = Some (user (es ! q))" using H(5) [OF v] shown_iff [OF v t] by blast
        then show ?thesis by (intro go [of skipping d']) (use True False v d'(2) on dir H(3) in auto)
      next
        case no: False
        let ?d = "d'\<lparr>di_valid := True, di_saved_key := []\<rparr>"
        have "FindNextUserEntry Slice_compare I skipping d = Some ?d"
          using d'(2) v False no by (subst FindNextUserEntry.simps) simp
        moreover have "shown s es q" "K \<noteq> Some (user (es ! q))" using H(5) [OF v] shown_iff [OF v t] no by blast+
        moreover have "on_entries es s ?d q" by (intro on_entries_update on)
        ultimately show ?thesis using dir(1) Suc.prems(2) by (intro exI [of _ ?d] exI [of _ q]) (auto simp: forward_at_def)
      qed
    qed
  qed
qed simp

lemma prev_entry_returns:
  assumes "on_entries es s d q" and "q < length es"
  shows "\<exists>d'. same_but_counters d d' \<and> prev_entry Slice_compare I vt d = Some (
    if \<not> visible s es q then (False, vt, d')
    else if vt \<noteq> kTypeDeletion \<and> user (es ! q) < di_saved_key d then (True, vt, d')
    else if ExtractValueType (fst (es ! q)) = kTypeDeletion then (False, kTypeDeletion, d'\<lparr>di_saved_key := [], di_saved_value := []\<rparr>)
    else (False, kTypeValue, d'\<lparr>di_saved_key := user (es ! q), di_saved_value := snd (es ! q)\<rparr>))"
proof -
  note D = on_entriesD [OF assms(1)]
  obtain d' where d': "ParseKey I d = Some (Some \<lparr>user_key = user (es ! q), sequence = entry_seq (es ! q),
      vtype = ExtractValueType (fst (es ! q))\<rparr>, d')" "same_but_counters d d'"
    using ParseKey_returns [OF D(3) D(5) [OF assms(2)]] by blast
  have "di_sequence d' = s" "di_saved_key d' = di_saved_key d" "di_iter d' = di_iter d"
    using d'(2) D(2) by (simp_all add: same_but_counters_def)
  then show ?thesis
    using d' D(10) [OF assms(2)] D(6,7) [OF assms(2)] assms(2)
    by (intro exI [of _ d']) (auto simp: prev_entry_def visible_def SaveKey_def ClearSavedValue_def Slice_less)
qed

text \<open>What the backward scan knows of the entries from \<open>q\<close> up to \<open>hi\<close>: with a value saved, that
  the first visible one of them is the saved one, and that no later one is shown.\<close>

definition pending :: "(bytes \<times> bytes) list \<Rightarrow> SequenceNumber \<Rightarrow> nat \<Rightarrow> nat \<Rightarrow> ValueType \<Rightarrow> 's DBIter \<Rightarrow> nat \<Rightarrow> bool" where
  "pending es s hi q vt d y \<longleftrightarrow>
    (if vt = kTypeDeletion then \<forall>z. q \<le> z \<and> z < hi \<longrightarrow> \<not> shown s es z
     else vt = kTypeValue \<and> q \<le> y \<and> y < hi \<and> visible s es y \<and> ExtractValueType (fst (es ! y)) = kTypeValue \<and>
       di_saved_key d = user (es ! y) \<and> di_saved_value d = snd (es ! y) \<and>
       (\<forall>z. q \<le> z \<and> z < y \<longrightarrow> \<not> visible s es z) \<and> (\<forall>z. y < z \<and> z < hi \<longrightarrow> \<not> shown s es z))"

text \<open>Standing in reverse at the shown entry \<open>y\<close>: the internal iterator is at the last visible
  entry of a smaller key, or nowhere.\<close>

definition before :: "(bytes \<times> bytes) list \<Rightarrow> SequenceNumber \<Rightarrow> nat \<Rightarrow> nat \<Rightarrow> bool" where
  "before es s y q \<longleftrightarrow> (if q < length es then q < y \<and> visible s es q \<and> user (es ! q) < user (es ! y) \<and> (\<forall>j. q < j \<and> j < y \<longrightarrow> \<not> visible s es j)
     else \<forall>j < y. \<not> visible s es j)"

definition saved :: "(bytes \<times> bytes) list \<Rightarrow> SequenceNumber \<Rightarrow> 's DBIter \<Rightarrow> nat \<Rightarrow> nat \<Rightarrow> bool" where
  "saved es s d y q \<longleftrightarrow> on_entries es s d q \<and> shown s es y \<and> di_saved_key d = user (es ! y) \<and> di_saved_value d = snd (es ! y) \<and>
     before es s y q"

lemma scan_back:
  assumes "on_entries es s d q" and "q < length es" and "q < hi" and "pending es s hi (Suc q) vt d y"
  shows "\<exists>vt' d' r y'. prev_loop Slice_compare I vt d = Some (vt', d') \<and> on_entries es s d' r \<and> di_direction d' = di_direction d \<and>
    (if vt' = kTypeDeletion then \<forall>z < hi. \<not> shown s es z
     else y' < hi \<and> saved es s d' y' r \<and> (\<forall>z. y' < z \<and> z < hi \<longrightarrow> \<not> shown s es z))"
  using assms
proof (induction q arbitrary: d vt y rule: less_induct)
  case (less q)
  note D = on_entriesD [OF less.prems(1)]
  obtain d' where d': "same_but_counters d d'" "prev_entry Slice_compare I vt d = Some (
    if \<not> visible s es q then (False, vt, d')
    else if vt \<noteq> kTypeDeletion \<and> user (es ! q) < di_saved_key d then (True, vt, d')
    else if ExtractValueType (fst (es ! q)) = kTypeDeletion then (False, kTypeDeletion, d'\<lparr>di_saved_key := [], di_saved_value := []\<rparr>)
    else (False, kTypeValue, d'\<lparr>di_saved_key := user (es ! q), di_saved_value := snd (es ! q)\<rparr>))"
    using prev_entry_returns [OF less.prems(1,2)] by blast
  have on: "on_entries es s d' q" by (rule on_entries_same [OF less.prems(1) d'(1)])
  have same: "di_direction d' = di_direction d" "di_saved_key d' = di_saved_key d" "di_saved_value d' = di_saved_value d"
    using d'(1) by (simp_all add: same_but_counters_def)
  obtain i where i: "it_Prev I (di_iter d') = Some i" "at es i (if q = 0 then length es else q - 1)"
    using at_Prev [OF on_entriesD(1) [OF on] less.prems(2)] by blast
  have go: ?case if e: "prev_entry Slice_compare I vt d = Some (False, v, e)" "on_entries es s e q" "di_iter e = di_iter d'"
      "di_direction e = di_direction d" "pending es s hi q v e y'" for v e y'
  proof -
    have ei: "on_entries es s (e\<lparr>di_iter := i\<rparr>) (if q = 0 then length es else q - 1)" by (rule on_entries_iter [OF e(2) i(2)])
    have pe: "pending es s hi q v (e\<lparr>di_iter := i\<rparr>) y'" using e(5) by (simp add: pending_def)
    show ?thesis
    proof (cases "q = 0")
      case False
      then have q: "q - 1 < q" "q - 1 < length es" "q - 1 < hi" "Suc (q - 1) = q" using less.prems(2,3) by simp_all
      have "it_Valid I i" using at_Valid [OF i(2)] q(2) False by simp
      then have eq: "prev_loop Slice_compare I vt d = prev_loop Slice_compare I v (e\<lparr>di_iter := i\<rparr>)"
        using e(1,3) i(1) by (subst prev_loop.simps) simp
      from less.IH [OF q(1) _ q(2,3), of "e\<lparr>di_iter := i\<rparr>" v y'] show ?thesis
        using ei pe False e(4) unfolding eq by simp
    next
      case True
      then have eq: "prev_loop Slice_compare I vt d = Some (v, e\<lparr>di_iter := i\<rparr>)"
        using e(1,3) i(1) at_Valid [OF i(2)] by (subst prev_loop.simps) simp
      have on': "on_entries es s (e\<lparr>di_iter := i\<rparr>) (length es)" using ei True by simp
      have "y' < hi \<and> saved es s (e\<lparr>di_iter := i\<rparr>) y' (length es) \<and> (\<forall>z. y' < z \<and> z < hi \<longrightarrow> \<not> shown s es z)" if "v \<noteq> kTypeDeletion"
        using pe True that on' by (auto simp: pending_def saved_def before_def shown_def)
      moreover have "\<forall>z < hi. \<not> shown s es z" if "v = kTypeDeletion" using pe True that by (simp add: pending_def)
      ultimately show ?thesis using eq on' e(4)
        by (intro exI [of _ v] exI [of _ "e\<lparr>di_iter := i\<rparr>"] exI [of _ "length es"] exI [of _ y']) simp
    qed
  qed
  note P = less.prems(4) [unfolded pending_def]
  show ?case
  proof (cases "visible s es q")
    case False
    have ns: "\<not> shown s es q" using False by (simp add: shown_def)
    have "pending es s hi q vt d' y"
    proof (cases "vt = kTypeDeletion")
      case True
      then show ?thesis using P ns by (auto simp: pending_def Suc_le_eq) (metis le_neq_implies_less)
    next
      case vt: False
      then show ?thesis using P False same by (auto simp: pending_def Suc_le_eq) (metis le_neq_implies_less)
    qed
    then show ?thesis by (intro go [of vt d' y]) (use False d'(2) on same in auto)
  next
    case v: True
    show ?thesis
    proof (cases "vt \<noteq> kTypeDeletion \<and> user (es ! q) < di_saved_key d")
      case True
      then have y: "q < y" "y < hi" "visible s es y" "ExtractValueType (fst (es ! y)) = kTypeValue" "di_saved_key d = user (es ! y)"
        "di_saved_value d = snd (es ! y)" "\<forall>z. q < z \<and> z < y \<longrightarrow> \<not> visible s es z" "\<forall>z. y < z \<and> z < hi \<longrightarrow> \<not> shown s es z"
        using P by (auto simp: Suc_le_eq)
      have "\<not> visible s es j" if "j < y" "user (es ! j) = user (es ! y)" for j
        using y(7) that True y(5) D(9) [of j q] less.prems(2) by (cases "j \<le> q") (auto simp: le_less)
      then have "shown s es y" using y(3,4) by (auto simp: shown_def)
      then have "saved es s d' y q" using y on same True v less.prems(2) by (simp add: saved_def before_def)
      moreover have "prev_loop Slice_compare I vt d = Some (vt, d')" using d'(2) v True by (subst prev_loop.simps) simp
      ultimately show ?thesis using True y(2,8) on same(1) by (intro exI [of _ vt] exI [of _ d'] exI [of _ q] exI [of _ y]) simp
    next
      case no: False
      have hid: "\<forall>z. q < z \<and> z < hi \<longrightarrow> \<not> shown s es z"
      proof (cases "vt = kTypeDeletion")
        case True
        then show ?thesis using P by (simp add: Suc_le_eq)
      next
        case False
        then have y: "q < y" "visible s es y" "di_saved_key d = user (es ! y)" "\<forall>z. q < z \<and> z < y \<longrightarrow> \<not> visible s es z"
          "\<forall>z. y < z \<and> z < hi \<longrightarrow> \<not> shown s es z" using P by (auto simp: Suc_le_eq)
        have "user (es ! q) = user (es ! y)"
          using no False y(3) D(9) [OF y(1) visible_length [OF y(2)]] by simp
        then have "\<not> shown s es y" using y(1) v by (auto simp: shown_def)
        then show ?thesis using y(4,5) shown_visible by (metis linorder_neqE_nat)
      qed
      show ?thesis
      proof (cases "ExtractValueType (fst (es ! q)) = kTypeDeletion")
        case True
        let ?e = "d'\<lparr>di_saved_key := [], di_saved_value := []\<rparr>"
        have "\<not> shown s es q" using True by (simp add: shown_def constants)
        then have "pending es s hi q kTypeDeletion ?e 0" using hid by (auto simp: pending_def) (metis le_neq_implies_less)
        then show ?thesis by (intro go [of kTypeDeletion ?e 0]) (use True no v d'(2) on same on_entries_update in auto)
      next
        case False
        then have t: "ExtractValueType (fst (es ! q)) = kTypeValue" using D(10) less.prems(2) by blast
        let ?e = "d'\<lparr>di_saved_key := user (es ! q), di_saved_value := snd (es ! q)\<rparr>"
        have "pending es s hi q kTypeValue ?e q" using hid t v less.prems(3) by (auto simp: pending_def constants)
        then show ?thesis by (intro go [of kTypeValue ?e q]) (use False no v d'(2) on same on_entries_update in auto)
      qed
    qed
  qed
qed

definition reverse_at :: "(bytes \<times> bytes) list \<Rightarrow> SequenceNumber \<Rightarrow> 's DBIter \<Rightarrow> nat \<Rightarrow> bool" where
  "reverse_at es s d y \<longleftrightarrow> di_valid d \<and> di_direction d = kReverse \<and> (\<exists>q. saved es s d y q)"

lemma FindPrev_returns:
  assumes "on_entries es s d (if hi = 0 then length es else hi - 1)" and "hi \<le> length es" and "di_direction d = kReverse"
  shows "\<exists>d'. FindPrevUserEntry Slice_compare I d = Some d' \<and>
    ((\<exists>y < hi. reverse_at es s d' y \<and> (\<forall>z. y < z \<and> z < hi \<longrightarrow> \<not> shown s es z)) \<or>
     (\<not> di_valid d' \<and> (\<exists>q. on_entries es s d' q) \<and> (\<forall>z < hi. \<not> shown s es z)))"
proof -
  note D = on_entriesD [OF assms(1)]
  obtain vt d' r y where l: "(if it_Valid I (di_iter d) then prev_loop Slice_compare I kTypeDeletion d else Some (kTypeDeletion, d)) = Some (vt, d')"
    "on_entries es s d' r" "di_direction d' = kReverse"
    "if vt = kTypeDeletion then \<forall>z < hi. \<not> shown s es z
     else y < hi \<and> saved es s d' y r \<and> (\<forall>z. y < z \<and> z < hi \<longrightarrow> \<not> shown s es z)"
  proof (cases "hi = 0")
    case True
    then show ?thesis using that [of kTypeDeletion d "length es"] assms(1,3) D(8) by simp
  next
    case False
    then have q: "on_entries es s d (hi - 1)" "hi - 1 < length es" "hi - 1 < hi" using assms(1,2) by simp_all
    have "pending es s hi (Suc (hi - 1)) kTypeDeletion d 0" using False by (auto simp: pending_def)
    from scan_back [OF q this] show ?thesis using that on_entriesD(8) [OF q(1)] q(2) assms(3) by auto
  qed
  show ?thesis
  proof (cases "vt = kTypeDeletion")
    case True
    let ?d = "ClearSavedValue (d'\<lparr>di_valid := False, di_saved_key := []\<rparr>)\<lparr>di_direction := kForward\<rparr>"
    have "FindPrevUserEntry Slice_compare I d = Some ?d" unfolding FindPrevUserEntry_def l(1) using True by simp
    moreover have "on_entries es s ?d r" unfolding ClearSavedValue_def by (intro on_entries_update l(2))
    ultimately show ?thesis using l(4) True by (intro exI [of _ ?d]) (auto simp: ClearSavedValue_def)
  next
    case False
    let ?d = "d'\<lparr>di_valid := True\<rparr>"
    have "FindPrevUserEntry Slice_compare I d = Some ?d" unfolding FindPrevUserEntry_def l(1) using False by simp
    moreover have "saved es s ?d y r" using l(2,4) False on_entries_update(1) by (simp add: saved_def)
    ultimately show ?thesis using l(3,4) False by (intro exI [of _ ?d]) (auto simp: reverse_at_def)
  qed
qed

lemma leave_key_returns:
  assumes "on_entries es s d q" and "q < length es" and "q \<le> y" and "y < length es" and "di_saved_key d = user (es ! y)"
    and "\<forall>j. q \<le> j \<and> j < y \<longrightarrow> user (es ! j) = user (es ! y)"
  shows "\<exists>left d' i. leave_key Slice_compare I d = Some (left, d') \<and> on_entries es s d' i \<and>
    (if left then i < y \<and> user (es ! i) < user (es ! y) \<and> (\<forall>j. i < j \<and> j < y \<longrightarrow> user (es ! j) = user (es ! y))
     else \<not> di_valid d' \<and> (\<forall>j < y. user (es ! j) = user (es ! y)))"
  using assms
proof (induction q arbitrary: d rule: less_induct)
  case (less q)
  note D = on_entriesD [OF less.prems(1)]
  obtain i where i: "it_Prev I (di_iter d) = Some i" "at es i (if q = 0 then length es else q - 1)"
    using at_Prev [OF D(1) less.prems(2)] by blast
  have oi: "on_entries es s (d\<lparr>di_iter := i\<rparr>) (if q = 0 then length es else q - 1)" by (rule on_entries_iter [OF less.prems(1) i(2)])
  show ?case
  proof (cases "q = 0")
    case True
    let ?d = "ClearSavedValue (d\<lparr>di_iter := i, di_valid := False, di_saved_key := []\<rparr>)"
    have "leave_key Slice_compare I d = Some (False, ?d)"
      using i(1) at_Valid [OF i(2)] True by (subst leave_key.simps) simp
    moreover have "on_entries es s ?d (length es)" unfolding ClearSavedValue_def using oi True by (intro on_entries_update) simp
    ultimately show ?thesis using less.prems(6) True
      by (intro exI [of _ False] exI [of _ ?d] exI [of _ "length es"]) (simp add: ClearSavedValue_def)
  next
    case False
    have q: "q - 1 < q" "q - 1 < length es" "q - 1 \<le> y" "q - 1 < y" using False less.prems(2,3) by simp_all
    have o: "on_entries es s (d\<lparr>di_iter := i\<rparr>) (q - 1)" using oi False by simp
    have r: "it_Valid I i" "ExtractUserKey (it_key I i) = user (es ! (q - 1))" using on_entriesD(6,8) [OF o] q(2) by simp_all
    show ?thesis
    proof (cases "user (es ! (q - 1)) < user (es ! y)")
      case True
      then have "leave_key Slice_compare I d = Some (True, d\<lparr>di_iter := i\<rparr>)"
        using i(1) r less.prems(5) by (subst leave_key.simps) (simp add: Slice_less)
      then show ?thesis using o True q(4) less.prems(6)
        by (intro exI [of _ True] exI [of _ "d\<lparr>di_iter := i\<rparr>"] exI [of _ "q - 1"]) auto
    next
      case no: False
      then have "leave_key Slice_compare I d = leave_key Slice_compare I (d\<lparr>di_iter := i\<rparr>)"
        using i(1) r less.prems(5) by (subst leave_key.simps) (simp add: Slice_less)
      moreover have "user (es ! (q - 1)) = user (es ! y)" using no D(9) [OF q(4) less.prems(4)] by simp
      then have "\<forall>j. q - 1 \<le> j \<and> j < y \<longrightarrow> user (es ! j) = user (es ! y)"
        using less.prems(6) by (metis Suc_leI Suc_pred' False le_neq_implies_less neq0_conv)
      ultimately show ?thesis using less.IH [OF q(1) o q(2,3) less.prems(4)] less.prems(5) by simp
    qed
  qed
qed

section \<open>Positions over the view\<close>

definition db_at :: "(bytes \<times> bytes) list \<Rightarrow> 's DBIter \<Rightarrow> nat \<Rightarrow> bool" where
  "db_at vs d p \<longleftrightarrow> (\<exists>es s. vs = db_view s es \<and> (\<exists>q. on_entries es s d q) \<and>
     (if p < length vs then \<exists>x. p = rank s es x \<and> (x < length es \<and> forward_at es s d x \<or> reverse_at es s d x)
      else p = length vs \<and> \<not> di_valid d))"

lemma forward_db_at: "forward_at es s d x \<Longrightarrow> db_at (db_view s es) d (rank s es x)"
  using rank_less [of s es x] on_entriesD(4) [of es s d x] rank_length [of s es]
  unfolding db_at_def forward_at_def by (intro exI [of _ es] exI [of _ s]) (auto split: if_splits)

lemma reverse_db_at: "reverse_at es s d x \<Longrightarrow> db_at (db_view s es) d (rank s es x)"
  using rank_less [of s es x] unfolding db_at_def reverse_at_def
  by (intro exI [of _ es] exI [of _ s]) (auto simp: saved_def)

lemma invalid_db_at: "on_entries es s d q \<Longrightarrow> \<not> di_valid d \<Longrightarrow> db_at (db_view s es) d (length (db_view s es))"
  unfolding db_at_def by auto

lemma shown_unique: "shown s es y \<Longrightarrow> shown s es z \<Longrightarrow> user (es ! y) = user (es ! z) \<Longrightarrow> y = z"
  by (metis linorder_neqE_nat shown_def)

lemma next_from:
  assumes "on_entries es s d r" and "r \<le> y" and "shown s es y" and "\<forall>j. r \<le> j \<and> j < y \<longrightarrow> \<not> visible s es j"
    and "di_direction d = kForward" and "di_saved_key d = user (es ! y)"
  shows "\<exists>d'. FindNextUserEntry Slice_compare I True d = Some d' \<and> db_at (db_view s es) d' (rank s es y + 1)"
proof -
  note D = on_entriesD [OF assms(1)]
  have y: "y < length es" using assms(3) visible_length shown_visible by blast
  have fk: "user (es ! y) \<le> user (es ! x)" if "r \<le> x" "visible s es x" for x
    using that assms(4) D(9) [of y x] visible_length [OF that(2)] by (cases x y rule: linorder_cases) auto
  have k: "from_key s es r (Some (user (es ! y)))" using fk by (simp add: from_key_def)
  have h: "hides s es r (Some (user (es ! y))) True (di_saved_key d)"
    unfolding hides_def
  proof (intro allI impI)
    fix x assume x: "r \<le> x" "visible s es x"
    have "user (es ! x) \<le> user (es ! y)" if "j < r" "user (es ! j) = user (es ! x)" for j
      using D(9) [of j y] that assms(2) y by simp
    then show "(True \<and> user (es ! x) \<le> di_saved_key d) \<longleftrightarrow>
      ((\<exists>j < r. visible s es j \<and> user (es ! j) = user (es ! x)) \<or> Some (user (es ! y)) = Some (user (es ! x)))"
      using fk [OF x] assms(6) by (metis option.inject order.antisym order.refl)
  qed
  have "r < length es" using assms(2) y by simp
  from scan_forward [OF assms(1) this assms(5) k h] obtain d' x
    where x: "FindNextUserEntry Slice_compare I True d = Some d'" "r \<le> x" "forward_at es s d' x"
    "\<forall>z. r \<le> z \<and> z < x \<and> shown s es z \<longrightarrow> Some (user (es ! y)) = Some (user (es ! z))"
    "x < length es \<longrightarrow> Some (user (es ! y)) \<noteq> Some (user (es ! x))" by blast
  have "y < x"
  proof (cases "x < length es")
    case True
    then have "visible s es x" using x(3) by (simp add: forward_at_def shown_def)
    then show ?thesis using assms(4) x(2,5) True by (metis linorder_neqE_nat)
  qed (use y in simp)
  have "rank s es x = rank s es (Suc y)"
  proof (rule rank_cong)
    show "\<not> shown s es z" if "Suc y \<le> z" "z < x" for z
      using x(4) that assms(2,3) shown_unique [of s es y z] by fastforce
  qed (use \<open>y < x\<close> in simp)
  then show ?thesis using x(1) forward_db_at [OF x(3)] rank_Suc [OF assms(3)] by auto
qed

lemma prev_from:
  assumes "on_entries es s d (if hi = 0 then length es else hi - 1)" and "hi \<le> y" and "y \<le> length es"
    and "\<forall>j. hi \<le> j \<and> j < y \<longrightarrow> \<not> shown s es j" and "di_direction d = kReverse"
  shows "\<exists>d'. FindPrevUserEntry Slice_compare I d = Some d' \<and>
    db_at (db_view s es) d' (if rank s es y = 0 then length (db_view s es) else rank s es y - 1)"
proof -
  have r: "rank s es y = rank s es hi" using assms(2,4) by (intro rank_cong) auto
  obtain d' where d': "FindPrevUserEntry Slice_compare I d = Some d'"
    "(\<exists>y < hi. reverse_at es s d' y \<and> (\<forall>z. y < z \<and> z < hi \<longrightarrow> \<not> shown s es z)) \<or>
     (\<not> di_valid d' \<and> (\<exists>q. on_entries es s d' q) \<and> (\<forall>z < hi. \<not> shown s es z))"
    using FindPrev_returns [OF assms(1) _ assms(5)] assms(2,3) by auto
  from d'(2) have "db_at (db_view s es) d' (if rank s es hi = 0 then length (db_view s es) else rank s es hi - 1)"
  proof (elim disjE exE conjE)
    fix z assume z: "z < hi" "reverse_at es s d' z" "\<forall>j. z < j \<and> j < hi \<longrightarrow> \<not> shown s es j"
    have "rank s es hi = rank s es (Suc z)" using z(1,3) by (intro rank_cong) auto
    then show ?thesis using reverse_db_at [OF z(2)] rank_Suc [of s es z] z(2) by (auto simp: reverse_at_def saved_def)
  next
    fix q assume q: "\<not> di_valid d'" "\<forall>z < hi. \<not> shown s es z" "on_entries es s d' q"
    have "rank s es hi = rank s es 0" using q(2) by (intro rank_cong) auto
    then show ?thesis using invalid_db_at [OF q(3,1)] by (simp add: rank_def)
  qed
  then show ?thesis using d'(1) r by auto
qed

lemma first_from:
  assumes "on_entries es s d q" and "di_direction d = kForward" and "q < length es"
    and "\<And>j x. j < q \<Longrightarrow> q \<le> x \<Longrightarrow> visible s es j \<Longrightarrow> visible s es x \<Longrightarrow> user (es ! j) \<noteq> user (es ! x)"
  shows "\<exists>d'. FindNextUserEntry Slice_compare I False d = Some d' \<and> db_at (db_view s es) d' (rank s es q)"
proof -
  have "from_key s es q None" "hides s es q None False (di_saved_key d)" using assms(4) by (auto simp: from_key_def hides_def)
  from scan_forward [OF assms(1,3,2) this] obtain d' x where x: "FindNextUserEntry Slice_compare I False d = Some d'" "q \<le> x"
    "forward_at es s d' x" "\<forall>y. q \<le> y \<and> y < x \<and> shown s es y \<longrightarrow> None = Some (user (es ! y))" by blast
  have "rank s es x = rank s es q" using x(2,4) by (intro rank_cong) auto
  then show ?thesis using x(1) forward_db_at [OF x(3)] by auto
qed

lemma db_atE:
  assumes "db_at vs d p"
  obtains (forward) es s x where "vs = db_view s es" "p = rank s es x" "p < length vs" "shown s es x" "on_entries es s d x" "x < length es"
      "di_valid d" "di_direction d = kForward"
  | (reverse) es s x q where "vs = db_view s es" "p = rank s es x" "p < length vs" "saved es s d x q" "x < length es"
      "di_valid d" "di_direction d = kReverse"
  | (invalid) es s q where "vs = db_view s es" "p = length vs" "on_entries es s d q" "\<not> di_valid d"
  using assms unfolding db_at_def
  by (auto simp: forward_at_def reverse_at_def saved_def shown_def visible_def split: if_splits)

lemma db_at_entries: "db_at vs d p \<Longrightarrow> \<exists>es s q. vs = db_view s es \<and> on_entries es s d q"
  unfolding db_at_def by blast

lemma DI_Next_at:
  assumes "db_at vs d p" and "p < length vs"
  shows "\<exists>d'. DI_Next Slice_compare I d = Some d' \<and> db_at vs d' (p + 1)"
  using assms(1)
proof (cases rule: db_atE)
  case (forward es s x)
  let ?d = "d\<lparr>di_saved_key := user (es ! x)\<rparr>"
  have od: "on_entries es s ?d x" by (rule on_entries_update(2) [OF forward(5)])
  have "\<forall>j. x \<le> j \<and> j < x \<longrightarrow> \<not> visible s es j" by auto
  note n = next_from [OF od order.refl forward(4) this]
  have "DI_Next Slice_compare I d = FindNextUserEntry Slice_compare I True ?d"
    using forward(8) on_entriesD(6) [OF forward(5,6)] by (simp add: DI_Next_def SaveKey_def)
  then show ?thesis
    using n forward(1,2,8) by simp
next
  case (reverse es s x q)
  have o: "on_entries es s d q" "shown s es x" "before es s x q" "di_saved_key d = user (es ! x)"
    using reverse(4) by (simp_all add: saved_def)
  note D = on_entriesD [OF o(1)]
  obtain i r where i: "(if it_Valid I (di_iter d) then it_Next I (di_iter d) else it_SeekToFirst I (di_iter d)) = Some i" "at es i r"
    "r \<le> x" "\<forall>j. r \<le> j \<and> j < x \<longrightarrow> \<not> visible s es j"
  proof (cases "q < length es")
    case True
    then show ?thesis using that at_Next [OF D(1) True] D(8) o(3) by (auto simp: before_def Suc_le_eq)
  next
    case False
    then show ?thesis using that at_SeekToFirst [OF D(1)] D(8) o(3) by (auto simp: before_def)
  qed
  let ?d = "d\<lparr>di_direction := kForward, di_iter := i\<rparr>"
  have od: "on_entries es s ?d r" by (intro on_entries_iter [OF on_entries_update(4) [OF o(1)] i(2)])
  have "it_Valid I i" using at_Valid [OF i(2)] i(3) reverse(5) by simp
  then have "DI_Next Slice_compare I d = FindNextUserEntry Slice_compare I True ?d"
    using reverse(7) i(1) by (simp add: DI_Next_def)
  then show ?thesis using next_from [OF od i(3) o(2) i(4)] o(4) reverse(1,2) by simp
qed (use assms(2) in simp)

lemma DI_Prev_at:
  assumes "db_at vs d p" and "p < length vs"
  shows "\<exists>d'. DI_Prev Slice_compare I d = Some d' \<and> db_at vs d' (if p = 0 then length vs else p - 1)"
  using assms(1)
proof (cases rule: db_atE)
  case (forward es s x)
  let ?d = "d\<lparr>di_saved_key := user (es ! x)\<rparr>"
  have od: "on_entries es s ?d x" by (rule on_entries_update(2) [OF forward(5)])
  have key: "ExtractUserKey (it_key I (di_iter d)) = user (es ! x)" by (rule on_entriesD(6) [OF forward(5,6)])
  have "di_saved_key ?d = user (es ! x)" "\<forall>j. x \<le> j \<and> j < x \<longrightarrow> user (es ! j) = user (es ! x)" by auto
  from leave_key_returns [OF od forward(6) order.refl forward(6) this] obtain left d' i where
    l: "leave_key Slice_compare I ?d = Some (left, d')" "on_entries es s d' i"
    "if left then i < x \<and> user (es ! i) < user (es ! x) \<and> (\<forall>j. i < j \<and> j < x \<longrightarrow> user (es ! j) = user (es ! x))
     else \<not> di_valid d' \<and> (\<forall>j < x. user (es ! j) = user (es ! x))" by blast
  have hid: "\<not> shown s es j" if "j < x" "user (es ! j) = user (es ! x)" for j
    using forward(4) that by (auto simp: shown_def)
  show ?thesis
  proof (cases left)
    case True
    let ?e = "d'\<lparr>di_direction := kReverse\<rparr>"
    have "DI_Prev Slice_compare I d = FindPrevUserEntry Slice_compare I ?e"
      using forward(8) key l(1) True by (simp add: DI_Prev_def SaveKey_def)
    moreover have "on_entries es s ?e (if Suc i = 0 then length es else Suc i - 1)" using on_entries_update(4) [OF l(2)] by simp
    from prev_from [OF this, of x] have "\<exists>d'. FindPrevUserEntry Slice_compare I ?e = Some d' \<and>
      db_at (db_view s es) d' (if rank s es x = 0 then length (db_view s es) else rank s es x - 1)"
      using l(3) True forward(6) hid by simp
    ultimately show ?thesis unfolding forward(1,2) by (simp only:)
  next
    case False
    then have "DI_Prev Slice_compare I d = Some d'" using forward(8) key l(1) by (simp add: DI_Prev_def SaveKey_def)
    moreover have "rank s es x = rank s es 0" using l(3) False hid by (intro rank_cong) auto
    then have "p = 0" using forward(2) by (simp add: rank_def)
    ultimately show ?thesis using invalid_db_at [OF l(2)] l(3) False forward(1) by simp
  qed
next
  case (reverse es s x q)
  have o: "on_entries es s d q" "before es s x q" using reverse(4) by (simp_all add: saved_def)
  let ?hi = "if q < length es then Suc q else 0"
  have "on_entries es s d (if ?hi = 0 then length es else ?hi - 1)"
    using o(1) on_entriesD(4) [OF o(1)] by (cases "q = length es") auto
  moreover have "?hi \<le> x" "\<forall>j. ?hi \<le> j \<and> j < x \<longrightarrow> \<not> shown s es j"
    using o(2) by (auto simp: before_def shown_def split: if_splits)
  moreover have "DI_Prev Slice_compare I d = FindPrevUserEntry Slice_compare I d" using reverse(7) by (simp add: DI_Prev_def)
  ultimately have "\<exists>d'. DI_Prev Slice_compare I d = Some d' \<and>
      db_at (db_view s es) d' (if rank s es x = 0 then length (db_view s es) else rank s es x - 1)"
    using prev_from [of es s d ?hi x] reverse(5,7) by (simp split del: if_split)
  then show ?thesis unfolding reverse(1,2) .
qed (use assms(2) in simp)

lemma DI_SeekToFirst_at:
  assumes "db_at vs d p"
  shows "\<exists>d'. DI_SeekToFirst Slice_compare I d = Some d' \<and> db_at vs d' 0"
proof -
  obtain es s q where o: "vs = db_view s es" "on_entries es s d q" using db_at_entries [OF assms] by blast
  obtain i where i: "it_SeekToFirst I (di_iter d) = Some i" "at es i 0" using at_SeekToFirst [OF on_entriesD(1) [OF o(2)]] by blast
  let ?d = "ClearSavedValue (d\<lparr>di_direction := kForward\<rparr>)\<lparr>di_iter := i\<rparr>"
  have od: "on_entries es s ?d 0"
    unfolding ClearSavedValue_def by (rule on_entries_iter [OF on_entries_update(3) [OF on_entries_update(4) [OF o(2)]] i(2)])
  show ?thesis
  proof (cases "es = []")
    case True
    then have "DI_SeekToFirst Slice_compare I d = Some (?d\<lparr>di_valid := False\<rparr>)"
      using i(1) at_Valid [OF i(2)] by (simp add: DI_SeekToFirst_def Let_def ClearSavedValue_def)
    moreover have "length (db_view s es) = 0" using True by (simp add: db_view_def)
    ultimately show ?thesis using invalid_db_at [OF on_entries_update(1) [OF od, of False]] o(1) by simp
  next
    case False
    then have "DI_SeekToFirst Slice_compare I d = FindNextUserEntry Slice_compare I False ?d"
      using i(1) at_Valid [OF i(2)] by (simp add: DI_SeekToFirst_def Let_def ClearSavedValue_def)
    then show ?thesis using first_from [OF od] False o(1) by (simp add: ClearSavedValue_def rank_def)
  qed
qed

lemma DI_SeekToLast_at:
  assumes "db_at vs d p"
  shows "\<exists>d'. DI_SeekToLast Slice_compare I d = Some d' \<and> db_at vs d' (length vs - 1)"
proof -
  obtain es s q where o: "vs = db_view s es" "on_entries es s d q" using db_at_entries [OF assms] by blast
  obtain i where i: "it_SeekToLast I (di_iter d) = Some i" "at es i (length es - 1)"
    using at_SeekToLast [OF on_entriesD(1) [OF o(2)]] by blast
  let ?d = "ClearSavedValue (d\<lparr>di_direction := kReverse\<rparr>)\<lparr>di_iter := i\<rparr>"
  have "on_entries es s ?d (length es - 1)"
    unfolding ClearSavedValue_def by (rule on_entries_iter [OF on_entries_update(3) [OF on_entries_update(4) [OF o(2)]] i(2)])
  then have "on_entries es s ?d (if length es = 0 then length es else length es - 1)" by (cases "length es = 0") simp_all
  moreover have "di_direction ?d = kReverse" "\<forall>j. length es \<le> j \<and> j < length es \<longrightarrow> \<not> shown s es j"
    by (auto simp: ClearSavedValue_def)
  ultimately obtain d' where d': "FindPrevUserEntry Slice_compare I ?d = Some d'"
    "db_at vs d' (if length vs = 0 then length vs else length vs - 1)"
    using prev_from [of es s ?d "length es" "length es"] unfolding rank_length o(1) by blast
  have "DI_SeekToLast Slice_compare I d = FindPrevUserEntry Slice_compare I ?d"
    using i(1) by (simp add: DI_SeekToLast_def ClearSavedValue_def)
  then show ?thesis using d' by (cases "length vs = 0") simp_all
qed

lemma below_db_view:
  assumes "on_entries es s d q"
  shows "below Slice_compare u (db_view s es) = rank s es (below (InternalKey_Compare Slice_compare) (InternalKey u s kValueTypeForSeek) es)"
    and "j < below (InternalKey_Compare Slice_compare) (InternalKey u s kValueTypeForSeek) es \<Longrightarrow> visible s es j \<Longrightarrow> user (es ! j) < u"
    and "below (InternalKey_Compare Slice_compare) (InternalKey u s kValueTypeForSeek) es \<le> x \<Longrightarrow> visible s es x \<Longrightarrow> u \<le> user (es ! x)"
proof -
  let ?c = "InternalKey_Compare Slice_compare" and ?k = "InternalKey u s kValueTypeForSeek"
  let ?b = "below ?c ?k es"
  have srt: "sorted_wrt (\<lambda>a b. ?c (fst a) (fst b) < 0) es" by (rule at_sorted [OF on_entriesD(1) [OF assms]])
  have less: "?c (fst (es ! j)) ?k < 0 \<longleftrightarrow> user (es ! j) < u" if "visible s es j" for j
    using seek_key [of s "es ! j" u] assms that by (auto simp: on_entries_def entries_ok_def visible_def not_less)
  show lo: "user (es ! j) < u" if "j < ?b" "visible s es j" for j
    using below_nth [OF that(1)] less [OF that(2)] by simp
  show hi: "u \<le> user (es ! x)" if "?b \<le> x" "visible s es x" for x
    using ikey.internal.below_above [OF srt that(1) visible_length [OF that(2)]] less [OF that(2)] by simp
  let ?f = "\<lambda>j. (user (es ! j), snd (es ! j))"
  have "[0..<length es] = [0..<?b] @ [?b..<length es]" using below_le [of ?c ?k es] by (metis le_Suc_ex less_eq_nat.simps(1) upt_add_eq_append)
  then have v: "db_view s es = map ?f (filter (shown s es) [0..<?b]) @ map ?f (filter (shown s es) [?b..<length es])"
    by (simp add: db_view_def)
  have no: "\<forall>e \<in> set (map ?f (filter (shown s es) [?b..<length es])). \<not> Slice_compare (fst e) u < 0"
    using hi shown_visible by (auto simp: Slice_less not_less)
  have "takeWhile (\<lambda>e. Slice_compare (fst e) u < 0) (map ?f (filter (shown s es) [?b..<length es])) = []"
    using no by (cases "map ?f (filter (shown s es) [?b..<length es])") (simp_all only: takeWhile.simps list.set insert_iff simp_thms if_False)
  moreover have "\<forall>e \<in> set (map ?f (filter (shown s es) [0..<?b])). Slice_compare (fst e) u < 0"
    using lo shown_visible by (auto simp: Slice_less)
  ultimately have "takeWhile (\<lambda>e. Slice_compare (fst e) u < 0) (db_view s es) = map ?f (filter (shown s es) [0..<?b])"
    unfolding v by (simp add: takeWhile_append)
  then show "below Slice_compare u (db_view s es) = rank s es ?b" by (simp add: below_def rank_def)
qed

definition user_fits :: "bytes \<Rightarrow> bool" where
  "user_fits u \<longleftrightarrow> length u + 8 < 2 ^ 32"

lemma DI_Seek_at:
  assumes "db_at vs d p" and "user_fits u"
  shows "\<exists>d'. DI_Seek Slice_compare I u d = Some d' \<and> db_at vs d' (below Slice_compare u vs)"
proof -
  obtain es s q where o: "vs = db_view s es" "on_entries es s d q" using db_at_entries [OF assms(1)] by blast
  let ?k = "InternalKey u s kValueTypeForSeek"
  let ?b = "below (InternalKey_Compare Slice_compare) ?k es"
  note B = below_db_view [where u = u, OF o(2)]
  have k: "key_fits ?k" using assms(2) by (simp add: key_fits_def user_fits_def)
  obtain i where i: "it_Seek I ?k (di_iter d) = Some i" "at es i ?b" using at_Seek [OF on_entriesD(1) [OF o(2)] k] by blast
  let ?d = "d\<lparr>di_direction := kForward, di_saved_value := [], di_saved_key := ?k, di_iter := i\<rparr>"
  have od: "on_entries es s ?d ?b"
    by (rule on_entries_iter [OF on_entries_update(2) [OF on_entries_update(3) [OF on_entries_update(4) [OF o(2)]]] i(2)])
  have eq: "DI_Seek Slice_compare I u d = (if it_Valid I i then FindNextUserEntry Slice_compare I False ?d else Some (?d\<lparr>di_valid := False\<rparr>))"
    using i(1) on_entriesD(2) [OF o(2)] by (simp add: DI_Seek_def Let_def ClearSavedValue_def flip: InternalKey_def)
  show ?thesis
  proof (cases "?b < length es")
    case True
    have "user (es ! j) \<noteq> user (es ! x)" if "j < ?b" "?b \<le> x" "visible s es j" "visible s es x" for j x
      using B(2) [OF that(1,3)] B(3) [OF that(2,4)] by auto
    from first_from [OF od _ True this] show ?thesis using eq at_Valid [OF i(2)] True o(1) B(1) by simp
  next
    case False
    then have "rank s es ?b = length vs" using below_le [of _ ?k es] o(1) rank_length by (metis le_neq_implies_less)
    then show ?thesis using eq at_Valid [OF i(2)] False invalid_db_at [OF on_entries_update(1) [OF od, of False]] o(1) B(1) by simp
  qed
qed

lemma db_reads:
  assumes "db_at vs d p"
  shows "sorted_wrt (\<lambda>a b. Slice_compare (fst a) (fst b) < 0) vs" and "e \<in> set vs \<Longrightarrow> user_fits (fst e)" and "p \<le> length vs"
    and "di_valid d \<longleftrightarrow> p < length vs" and "p < length vs \<Longrightarrow> DI_key I d = fst (vs ! p)"
    and "p < length vs \<Longrightarrow> DI_value I d = snd (vs ! p)" and "DI_status I d = OK"
proof -
  obtain es s q where o: "vs = db_view s es" "on_entries es s d q" using db_at_entries [OF assms] by blast
  note D = on_entriesD [OF o(2)]
  have lt: "user (es ! a) < user (es ! b)" if "a < b" "shown s es a" "shown s es b" for a b
    using D(9) [OF that(1)] visible_length [OF shown_visible [OF that(3)]] shown_unique [OF that(2,3)] that(1) by fastforce
  have "sorted_wrt (<) (filter (shown s es) [0..<length es])" by (intro sorted_wrt_filter) simp
  then have "sorted_wrt (\<lambda>a b. user (es ! a) < user (es ! b)) (filter (shown s es) [0..<length es])"
    by (rule sorted_wrt_mono_rel [rotated]) (use lt in auto)
  then show "sorted_wrt (\<lambda>a b. Slice_compare (fst a) (fst b) < 0) vs"
    unfolding o(1) db_view_def by (simp add: sorted_wrt_map Slice_less)
  show "user_fits (fst e)" if "e \<in> set vs"
  proof -
    obtain j where j: "j < length es" "fst e = user (es ! j)" using \<open>e \<in> set vs\<close> unfolding o(1) db_view_def by auto
    then show ?thesis using at_seekable [OF D(1), of "es ! j"] by (simp add: user_fits_def user_def key_fits_def ExtractUserKey_def)
  qed
  show "DI_status I d = OK" using o(2) at_status [OF D(1)] by (simp add: DI_status_def on_entries_def ok_def)
  show "p \<le> length vs" using assms by (auto simp: db_at_def split: if_splits)
  show "di_valid d \<longleftrightarrow> p < length vs" using assms by (cases rule: db_atE) simp_all
  have "(DI_key I d, DI_value I d) = vs ! p" if "p < length vs"
    using assms
  proof (cases rule: db_atE)
    case (forward es s x)
    then show ?thesis using on_entriesD(6,7) [OF forward(5,6)] db_view_rank by (simp add: DI_key_def DI_value_def)
  next
    case (reverse es s x q)
    then show ?thesis using db_view_rank [of s es x] by (simp add: DI_key_def DI_value_def saved_def)
  qed (use that in simp)
  then show "p < length vs \<Longrightarrow> DI_key I d = fst (vs ! p)" "p < length vs \<Longrightarrow> DI_value I d = snd (vs ! p)"
    by (auto simp: prod_eq_iff)
qed

lemma db_iterator_contract: "iterator (db_iterator Slice_compare I) Slice_compare user_fits db_at"
  using db_reads(1,2) by unfold_locales
    (simp_all add: db_iterator_def db_reads(3-7) DI_SeekToFirst_at DI_SeekToLast_at [simplified] DI_Seek_at DI_Next_at [simplified]
      DI_Prev_at)

lemma mk_DBIter_at:
  assumes "at es i q" and "entries_ok es" and "s \<le> kMaxSequenceNumber"
  shows "db_at (db_view s es) (mk_DBIter i s seed) (length (db_view s es))"
proof -
  have "seed_ok (Random_Next (mk_Random seed))" by (intro Random_Next_ok mk_Random_ok)
  moreover have "int (unat (Random_Next (mk_Random seed)) mod 2097152) < 2097152" by simp
  ultimately have "on_entries es s (mk_DBIter i s seed) q"
    using assms by (simp add: on_entries_def mk_DBIter_def RandomPeriod_eq counters_ok_def)
  moreover have "\<not> di_valid (mk_DBIter i s seed)" by (simp add: mk_DBIter_def RandomPeriod_eq)
  ultimately show ?thesis by (rule invalid_db_at)
qed

end

section \<open>Properties\<close>

interpretation dbi: db_iteration "merging_iterator (InternalKey_Compare Slice_compare) Comparator_KeyNum obj_iterator" mrg.mg_at
  by (intro db_iteration.intro mrg.merging_contract)

text \<open>C1: the iterator of a database over a merging iterator is, for its client, a cursor over the
  user keys with a value at the sequence number, each with its newest visible value: every sequence
  of moves that a cursor allows returns, in both directions and with changes of direction, and leads to
  the entry the cursor stands at.\<close>

theorem database_iteration:
  assumes "list_all2 (\<lambda>es c. \<exists>p. obj_at (InternalKey_Compare Slice_compare) key_fits es c p) ess children"
    and "sorted_wrt (\<lambda>a b. InternalKey_Compare Slice_compare (fst a) (fst b) < 0) es" and "mset es = mset (concat ess)"
    and "\<forall>e \<in> set es. ExtractValueType (fst e) \<le> kTypeValue" and "s \<le> kMaxSequenceNumber"
    and "NewDBIterator Slice_compare (merging_iterator (InternalKey_Compare Slice_compare) Comparator_KeyNum obj_iterator)
      (mk_MergingIterator (InternalKey_Compare Slice_compare) Comparator_KeyNum obj_iterator children) s seed = (I, d)"
    and "seeks (\<lambda>u. length u + 8 < 2 ^ 32) ms" and "cursor_moves Slice_compare (db_view s es) ms (length (db_view s es)) = Some q"
  shows "\<exists>d'. it_moves I ms d = Some d' \<and> it_entry I d' = cursor_entry (db_view s es) q \<and> it_status I d' = OK"
proof -
  have "mrg.mg_at es (mk_MergingIterator (InternalKey_Compare Slice_compare) Comparator_KeyNum obj_iterator children) (length es)"
    using assms(1-3) by (intro mrg.mk_MergingIterator_at) (auto simp: mrg.merged_def list_all2_conv_all_nth)
  from dbi.mk_DBIter_at [OF this _ assms(5), of seed]
  have d: "dbi.db_at (db_view s es) d (length (db_view s es))"
    and I: "I = db_iterator Slice_compare (merging_iterator (InternalKey_Compare Slice_compare) Comparator_KeyNum obj_iterator)"
    using assms(4,6) by (auto simp: NewDBIterator_def entries_ok_def)
  have "seeks dbi.user_fits ms" using assms(7) by (simp add: seeks_def dbi.user_fits_def [abs_def] cong: Move.case_cong)
  from iterator.it_moves_entry [OF dbi.db_iterator_contract d assms(8) this] show ?thesis unfolding I .
qed

theorem database_iteration_witness:
  "\<exists>mt I d d'. MemTable_Adds Slice_compare KeyNum (mk_MemTable KeyNum) sample_items = Some mt \<and>
    NewDBIterator Slice_compare (merging_iterator (InternalKey_Compare Slice_compare) Comparator_KeyNum obj_iterator)
      (mk_MergingIterator (InternalKey_Compare Slice_compare) Comparator_KeyNum obj_iterator (sample_children mt)) 9 0 = (I, d) \<and>
    it_moves I [MSeekToLast, MPrev] d = Some d' \<and> it_entry I d' = Some ([4], [20])"
proof -
  obtain mt ess where mt: "MemTable_Adds Slice_compare KeyNum (mk_MemTable KeyNum) sample_items = Some mt"
    "list_all2 (\<lambda>es c. \<exists>p. obj_at (InternalKey_Compare Slice_compare) key_fits es c p) ess (sample_children mt)"
    "mset sample_merged = mset (concat ess)" using sample_children_at by blast
  have ok: "\<forall>e \<in> set sample_merged. ExtractValueType (fst e) \<le> kTypeValue" "9 \<le> kMaxSequenceNumber"
    by (simp_all add: sample_merged_def constants)
  have seqs: "entry_seq (InternalKey u 9 t, v) = 9" "entry_seq (InternalKey u 8 t, v) = 8" "entry_seq (InternalKey u 7 t, v) = 7"
    "entry_seq (InternalKey u 2 t, v) = 2" "entry_seq (InternalKey u 1 t, v) = 1" for u t v
    by (simp_all add: entry_seq_InternalKey constants)
  have view: "db_view 9 sample_merged = [([4], [20]), ([5], [11])]"
    by (simp add: db_view_def shown_def visible_def sample_merged_def user_def seqs constants All_less_Suc)
  have mv: "seeks (\<lambda>u. length u + 8 < 2 ^ 32) [MSeekToLast, MPrev]"
    "cursor_moves Slice_compare (db_view 9 sample_merged) [MSeekToLast, MPrev] (length (db_view 9 sample_merged)) = Some 0"
    by (simp_all add: seeks_def view)
  obtain I d where I: "NewDBIterator Slice_compare (merging_iterator (InternalKey_Compare Slice_compare) Comparator_KeyNum obj_iterator)
      (mk_MergingIterator (InternalKey_Compare Slice_compare) Comparator_KeyNum obj_iterator (sample_children mt)) 9 0 = (I, d)" by fastforce
  from database_iteration [OF mt(2) sample_merged_sorted mt(3) ok I mv] show ?thesis
    using mt(1) I by (auto simp: cursor_entry_def view)
qed

text \<open>C37: the loop that records read samples ends for every seed and every number of bytes read; it
  records the current key only and leaves the counter within one period.\<close>

theorem sampling_returns:
  assumes "c < 2097152"
  shows "\<exists>d m. record_samples k ((mk_DBIter iter s seed)\<lparr>di_bytes_counter := c\<rparr>) = Some d \<and> di_samples d = replicate m k \<and>
    0 \<le> di_bytes_counter d \<and> di_bytes_counter d < 2097152"
proof -
  have "seed_ok (di_rnd ((mk_DBIter iter s seed)\<lparr>di_bytes_counter := c\<rparr>))"
    by (simp add: mk_DBIter_def RandomPeriod_eq Random_Next_ok mk_Random_ok)
  from record_samples_returns [OF this, of k] show ?thesis using assms by (auto simp: mk_DBIter_def RandomPeriod_eq)
qed

theorem sampling_returns_witness:
  "\<exists>d m. record_samples [1] ((mk_DBIter () 5 0)\<lparr>di_bytes_counter := - 9000000\<rparr>) = Some d \<and> di_samples d = replicate m [1] \<and>
    0 \<le> di_bytes_counter d \<and> di_bytes_counter d < 2097152"
  by (rule sampling_returns) simp

end
