(* ===== verification/Spec2Isabelle.thy ===== *)
theory Spec2Isabelle
  imports DbFormat LogReader SkipList MemTable Hash Bloom MetaData WriteBatch VersionEdit Block FilterBlock Format Options TableBuilder Cache Table Iterator TwoLevelIterator StdHeap Merger DBIterator
begin

text \<open>
  \<^bold>\<open>PebblesDB\<close> is a key-value store of the LSM family: writes go to a log and to a memtable,
  full memtables become sorted table files, and the files of a level are grouped by \<^emph>\<open>guards\<close>, keys
  that are picked by a hash.  The sources are under \<^verbatim>\<open>src/src\<close>; file names below are relative
  to it.  The development models the data path: what is written to the log, to the memtable and to a
  table, how it is read back, and how an iterator of the database sees it.

  \<^bold>\<open>Conventions.\<close>  Bytes are 8-bit words and strings of the source are byte lists; \<open>uint32_t\<close> and
  \<open>uint64_t\<close> are words of their width, so that overflow wraps as in the code.  An object is a
  record of its fields, an operation a function that returns the updated record.  An operation that
  may not return, or that fails an assertion, returns an option: \<open>None\<close> is the missing
  result, and the theorems prove that there is one.  A \<open>Status\<close> is a value.  Pointers into a shared
  structure are addresses in an explicit store (skip list, cache).  Assertions that the callers
  establish are preconditions with the suffix \<open>_pre\<close>.  Operations that the code runs under a lock
  are single steps.

  \<^bold>\<open>Theories, from the bottom up.\<close>
  \<^item> \<open>Prelude\<close>: types, literals, lemma collections and lemmas on words and lists.
  \<^item> \<open>Coding\<close> (\<^verbatim>\<open>util/coding.cc\<close>): fixed-width and variable-length integers, length-prefixed
    strings; decoders give back what was encoded.
  \<^item> \<open>Comparator\<close> (\<^verbatim>\<open>util/comparator.cc\<close>, \<^verbatim>\<open>include/pebblesdb/slice.h\<close>): slices and the
    bytewise comparator; the locales \<open>key_comparator\<close> and \<open>key_shortener\<close> are its contract.
  \<^item> \<open>DbFormat\<close> (\<^verbatim>\<open>db/dbformat.cc\<close>): internal keys, their order and lookup keys; the locale
    \<open>user_order\<close> lifts the contract of a user comparator to internal keys.
  \<^item> \<open>Crc32cTables\<close>, \<open>Crc32c\<close> (\<^verbatim>\<open>util/crc32c.cc\<close>): the table-driven checksum computes
    the bitwise definition of CRC-32C; masking is invertible.
  \<^item> \<open>Status\<close> (\<^verbatim>\<open>util/status.cc\<close>): the results of operations.
  \<^item> \<open>LogWriter\<close>, \<open>LogReader\<close> (\<^verbatim>\<open>db/log_writer.cc\<close>, \<^verbatim>\<open>db/log_reader.cc\<close>): the log with
    concurrent reservations; records are read back in order, and the places where the
    reservation leaves a hole are characterised.
  \<^item> \<open>SkipList\<close>, \<open>MemTable\<close> (\<^verbatim>\<open>db/skiplist.h\<close>, \<^verbatim>\<open>db/memtable.cc\<close>, \<^verbatim>\<open>util/random.h\<close>):
    the skip list with its comparison hints, and the memtable as a multi-version map.
  \<^item> \<open>Hash\<close>, \<open>Bloom\<close> (\<^verbatim>\<open>util/hash.cc\<close>, \<^verbatim>\<open>db/murmurhash3.cc\<close>, \<^verbatim>\<open>util/bloom.cc\<close>): hashes
    and the Bloom filter, which has no false negatives.
  \<^item> \<open>MetaData\<close>, \<open>WriteBatch\<close> (\<^verbatim>\<open>db/version_edit.h\<close>, \<^verbatim>\<open>db/write_batch.cc\<close>): descriptors of
    files and guards; batches, their insertion into a memtable and the choice of guards.
  \<^item> \<open>VersionEdit\<close> (\<^verbatim>\<open>db/version_edit.cc\<close>): the records of the manifest and their decoder.
  \<^item> \<open>Block\<close>, \<open>FilterBlock\<close>, \<open>Format\<close> (\<^verbatim>\<open>table/block_builder.cc\<close>, \<^verbatim>\<open>table/block.cc\<close>,
    \<^verbatim>\<open>table/filter_block.cc\<close>, \<^verbatim>\<open>table/format.cc\<close>): prefix-compressed blocks with their iterator,
    filters, and the frame of a table file.  Corrupt input is covered by the definitions; the
    round trips and \<open>Seek\<close> are proved for blocks that the builder wrote.
  \<^item> \<open>Options\<close> (\<^verbatim>\<open>include/pebblesdb/options.h\<close>, \<open>SanitizeOptions\<close> of \<^verbatim>\<open>db/db_impl.cc\<close>).
  \<^item> \<open>TableBuilder\<close>, \<open>Cache\<close>, \<open>Table\<close> (\<^verbatim>\<open>table/table_builder.cc\<close>, \<^verbatim>\<open>util/cache.cc\<close>,
    \<^verbatim>\<open>table/table.cc\<close>): writing a table, the sharded LRU cache, and reading a table through it.  The
    locale \<open>cache_contract\<close> is what a client of a cache relies on; it is interpreted on the cache
    of the repository, and \<open>table_reader\<close> rests on it.
  \<^item> \<open>Iterator\<close> (\<^verbatim>\<open>include/pebblesdb/iterator.h\<close>, \<^verbatim>\<open>table/iterator_wrapper.h\<close>): the abstract
    interface as a record of operations.  The locale \<open>iterator\<close> is its contract: the state
    stands at a position of a sorted list of entries, and each operation moves as a cursor over that
    list does.  It is interpreted on the iterators of memtables and blocks, and on objects that
    carry the operations of their class.
  \<^item> \<open>TwoLevelIterator\<close> (\<^verbatim>\<open>table/two_level_iterator.cc\<close>), \<open>StdHeap\<close>, \<open>Merger\<close>
    (\<^verbatim>\<open>table/merger.cc\<close>): iterators over iterators, which keep the contract when their
    children do; \<open>StdHeap\<close> has the heap functions of the C++ library.
  \<^item> \<open>DBIterator\<close> (\<^verbatim>\<open>db/db_iter.cc\<close>): the iterator that a client of the database gets.  Over a
    merging iterator it is a cursor over the newest visible value of every user key.

  \<^bold>\<open>Interaction.\<close>  A write batch is decoded by \<open>MemTableInserter\<close> and its entries are added to the
  memtable; \<open>GuardInserter\<close> picks guards from the same entries.  A table builder writes blocks,
  filters and a footer; \<open>Table_Open\<close> and \<open>InternalGet\<close> read them through \<open>ReadBlock\<close>
  and the block cache.  Iterators of memtables and of tables are the children of a merging iterator,
  and the database iterator runs over it.  The properties on tables and on the database iterator
  compose these parts.

  \<^bold>\<open>Loops and fuel.\<close>  Loops whose end follows from the data are recursive functions with a
  termination proof.  Loops that follow pointers or call an iterator of unknown class are
  \<open>partial_function (option)\<close>, and lemmas show that they return on well-formed input; the sampling loop
  of \<open>ParseKey\<close> ends because the random generator does not draw two multiples of its period in
  a row.  Fuel occurs only in functions that observe an iterator (\<open>it_walk\<close>, \<open>BI_walk\<close>, \<open>MemIter_walk\<close>); more than
  the number of entries is enough, and the theorems ask for that.

  \<^bold>\<open>Arguments.\<close>  The Snappy codec, files and user comparators are arguments.  The hypothesis
  \<open>snappy_ok\<close> says that decompression inverts compression.  Files in memory
  (\<open>mem_WritableFile\<close>, \<open>mem_Read\<close>) and the bytewise comparator instantiate them.

  \<^bold>\<open>Not modelled.\<close>  The version set (\<^verbatim>\<open>db/version_set.cc\<close>), the database object
  (\<^verbatim>\<open>db/db_impl.cc\<close>), the table cache, the builder of level-0 tables, snapshots, file names, the
  replay iterator and repair: they tie the modelled parts to files, locks and background threads, and
  are the next layer above this library.  The environment, atomics, timers, histograms, the arena and
  the loggers are input and output, wrappers over the machine, or memory management, which has no
  counterpart where data are values.  Code under \<open>READ_PARALLEL\<close>, \<open>SEEK_PARALLEL\<close> and the timer
  macros is not compiled in.  Debug printers, benchmarks, command-line tools, test support and
  the C interface do not take part in storing data.
\<close>

end
